(* ===== verification/Prelude.thy ===== *)
theory Prelude
  imports Main "HOL-Library.Multiset" "HOL-Library.AList" "HOL-Library.List_Lexorder"
    "HOL-Library.Char_ord"
begin

text \<open>
  What the components share: the collections of rewrite rules, the JavaScript collections
  (an insertion-ordered \<open>Map\<close> is an association list under \<open>AList.update\<close>, an
  insertion-ordered \<open>Set\<close> is a distinct list), reachability with its invariant rule as a
  locale, and generation counters as a locale.
\<close>

section \<open>Hint collections\<close>

named_theorems lane_simps \<open>equations of lock tables and lane operations\<close>
named_theorems plan_simps \<open>lock plans as explicit lists of locks\<close>

section \<open>Insertion-ordered sets and maps\<close>

text \<open>\<open>Set.add\<close> and \<open>new Set(xs)\<close>: the first occurrence keeps its place.\<close>

definition set_add :: "'a \<Rightarrow> 'a list \<Rightarrow> 'a list" where
  "set_add x xs = (if x \<in> set xs then xs else xs @ [x])"

definition dedup :: "'a list \<Rightarrow> 'a list" where
  "dedup xs = foldl (\<lambda>acc x. set_add x acc) [] xs"

lemma set_set_add [simp]: "set (set_add x xs) = insert x (set xs)"
  by (auto simp: set_add_def)

lemma distinct_set_add [simp]: "distinct (set_add x xs) = distinct xs"
  by (auto simp: set_add_def)

lemma set_foldl_set_add: "set (foldl (\<lambda>acc x. set_add x acc) acc xs) = set acc \<union> set xs"
  by (induction xs arbitrary: acc) auto

lemma distinct_foldl_set_add:
  "distinct (foldl (\<lambda>acc x. set_add x acc) acc xs) = distinct acc"
  by (induction xs arbitrary: acc) auto

lemma set_dedup [simp]: "set (dedup xs) = set xs"
  by (simp add: dedup_def set_foldl_set_add)

lemma distinct_dedup [simp]: "distinct (dedup xs)"
  by (simp add: dedup_def distinct_foldl_set_add)

lemma dedup_Nil [simp]: "dedup [] = []"
  by (simp add: dedup_def)

text \<open>
  \<open>Map.set\<close> is \<open>AList.update\<close>: an existing key keeps its place, a new one goes last.
  \<open>Map.delete\<close> is \<open>AList.delete\<close> and \<open>Map.get\<close> is \<open>map_of\<close>.
\<close>

lemma map_of_update [simp]: "map_of (AList.update k v m) = (map_of m)(k \<mapsto> v)"
  by (rule update_conv')

lemma map_of_delete [simp]: "map_of (AList.delete k m) = (map_of m)(k := None)"
  by (rule delete_conv')

section \<open>Options and lists of identifiers\<close>

lemma option_eqI: "(\<And>x. a = Some x \<longleftrightarrow> b = Some x) \<Longrightarrow> a = b"
  by (cases a; cases b) auto


lemma distinct_remove1_notin: "distinct xs \<Longrightarrow> x \<notin> set (remove1 x xs)"
  by simp

lemma remove1_append_notin [simp]: "x \<notin> set xs \<Longrightarrow> remove1 x (xs @ [x]) = xs"
  by (simp add: remove1_append)

lemma truthy_simps: "(case x of None \<Rightarrow> False | Some s \<Rightarrow> s \<noteq> []) \<longleftrightarrow> (\<exists>s. x = Some s \<and> s \<noteq> [])"
  by (cases x) auto

text \<open>A string or nothing, as JavaScript's conditions read it: the empty string is falsy.\<close>

definition truthy :: "string option \<Rightarrow> bool" where
  "truthy x = (case x of None \<Rightarrow> False | Some s \<Rightarrow> s \<noteq> [])"

lemma truthy_None [simp]: "\<not> truthy None"
  by (simp add: truthy_def)

lemma truthy_Some [simp]: "truthy (Some s) \<longleftrightarrow> s \<noteq> []"
  by (simp add: truthy_def)

section \<open>Results that may be errors\<close>

fun and_then :: "'e + 'a \<Rightarrow> ('a \<Rightarrow> 'e + 'b) \<Rightarrow> 'e + 'b" where
  "and_then (Inl e) f = Inl e"
| "and_then (Inr x) f = f x"

lemma and_then_Inr_iff: "and_then r f = Inr y \<longleftrightarrow> (\<exists>x. r = Inr x \<and> f x = Inr y)"
  by (cases r) simp_all

lemma and_then_Inl_iff: "and_then r f = Inl e \<longleftrightarrow> r = Inl e \<or> (\<exists>x. r = Inr x \<and> f x = Inl e)"
  by (cases r) simp_all

section \<open>Reachable states and invariants\<close>

inductive reach :: "'s \<Rightarrow> ('s \<Rightarrow> 's \<Rightarrow> bool) \<Rightarrow> 's \<Rightarrow> bool" for init step where
  reach_init: "reach init step init"
| reach_step: "reach init step s \<Longrightarrow> step s t \<Longrightarrow> reach init step t"

inductive_cases reachE: "reach init step s"

text \<open>
  The contract between a component and its invariant: it holds at the start and every
  operation keeps it. Components interpret the locale on their own step relation.
\<close>

locale invariant_system =
  fixes init :: "'s"
    and step :: "'s \<Rightarrow> 's \<Rightarrow> bool"
    and inv :: "'s \<Rightarrow> bool"
  assumes inv_start: "inv init"
    and inv_step: "inv s \<Longrightarrow> step s t \<Longrightarrow> inv t"
begin

lemma inv_reach: "reach init step s \<Longrightarrow> inv s"
  by (induction rule: reach.induct) (auto intro: inv_start inv_step)

end

section \<open>Generation counters\<close>

text \<open>
  A counter per key that only ever advances: how often something happened to a resource.
  A client notes the count and learns later whether anything happened between.
\<close>

locale generation_counter =
  fixes current :: "'c \<Rightarrow> 'k \<Rightarrow> nat"
    and advance :: "'k \<Rightarrow> 'c \<Rightarrow> 'c"
  assumes current_advance: "current (advance k c) k = Suc (current c k)"
    and current_advance_other: "k' \<noteq> k \<Longrightarrow> current (advance k c) k' = current c k'"
begin

lemma current_foldl:
  "current (foldl (\<lambda>c k. advance k c) c ks) k = current c k + count_list ks k"
proof (induction ks arbitrary: c)
  case (Cons x ks)
  then show ?case
    by (cases "k = x") (simp_all add: current_advance current_advance_other)
qed simp

lemma current_mono: "current c k \<le> current (foldl (\<lambda>c k. advance k c) c ks) k"
  by (simp add: current_foldl)

lemma unchanged_iff:
  "current (foldl (\<lambda>c k. advance k c) c ks) k = current c k \<longleftrightarrow> k \<notin> set ks"
  by (simp add: current_foldl count_list_0_iff)

end

end
