(* ===== verification/Locks.thy ===== *)
theory Locks
  imports Prelude
begin

text \<open>
  \<open>packages/operations/src/locks.ts\<close>: lane locks, their normal form, and the table of held
  locks. Lock keys are strings, ordered as JavaScript orders strings. A table maps a key to
  what is held under it; its abstraction is the multiset of locks held (\<open>table_of\<close>).
\<close>

section \<open>Locks and their normal form\<close>

datatype lane_mode = Shared | Exclusive

text \<open>Exclusive is the stronger mode.\<close>

instantiation lane_mode :: linorder
begin

definition less_eq_lane_mode :: "lane_mode \<Rightarrow> lane_mode \<Rightarrow> bool" where
  "less_eq_lane_mode a b \<longleftrightarrow> a = Shared \<or> b = Exclusive"

definition less_lane_mode :: "lane_mode \<Rightarrow> lane_mode \<Rightarrow> bool" where
  "less_lane_mode a b \<longleftrightarrow> a = Shared \<and> b = Exclusive"

instance
proof
  fix x y z :: lane_mode
  show "(x < y) = (x \<le> y \<and> \<not> y \<le> x)"
    by (cases x; cases y) (simp_all add: less_eq_lane_mode_def less_lane_mode_def)
  show "x \<le> x"
    by (cases x) (simp_all add: less_eq_lane_mode_def)
  show "x \<le> y \<Longrightarrow> y \<le> z \<Longrightarrow> x \<le> z"
    by (cases x; cases y; cases z) (simp_all add: less_eq_lane_mode_def)
  show "x \<le> y \<Longrightarrow> y \<le> x \<Longrightarrow> x = y"
    by (cases x; cases y) (simp_all add: less_eq_lane_mode_def)
  show "x \<le> y \<or> y \<le> x"
    by (cases x; cases y) (simp_all add: less_eq_lane_mode_def)
qed

end

record lane_lock =
  lkey :: string
  lmode :: lane_mode

definition exclusive :: "string \<Rightarrow> lane_lock" where
  "exclusive k = \<lparr>lkey = k, lmode = Exclusive\<rparr>"

definition shared :: "string \<Rightarrow> lane_lock" where
  "shared k = \<lparr>lkey = k, lmode = Shared\<rparr>"

lemma lock_simps [simp]:
  "lkey (exclusive k) = k" "lmode (exclusive k) = Exclusive"
  "lkey (shared k) = k" "lmode (shared k) = Shared"
  "exclusive k = exclusive k' \<longleftrightarrow> k = k'" "shared k = shared k' \<longleftrightarrow> k = k'"
  "exclusive k \<noteq> shared k'" "shared k \<noteq> exclusive k'"
  by (simp_all add: exclusive_def shared_def)

lemma lane_lock_eq_exclusive: "lmode l = Exclusive \<Longrightarrow> l = exclusive (lkey l)"
  by (cases l) (simp add: exclusive_def)

lemma lane_lock_eq_shared: "lmode l = Shared \<Longrightarrow> l = shared (lkey l)"
  by (cases l) (simp add: shared_def)

lemma lane_lock_cases [case_names Exclusive Shared]:
  "(\<And>k. l = exclusive k \<Longrightarrow> P) \<Longrightarrow> (\<And>k. l = shared k \<Longrightarrow> P) \<Longrightarrow> P"
  by (cases "lmode l") (metis lane_lock_eq_shared, metis lane_lock_eq_exclusive)

text \<open>The loop of \<open>normalizeLocks\<close> over its \<open>Map\<close> of modes, then the sort by key.\<close>

definition normalize_step :: "(string \<times> lane_mode) list \<Rightarrow> lane_lock \<Rightarrow> (string \<times> lane_mode) list" where
  "normalize_step modes l =
     (if map_of modes (lkey l) \<noteq> Some Exclusive then AList.update (lkey l) (lmode l) modes else modes)"

definition normalize_locks :: "lane_lock list \<Rightarrow> lane_lock list" where
  "normalize_locks locks =
     map (\<lambda>(k, m). \<lparr>lkey = k, lmode = m\<rparr>) (sort_key fst (foldl normalize_step [] locks))"

section \<open>The table of held locks\<close>

record held =
  held_exclusive :: bool
  held_shared :: int

type_synonym lock_table = "string \<rightharpoonup> held"

definition conflicts :: "lock_table \<Rightarrow> lane_lock \<Rightarrow> bool" where
  "conflicts T l =
     (case T (lkey l) of
        None \<Rightarrow> False
      | Some h \<Rightarrow> held_exclusive h \<or> (lmode l = Exclusive \<and> held_shared h > 0))"

definition take_lock :: "lock_table \<Rightarrow> lane_lock \<Rightarrow> lock_table" where
  "take_lock T l =
     (let h = (case T (lkey l) of None \<Rightarrow> \<lparr>held_exclusive = False, held_shared = 0\<rparr> | Some h \<Rightarrow> h);
          h' = (if lmode l = Exclusive then h\<lparr>held_exclusive := True\<rparr>
                else h\<lparr>held_shared := held_shared h + 1\<rparr>)
      in T(lkey l \<mapsto> h'))"

definition take_locks :: "lock_table \<Rightarrow> lane_lock list \<Rightarrow> lock_table" where
  "take_locks T locks = foldl take_lock T locks"

definition release_lock :: "lock_table \<Rightarrow> lane_lock \<Rightarrow> lock_table" where
  "release_lock T l =
     (case T (lkey l) of
        None \<Rightarrow> T
      | Some h \<Rightarrow>
          let h' = (if lmode l = Exclusive then h\<lparr>held_exclusive := False\<rparr>
                    else h\<lparr>held_shared := held_shared h - 1\<rparr>)
          in if \<not> held_exclusive h' \<and> held_shared h' = 0 then T(lkey l := None)
             else T(lkey l \<mapsto> h'))"

definition release_locks :: "lock_table \<Rightarrow> lane_lock list \<Rightarrow> lock_table" where
  "release_locks T locks = foldl release_lock T locks"


section \<open>When two locks clash\<close>

text \<open>
  What the table implements: two locks clash when they name the same key and one of them is
  exclusive. The table stands for the multiset of locks held; \<open>table_of\<close> is that relation
  as a function, and \<open>take_locks\<close>, \<open>release_locks\<close>, \<open>conflicts\<close> follow it.
\<close>

definition clash :: "lane_lock \<Rightarrow> lane_lock \<Rightarrow> bool" where
  "clash a b \<longleftrightarrow> lkey a = lkey b \<and> (lmode a = Exclusive \<or> lmode b = Exclusive)"

definition clashes :: "lane_lock list \<Rightarrow> lane_lock list \<Rightarrow> bool" where
  "clashes xs ys \<longleftrightarrow> (\<exists>a\<in>set xs. \<exists>b\<in>set ys. clash a b)"

definition table_of :: "lane_lock multiset \<Rightarrow> lock_table" where
  "table_of L = (\<lambda>k. if exclusive k \<in># L \<or> shared k \<in># L
      then Some \<lparr>held_exclusive = (exclusive k \<in># L), held_shared = int (count L (shared k))\<rparr>
      else None)"

lemma clash_sym: "clash a b = clash b a"
  by (auto simp: clash_def)

lemma clashes_sym: "clashes xs ys = clashes ys xs"
  unfolding clashes_def using clash_sym by blast

lemma clash_simps [simp]:
  "clash (exclusive k) (exclusive k') \<longleftrightarrow> k = k'"
  "clash (exclusive k) (shared k') \<longleftrightarrow> k = k'"
  "clash (shared k) (exclusive k') \<longleftrightarrow> k = k'"
  "\<not> clash (shared k) (shared k')"
  by (simp_all add: clash_def)

lemma clashes_Nil [simp]: "\<not> clashes [] ys" "\<not> clashes xs []"
  by (simp_all add: clashes_def)

lemma clashes_Cons [simp]: "clashes (x # xs) ys \<longleftrightarrow> (\<exists>b\<in>set ys. clash x b) \<or> clashes xs ys"
  by (auto simp: clashes_def)

lemma clashes_append [simp]:
  "clashes (xs @ xs') ys \<longleftrightarrow> clashes xs ys \<or> clashes xs' ys"
  by (auto simp: clashes_def)

lemma table_of_empty [simp]: "table_of {#} = Map.empty"
  by (simp add: table_of_def)

lemma conflicts_table_of:
  "conflicts (table_of L) l \<longleftrightarrow> (\<exists>l'\<in>#L. clash l l')"
proof (cases l rule: lane_lock_cases)
  case (Exclusive k)
  have "(\<exists>l'\<in>#L. clash l l') \<longleftrightarrow> exclusive k \<in># L \<or> shared k \<in># L"
    unfolding Exclusive by (metis clash_simps(1,2) lane_lock_cases)
  then show ?thesis
    by (auto simp: conflicts_def table_of_def Exclusive)
next
  case (Shared k)
  have "(\<exists>l'\<in>#L. clash l l') \<longleftrightarrow> exclusive k \<in># L"
    unfolding Shared by (metis clash_simps(3,4) lane_lock_cases)
  then show ?thesis
    by (auto simp: conflicts_def table_of_def Shared)
qed

lemma conflicts_empty [simp]: "\<not> conflicts Map.empty l"
  by (simp add: conflicts_def)

lemma take_lock_table_of: "take_lock (table_of L) l = table_of (add_mset l L)"
proof (cases l rule: lane_lock_cases)
  case (Exclusive k)
  show ?thesis
    by (rule ext) (auto simp: take_lock_def table_of_def Exclusive Let_def not_in_iff)
next
  case (Shared k)
  show ?thesis
    by (rule ext) (auto simp: take_lock_def table_of_def Shared Let_def not_in_iff)
qed

lemma take_locks_table_of: "take_locks (table_of L) ls = table_of (L + mset ls)"
  by (induction ls arbitrary: L) (simp_all add: take_locks_def take_lock_table_of)

lemma take_locks_simps [lane_simps]:
  "take_locks T [] = T" "take_locks T (l # ls) = take_locks (take_lock T l) ls"
  by (simp_all add: take_locks_def)

text \<open>
  Releasing a lock undoes taking it, where an exclusive lock is held once: the flag says
  only whether one is held.
\<close>

lemma release_lock_table_of:
  assumes "lmode l = Exclusive \<Longrightarrow> l \<notin># L"
  shows "release_lock (table_of (add_mset l L)) l = table_of L"
proof (cases l rule: lane_lock_cases)
  case (Exclusive k)
  with assms have "exclusive k \<notin># L" by simp
  then show ?thesis
    by (intro ext) (auto simp: release_lock_def table_of_def Exclusive Let_def not_in_iff)
next
  case (Shared k)
  show ?thesis
    by (rule ext) (auto simp: release_lock_def table_of_def Shared Let_def not_in_iff)
qed

text \<open>Locks held together: no two of them clash, so an exclusive lock is held alone.\<close>

definition compatible :: "lane_lock multiset \<Rightarrow> bool" where
  "compatible L \<longleftrightarrow> (\<forall>l\<in>#L. \<forall>l'\<in>#L - {#l#}. \<not> clash l l')"

lemma compatible_empty [simp]: "compatible {#}"
  by (simp add: compatible_def)

lemma compatible_add:
  "compatible (add_mset l L) \<longleftrightarrow> compatible L \<and> (\<forall>l'\<in>#L. \<not> clash l l')"
proof
  assume c: "compatible (add_mset l L)"
  have "\<not> clash a b" if "a \<in># L" and "b \<in># L - {#a#}" for a b
  proof -
    have "b \<in># add_mset l L - {#a#}"
      using that by (cases "a = l") (auto dest: in_diffD)
    with c that show ?thesis by (auto simp: compatible_def)
  qed
  with c show "compatible L \<and> (\<forall>l'\<in>#L. \<not> clash l l')"
    by (auto simp: compatible_def)
next
  assume c: "compatible L \<and> (\<forall>l'\<in>#L. \<not> clash l l')"
  have "\<not> clash a b" if "a \<in># add_mset l L" and "b \<in># add_mset l L - {#a#}" for a b
  proof (cases "a = l")
    case True
    with that c show ?thesis by auto
  next
    case False
    with that have a: "a \<in># L" and b: "b \<in># add_mset l (L - {#a#})"
      by auto
    show ?thesis
    proof (cases "b = l")
      case True
      with a c show ?thesis by (metis clash_sym)
    next
      case False
      with a b c show ?thesis by (auto simp: compatible_def)
    qed
  qed
  then show "compatible (add_mset l L)" by (auto simp: compatible_def)
qed

lemma compatible_add_mset_list:
  "compatible (L + mset ls) \<longleftrightarrow>
     compatible L \<and> compatible (mset ls) \<and> (\<forall>a\<in>set ls. \<forall>b\<in>#L. \<not> clash a b)"
proof (induction ls)
  case (Cons l ls)
  then show ?case
    by (auto simp: compatible_add)
qed simp

lemma compatible_subset: "compatible (L + M) \<Longrightarrow> compatible L"
  by (induction M) (simp_all add: compatible_add)

lemma compatible_exclusive: "compatible (add_mset l L) \<Longrightarrow> lmode l = Exclusive \<Longrightarrow> l \<notin># L"
  by (auto simp: compatible_add clash_def)

lemma release_locks_table_of:
  "compatible (L + mset ls) \<Longrightarrow> release_locks (table_of (L + mset ls)) ls = table_of L"
proof (induction ls)
  case (Cons l ls)
  then have c: "compatible (add_mset l (L + mset ls))" by simp
  have "release_lock (table_of (add_mset l (L + mset ls))) l = table_of (L + mset ls)"
    by (rule release_lock_table_of) (use compatible_exclusive [OF c] in auto)
  with Cons.IH c show ?case
    by (simp add: release_locks_def compatible_add)
qed (simp add: release_locks_def)

lemma conflicts_mono: "L \<subseteq># M \<Longrightarrow> conflicts (table_of L) l \<Longrightarrow> conflicts (table_of M) l"
  by (auto simp: conflicts_table_of dest: mset_subset_eqD)

section \<open>The normal form\<close>

text \<open>One lock per key at the strongest mode asked for: exclusive wins.\<close>

definition strongest :: "lane_lock list \<Rightarrow> string \<Rightarrow> lane_mode option" where
  "strongest ls k =
     (if exclusive k \<in> set ls then Some Exclusive
      else if shared k \<in> set ls then Some Shared else None)"

lemma map_of_normalize_step1:
  "map_of (normalize_step m l) k =
     (if lkey l = k \<and> map_of m k \<noteq> Some Exclusive then Some (lmode l) else map_of m k)"
  by (auto simp: normalize_step_def)

lemma strongest_Cons:
  "strongest (l # ls) k =
     (if lkey l = k then
        (if lmode l = Exclusive then Some Exclusive
         else Some (case strongest ls k of None \<Rightarrow> Shared | Some m \<Rightarrow> m))
      else strongest ls k)"
  by (cases l rule: lane_lock_cases) (auto simp: strongest_def)

lemma strongest_cases: "strongest ls k \<in> {None, Some Shared, Some Exclusive}"
  by (simp add: strongest_def)

lemma map_of_normalize_step:
  "map_of (foldl normalize_step m ls) k =
     (if map_of m k = Some Exclusive then Some Exclusive
      else case strongest ls k of None \<Rightarrow> map_of m k | Some x \<Rightarrow> Some x)"
proof (induction ls arbitrary: m)
  case (Cons l ls)
  show ?case
    using strongest_cases [of ls k]
    by (cases l rule: lane_lock_cases)
      (auto simp: Cons.IH map_of_normalize_step1 strongest_Cons)
qed (simp add: strongest_def)

lemma distinct_normalize_step:
  "distinct (map fst m) \<Longrightarrow> distinct (map fst (foldl normalize_step m ls))"
  by (induction ls arbitrary: m) (auto simp: normalize_step_def distinct_update)

lemma set_normalize_locks:
  "set (normalize_locks ls) = {l. strongest ls (lkey l) = Some (lmode l)}"
proof -
  let ?m = "foldl normalize_step [] ls"
  have d: "distinct (map fst ?m)" by (rule distinct_normalize_step) simp
  have m: "map_of ?m k = strongest ls k" for k
    by (auto simp: map_of_normalize_step split: option.splits)
  have "l \<in> set (normalize_locks ls) \<longleftrightarrow> (lkey l, lmode l) \<in> set ?m" for l
    by (cases l) (auto simp: normalize_locks_def image_iff Bex_def)
  then show ?thesis
    using d by (auto simp flip: m)
qed

lemma keys_normalize_locks:
  "map lkey (normalize_locks ls) = sort (map fst (foldl normalize_step [] ls))"
proof -
  have "map lkey (normalize_locks ls) = map fst (sort_key fst (foldl normalize_step [] ls))"
    by (simp add: normalize_locks_def o_def case_prod_beta)
  also have "\<dots> = sort (map fst (foldl normalize_step [] ls))"
    by (rule properties_for_sort [symmetric]) (simp_all only: mset_map mset_sort sorted_sort_key)
  finally show ?thesis .
qed

lemma sorted_keys_normalize_locks: "sorted (map lkey (normalize_locks ls))"
  by (simp add: keys_normalize_locks)

lemma distinct_keys_normalize_locks: "distinct (map lkey (normalize_locks ls))"
  using distinct_normalize_step [of "[]" ls] by (simp add: keys_normalize_locks)

lemma compatible_distinct_keys: "distinct (map lkey ls) \<Longrightarrow> compatible (mset ls)"
  by (induction ls) (auto simp: compatible_add clash_def)

lemma compatible_normalize_locks: "compatible (mset (normalize_locks ls))"
  by (rule compatible_distinct_keys) (rule distinct_keys_normalize_locks)

lemma strongest_ge:
  assumes "l \<in> set ls"
  shows "\<exists>m. strongest ls (lkey l) = Some m \<and> lmode l \<le> m"
proof (cases l rule: lane_lock_cases)
  case (Exclusive k)
  with assms show ?thesis by (simp add: strongest_def less_eq_lane_mode_def)
next
  case (Shared k)
  with assms show ?thesis by (simp add: strongest_def less_eq_lane_mode_def)
qed

lemma clashes_normalize_locks: "clashes (normalize_locks xs) ys \<longleftrightarrow> clashes xs ys"
proof -
  have 1: "\<exists>b\<in>set ys. clash l b \<Longrightarrow> clashes (normalize_locks xs) ys" if l: "l \<in> set xs" for l
  proof -
    assume "\<exists>b\<in>set ys. clash l b"
    moreover obtain m where "strongest xs (lkey l) = Some m" "lmode l \<le> m"
      using strongest_ge [OF l] by blast
    ultimately show ?thesis
      by (auto simp: clashes_def set_normalize_locks clash_def less_eq_lane_mode_def
          intro!: exI [of _ "\<lparr>lkey = lkey l, lmode = m\<rparr>"])
  qed
  have 2: "l \<in> set (normalize_locks xs) \<Longrightarrow> l \<in> set xs" for l
    by (cases l rule: lane_lock_cases)
      (auto simp: set_normalize_locks strongest_def split: if_splits)
  show ?thesis
    using 1 2 by (auto simp: clashes_def)
qed

end
