(* ===== verification/Grants.thy ===== *)
theory Grants
  imports Locks
begin

text \<open>
  \<open>packages/operations/src/grants.ts\<close>: the lane rule. \<open>select_grants\<close> walks the line in
  admission order; a waiter whose locks are free is admitted or turned away, one whose locks
  are not free speaks for them ahead of everyone behind it, and one whose locks are not known
  yet stops the walk. The callbacks \<open>admit\<close> and \<open>locksOf\<close> are arguments, as in the code;
  the tables the code mutates are returned.
\<close>

section \<open>The lane rule\<close>

record 'w grant_selection =
  gs_granted :: "'w list"
  gs_dropped :: "'w list"

fun select_grants ::
  "('w \<Rightarrow> bool) \<Rightarrow> ('w \<Rightarrow> lane_lock list option) \<Rightarrow> lock_table \<Rightarrow> lock_table \<Rightarrow> 'w list \<Rightarrow>
   'w grant_selection \<times> lock_table" where
  "select_grants admit locks_of held blocked [] = (\<lparr>gs_granted = [], gs_dropped = []\<rparr>, held)"
| "select_grants admit locks_of held blocked (w # ws) =
     (case locks_of w of
        None \<Rightarrow> (\<lparr>gs_granted = [], gs_dropped = []\<rparr>, held)
      | Some locks \<Rightarrow>
          if \<not> (\<forall>l\<in>set locks. \<not> conflicts held l \<and> \<not> conflicts blocked l)
          then select_grants admit locks_of held (take_locks blocked locks) ws
          else if \<not> admit w
          then (case select_grants admit locks_of held blocked ws of
                  (r, held') \<Rightarrow> (r\<lparr>gs_dropped := w # gs_dropped r\<rparr>, held'))
          else (case select_grants admit locks_of (take_locks held locks) blocked ws of
                  (r, held') \<Rightarrow> (r\<lparr>gs_granted := w # gs_granted r\<rparr>, held')))"

section \<open>Explaining a wait\<close>

record 'i lane_occupant =
  oc_id :: 'i
  oc_locks :: "lane_lock list"

record 'i wait_reason =
  wr_id :: 'i
  wr_key :: string
  wr_holds :: bool

definition collect_reasons :: "lane_lock list \<Rightarrow> 'i lane_occupant list \<Rightarrow> bool \<Rightarrow> 'i wait_reason list" where
  "collect_reasons locks occupants holds =
     concat (map (\<lambda>oc.
       let table = take_locks Map.empty (oc_locks oc)
       in map (\<lambda>l. \<lparr>wr_id = oc_id oc, wr_key = lkey l, wr_holds = holds\<rparr>)
            (filter (conflicts table) locks)) occupants)"

definition explain_wait ::
  "lane_lock list \<Rightarrow> 'i lane_occupant list \<Rightarrow> 'i lane_occupant list \<Rightarrow> 'i wait_reason list" where
  "explain_wait locks holders ahead = collect_reasons locks holders True @ collect_reasons locks ahead False"

lemma conflicts_take_empty:
  "conflicts (take_locks Map.empty ls) l \<longleftrightarrow> (\<exists>l'\<in>set ls. clash l l')"
  using conflicts_table_of [of "mset ls" l] take_locks_table_of [of "{#}" ls] by simp

lemma set_collect_reasons:
  "set (collect_reasons locks ocs h) =
     {\<lparr>wr_id = oc_id oc, wr_key = lkey l, wr_holds = h\<rparr> | oc l.
        oc \<in> set ocs \<and> l \<in> set locks \<and> (\<exists>l'\<in>set (oc_locks oc). clash l l')}"
  by (fastforce simp: collect_reasons_def Let_def conflicts_take_empty)

lemma explain_wait_Nil_iff:
  "explain_wait locks holders ahead = [] \<longleftrightarrow>
     (\<forall>oc\<in>set holders \<union> set ahead. \<not> clashes locks (oc_locks oc))"
proof -
  have "explain_wait locks holders ahead = [] \<longleftrightarrow> set (explain_wait locks holders ahead) = {}"
    by simp
  also have "\<dots> \<longleftrightarrow> (\<forall>oc\<in>set holders \<union> set ahead. \<not> clashes locks (oc_locks oc))"
    by (auto simp: explain_wait_def set_collect_reasons clashes_def)
  finally show ?thesis .
qed

section \<open>The rule as a specification\<close>

text \<open>
  The lane rule over multisets of locks: \<open>H\<close> are held, \<open>B\<close> are spoken for ahead in line.
  It says who starts and who is turned away by pairwise clashes alone, with no table.
\<close>

definition free_of :: "lane_lock multiset \<Rightarrow> lane_lock list \<Rightarrow> bool" where
  "free_of M ls \<longleftrightarrow> (\<forall>l\<in>set ls. \<forall>l'\<in>#M. \<not> clash l l')"

fun rule_granted ::
  "('w \<Rightarrow> bool) \<Rightarrow> ('w \<Rightarrow> lane_lock list option) \<Rightarrow> lane_lock multiset \<Rightarrow> lane_lock multiset \<Rightarrow> 'w list \<Rightarrow> 'w list"
where
  "rule_granted a f H B [] = []"
| "rule_granted a f H B (w # ws) =
     (case f w of None \<Rightarrow> []
      | Some ls \<Rightarrow>
          if \<not> free_of (H + B) ls then rule_granted a f H (B + mset ls) ws
          else if \<not> a w then rule_granted a f H B ws
          else w # rule_granted a f (H + mset ls) B ws)"

fun rule_dropped ::
  "('w \<Rightarrow> bool) \<Rightarrow> ('w \<Rightarrow> lane_lock list option) \<Rightarrow> lane_lock multiset \<Rightarrow> lane_lock multiset \<Rightarrow> 'w list \<Rightarrow> 'w list"
where
  "rule_dropped a f H B [] = []"
| "rule_dropped a f H B (w # ws) =
     (case f w of None \<Rightarrow> []
      | Some ls \<Rightarrow>
          if \<not> free_of (H + B) ls then rule_dropped a f H (B + mset ls) ws
          else if \<not> a w then w # rule_dropped a f H B ws
          else rule_dropped a f (H + mset ls) B ws)"

definition locks_sum :: "('w \<Rightarrow> lane_lock list option) \<Rightarrow> 'w list \<Rightarrow> lane_lock multiset" where
  "locks_sum f ws = (\<Sum>w\<leftarrow>ws. mset (case f w of None \<Rightarrow> [] | Some ls \<Rightarrow> ls))"

lemma locks_sum_simps [simp]:
  "locks_sum f [] = {#}"
  "locks_sum f (w # ws) = mset (case f w of None \<Rightarrow> [] | Some ls \<Rightarrow> ls) + locks_sum f ws"
  "locks_sum f (ws @ vs) = locks_sum f ws + locks_sum f vs"
  by (simp_all add: locks_sum_def)

lemma in_locks_sum: "l \<in># locks_sum f ws \<longleftrightarrow> (\<exists>w\<in>set ws. \<exists>ls. f w = Some ls \<and> l \<in> set ls)"
  by (induction ws) (auto split: option.splits)

lemma locks_sum_cong: "(\<And>w. w \<in> set ws \<Longrightarrow> f w = g w) \<Longrightarrow> locks_sum f ws = locks_sum g ws"
  by (induction ws) auto

lemma free_conflicts:
  "(\<forall>l\<in>set ls. \<not> conflicts (table_of H) l \<and> \<not> conflicts (table_of B) l) \<longleftrightarrow> free_of (H + B) ls"
  by (auto simp: conflicts_table_of free_of_def)

lemma not_free_conflicts:
  "(\<exists>l\<in>set ls. conflicts (table_of H) l) \<longleftrightarrow> \<not> free_of H ls"
  by (auto simp: conflicts_table_of free_of_def)

lemma free_of_mono: "free_of M ls \<Longrightarrow> M' \<subseteq># M \<Longrightarrow> free_of M' ls"
  by (auto simp: free_of_def dest: mset_subset_eqD)

lemma free_of_empty [simp]: "free_of {#} ls"
  by (simp add: free_of_def)

lemma compatible_free: "compatible (H + mset ls) \<longleftrightarrow> compatible H \<and> compatible (mset ls) \<and> free_of H ls"
  by (simp add: compatible_add_mset_list free_of_def)

text \<open>The code's walk over tables is the rule.\<close>

lemma select_grants_rule:
  "select_grants a f (table_of H) (table_of B) ws =
     (\<lparr>gs_granted = rule_granted a f H B ws, gs_dropped = rule_dropped a f H B ws\<rparr>,
      table_of (H + locks_sum f (rule_granted a f H B ws)))"
  by (induction ws arbitrary: H B)
    (simp_all only: select_grants.simps rule_granted.simps rule_dropped.simps free_conflicts
      take_locks_table_of split: option.split, simp_all add: add.assoc)

section \<open>What the rule selects\<close>

lemma rule_granted_subset: "set (rule_granted a f H B ws) \<subseteq> set ws"
  by (induction ws arbitrary: H B) (auto split: option.splits)

lemma rule_dropped_subset: "set (rule_dropped a f H B ws) \<subseteq> set ws"
  by (induction ws arbitrary: H B) (auto split: option.splits)

lemma rule_granted_admitted: "w \<in> set (rule_granted a f H B ws) \<Longrightarrow> a w"
  by (induction ws arbitrary: H B) (auto split: option.splits if_splits)

lemma rule_known:
  "w \<in> set (rule_granted a f H B ws) \<union> set (rule_dropped a f H B ws) \<Longrightarrow> \<exists>ls. f w = Some ls"
proof (induction ws arbitrary: H B)
  case (Cons v ws)
  then show ?case by (cases "f v") (auto split: if_splits)
qed simp

lemma rule_dropped_refused: "w \<in> set (rule_dropped a f H B ws) \<Longrightarrow> \<not> a w"
  by (induction ws arbitrary: H B) (auto split: option.splits if_splits)

lemma rule_disjoint: "w \<in> set (rule_granted a f H B ws) \<Longrightarrow> w \<notin> set (rule_dropped a f H B ws)"
  by (meson rule_granted_admitted rule_dropped_refused)

lemma rule_distinct:
  "distinct ws \<Longrightarrow> distinct (rule_granted a f H B ws) \<and> distinct (rule_dropped a f H B ws)"
  using rule_granted_subset rule_dropped_subset
  by (induction ws arbitrary: H B) (fastforce split: option.split)+

text \<open>What is granted clashes with nothing held or spoken for, nor with each other.\<close>

lemma rule_granted_free:
  "w \<in> set (rule_granted a f H B ws) \<Longrightarrow> f w = Some ls \<Longrightarrow> free_of (H + B) ls"
proof (induction ws arbitrary: H B)
  case (Cons v ws)
  then obtain vs where v: "f v = Some vs"
    by (cases "f v") auto
  have mono: "free_of (H + B + mset vs) ls \<Longrightarrow> free_of (H + B) ls"
    by (erule free_of_mono) simp
  show ?case
    using Cons.prems Cons.IH [of H "B + mset vs"] Cons.IH [of H B] Cons.IH [of "H + mset vs" B] v mono
    by (auto simp: add.assoc add.commute add.left_commute split: if_splits)
qed simp

lemma rule_granted_compatible:
  "compatible H \<Longrightarrow> (\<And>w ls. w \<in> set ws \<Longrightarrow> f w = Some ls \<Longrightarrow> compatible (mset ls)) \<Longrightarrow>
   compatible (H + locks_sum f (rule_granted a f H B ws))"
proof (induction ws arbitrary: H B)
  case (Cons w ws)
  show ?case
  proof (cases "f w")
    case (Some ls)
    have free: "free_of (H + B) ls \<Longrightarrow> compatible (H + mset ls)"
      using Cons.prems Some by (auto simp: compatible_free elim: free_of_mono)
    have IH: "compatible H' \<Longrightarrow> compatible (H' + locks_sum f (rule_granted a f H' B' ws))" for H' B'
      by (rule Cons.IH) (use Cons.prems(2) in auto)
    show ?thesis
      using Cons.prems(1) free IH [of H] IH [of "H + mset ls" B] Some by (auto simp: add.assoc)
  qed (use Cons.prems in simp)
qed simp

section \<open>Who stays in line\<close>

text \<open>
  The line is settled when each waiter in it waits for a reason: its locks clash with
  something held or with something spoken for ahead of it, up to one still being looked up.
\<close>

fun line_blocked ::
  "('w \<Rightarrow> lane_lock list option) \<Rightarrow> lane_lock multiset \<Rightarrow> lane_lock multiset \<Rightarrow> 'w list \<Rightarrow> bool" where
  "line_blocked f H B [] = True"
| "line_blocked f H B (w # ws) =
     (case f w of None \<Rightarrow> True
      | Some ls \<Rightarrow> \<not> free_of (H + B) ls \<and> line_blocked f H (B + mset ls) ws)"

lemma line_blocked_mono:
  "line_blocked f H B ws \<Longrightarrow> H \<subseteq># H' \<Longrightarrow> B \<subseteq># B' \<Longrightarrow> line_blocked f H' B' ws"
proof (induction ws arbitrary: B B')
  case (Cons w ws)
  show ?case
  proof (cases "f w")
    case (Some ls)
    have "H + B \<subseteq># H' + B'" and "B + mset ls \<subseteq># B' + mset ls"
      using Cons.prems by (simp_all add: subset_mset.add_mono)
    then show ?thesis
      using Cons Some by (auto dest: free_of_mono)
  qed simp
qed simp

lemma line_blocked_prefix: "line_blocked f H B (ws @ vs) \<Longrightarrow> line_blocked f H B ws"
  by (induction ws arbitrary: B) (auto split: option.splits)

lemma line_blocked_cong:
  "(\<And>w. w \<in> set ws \<Longrightarrow> f w = g w) \<Longrightarrow> line_blocked f H B ws = line_blocked g H B ws"
  by (induction ws arbitrary: B) (auto split: option.splits)

lemma line_blocked_none:
  "line_blocked f H B ws \<Longrightarrow> rule_granted a f H B ws = [] \<and> rule_dropped a f H B ws = []"
  by (induction ws arbitrary: B) (auto split: option.splits)

lemma line_blocked_after:
  "distinct ws \<Longrightarrow>
   line_blocked f (H + locks_sum f (rule_granted a f H B ws)) B
     (filter (\<lambda>w. w \<notin> set (rule_granted a f H B ws) \<and> w \<notin> set (rule_dropped a f H B ws)) ws)"
proof (induction ws arbitrary: H B)
  case (Cons w ws)
  have fresh: "w \<notin> set (rule_granted a f H B ws)" "w \<notin> set (rule_dropped a f H B ws)" for H B
    using Cons.prems rule_granted_subset rule_dropped_subset by fastforce+
  have other: "filter (\<lambda>v. v \<noteq> w \<and> P v) ws = filter P ws" for P
    using Cons.prems by (intro filter_cong) auto
  have other': "filter (\<lambda>v. P v \<and> v \<noteq> w \<and> Q v) ws = filter (\<lambda>v. P v \<and> Q v) ws" for P Q
    using Cons.prems by (intro filter_cong) auto
  show ?case
  proof (cases "f w")
    case (Some ls)
    have "\<not> free_of (H + B) ls \<Longrightarrow> \<not> free_of (H + locks_sum f gs + B) ls" for gs
      by (erule contrapos_nn, erule free_of_mono) simp
    note busy = this
    have IH: "line_blocked f (H' + locks_sum f (rule_granted a f H' B' ws)) B'
     (filter (\<lambda>w. w \<notin> set (rule_granted a f H' B' ws) \<and> w \<notin> set (rule_dropped a f H' B' ws)) ws)" for H' B'
      using Cons by simp
    show ?thesis
      using IH [of H "B + mset ls"] IH [of H B] IH [of "H + mset ls" B] busy
      by (cases "free_of (H + B) ls"; cases "a w")
        (simp_all add: Some fresh other other' add.assoc)
  qed simp
qed simp

text \<open>Why a waiter of a blocked line still waits, by its place in line.\<close>

lemma line_blocked_nth:
  "line_blocked f H B ws \<Longrightarrow> i < length ws \<Longrightarrow> f (ws ! i) = Some ls \<Longrightarrow>
   (\<exists>j<i. f (ws ! j) = None) \<or> \<not> free_of (H + B + locks_sum f (take i ws)) ls"
proof (induction ws arbitrary: B i)
  case (Cons w ws)
  show ?case
  proof (cases i)
    case 0
    with Cons.prems show ?thesis by simp
  next
    case (Suc i')
    show ?thesis
    proof (cases "f w")
      case None
      then show ?thesis using Suc by auto
    next
      case (Some us)
      then have "(\<exists>j<i'. f (ws ! j) = None) \<or> \<not> free_of (H + (B + mset us) + locks_sum f (take i' ws)) ls"
        using Cons.prems Suc by (intro Cons.IH) auto
      then show ?thesis
        using Some Suc by (auto simp: ac_simps)
    qed
  qed
qed simp

text \<open>Nothing behind a waiter that stays in line starts where the two clash.\<close>

lemma rule_no_overtaking:
  assumes "w \<in> set (rule_granted a f H B (us @ v # vs))" "w \<in> set vs" "distinct (us @ v # vs)"
    and "v \<notin> set (rule_granted a f H B (us @ v # vs))" "v \<notin> set (rule_dropped a f H B (us @ v # vs))"
  shows "\<exists>lv lw. f v = Some lv \<and> f w = Some lw \<and> \<not> clashes lv lw"
  using assms
proof (induction us arbitrary: H B)
  case Nil
  then obtain lv where lv: "f v = Some lv" by (cases "f v") auto
  with Nil have w: "w \<in> set (rule_granted a f H (B + mset lv) vs)"
    by (auto split: if_splits)
  then obtain lw where "f w = Some lw" using rule_known by fast
  with rule_granted_free [OF w this] lv show ?case
    by (auto simp: free_of_def clashes_def dest: clash_sym [THEN iffD1])
next
  case (Cons u us)
  then obtain lu where "f u = Some lu" by (cases "f u") auto
  with Cons show ?case by (auto split: if_splits)
qed

end
