(* ===== verification/Lanes.thy ===== *)
theory Lanes
  imports Grants
begin

text \<open>
  \<open>packages/operations/src/lanes.ts\<close>: the in-memory scheduler of operations. Waiters are
  JavaScript objects shared by the queues, the active set and the tickets, so they live in a
  store, by number; queues and the active set hold their numbers, in insertion order. A
  method of \<open>OperationLanes\<close> runs to its end without interleaving, so each is a function of
  the state. What happens in between (a caller's fiber resuming, a lookup settling, a run
  ending) is a step of its own. The callbacks \<open>precondition\<close> and \<open>refuse\<close> read state
  outside the lanes, so their answers at the time of a step are an argument of the step
  (\<open>lane_env\<close>).
\<close>

section \<open>Data\<close>

datatype reject_reason = RBusy | RCancelled | RPaused | RRefused | RSuperseded

record lane_rejected_error =
  le_reason :: reject_reason
  le_message :: string
  le_blocked_by :: "string list option"

text \<open>The \<open>granted\<close> deferred: settled once, then fixed.\<close>

datatype deferred = Pending | Resolved | Rejected lane_rejected_error | Died string

definition deferred_done :: "deferred \<Rightarrow> deferred \<Rightarrow> deferred" where
  "deferred_done d result = (if d = Pending then result else d)"

datatype waiter_state = SDone | SGranted | SRunning | SWaiting

datatype when_busy = Refuse | Wait

record 'p lane_admission =
  ad_label :: string
  ad_locks :: "lane_lock list option" \<comment> \<open>\<open>None\<close>: a promise of them\<close>
  ad_precondition :: "'p option"
  ad_continuation :: bool
  ad_when_busy :: "(string wait_reason list \<Rightarrow> when_busy) option"
  ad_carries_on :: bool

record 'p waiter =
  w_label :: string
  w_nested :: bool
  w_continuation :: bool
  w_carries_on :: bool
  w_locks :: "lane_lock list option"
  w_precondition :: "'p option"
  w_granted :: deferred
  w_refusal :: "lane_rejected_error option"
  w_refused :: "string option"
  w_state :: waiter_state

record lanes_options =
  opt_max_waiting :: "nat option"
  opt_busy :: "string option"
  opt_paused :: "(string \<Rightarrow> string) option"

record 'p lanes =
  l_max_waiting :: nat
  l_busy_message :: string
  l_paused_message :: "string \<Rightarrow> string"
  l_objs :: "nat \<Rightarrow> 'p waiter"
  l_next :: nat
  l_waiting :: "nat list"
  l_nested :: "nat list"
  l_active :: "nat list"
  l_starts :: "string \<rightharpoonup> nat"
  l_paused :: bool
  l_held :: lock_table

record 'p lane_env =
  env_refuse :: "string \<Rightarrow> lane_lock list \<Rightarrow> string option"
  env_holds :: "'p \<Rightarrow> bool"

definition DEFAULT_MAX_WAITING :: nat where
  "DEFAULT_MAX_WAITING = 512"

definition no_waiter :: "'p waiter" where
  "no_waiter = \<lparr>w_label = [], w_nested = False, w_continuation = False, w_carries_on = False,
     w_locks = None, w_precondition = None, w_granted = Pending, w_refusal = None,
     w_refused = None, w_state = SDone\<rparr>"

definition new_lanes :: "lanes_options \<Rightarrow> 'p lanes" where
  "new_lanes opts =
     \<lparr>l_max_waiting = (case opt_max_waiting opts of None \<Rightarrow> DEFAULT_MAX_WAITING | Some n \<Rightarrow> n),
      l_busy_message = (case opt_busy opts of
         None \<Rightarrow> ''Too many operations are waiting; try again shortly'' | Some m \<Rightarrow> m),
      l_paused_message = (case opt_paused opts of
         None \<Rightarrow> (\<lambda>label. label @ '' didn't run: operations are paused'') | Some f \<Rightarrow> f),
      l_objs = (\<lambda>_. no_waiter), l_next = 0, l_waiting = [], l_nested = [], l_active = [],
      l_starts = Map.empty, l_paused = False, l_held = Map.empty\<rparr>"

section \<open>Small steps on the state\<close>

definition upd_waiter :: "nat \<Rightarrow> ('p waiter \<Rightarrow> 'p waiter) \<Rightarrow> 'p lanes \<Rightarrow> 'p lanes" where
  "upd_waiter w f s = s\<lparr>l_objs := (l_objs s)(w := f (l_objs s w))\<rparr>"

definition locks_or_none :: "'p waiter \<Rightarrow> lane_lock list" where
  "locks_or_none x = (case w_locks x of None \<Rightarrow> [] | Some locks \<Rightarrow> locks)"

definition lane_error :: "reject_reason \<Rightarrow> string \<Rightarrow> lane_rejected_error" where
  "lane_error r m = \<lparr>le_reason = r, le_message = m, le_blocked_by = None\<rparr>"

definition paused_error :: "'p lanes \<Rightarrow> 'p waiter \<Rightarrow> lane_rejected_error" where
  "paused_error s x = lane_error RPaused (l_paused_message s (w_label x))"

definition superseded_error :: "'p waiter \<Rightarrow> lane_rejected_error" where
  "superseded_error x = lane_error RSuperseded (w_label x @ '' no longer applies'')"

definition lanes_reject :: "nat \<Rightarrow> lane_rejected_error \<Rightarrow> 'p lanes \<Rightarrow> 'p lanes" where
  "lanes_reject w e = upd_waiter w (\<lambda>x. x\<lparr>w_state := SDone,
     w_granted := deferred_done (w_granted x) (Rejected e)\<rparr>)"

definition lanes_remove :: "nat \<Rightarrow> 'p lanes \<Rightarrow> 'p lanes" where
  "lanes_remove w s =
     (if w_nested (l_objs s w) then s\<lparr>l_nested := remove1 w (l_nested s)\<rparr>
      else s\<lparr>l_waiting := remove1 w (l_waiting s)\<rparr>)"

definition lanes_start :: "nat \<Rightarrow> 'p lanes \<Rightarrow> 'p lanes" where
  "lanes_start w s =
     upd_waiter w (\<lambda>x. x\<lparr>w_state := SGranted, w_granted := deferred_done (w_granted x) Resolved\<rparr>)
       (s\<lparr>l_active := set_add w (l_active s)\<rparr>)"

definition precondition_holds :: "'p lane_env \<Rightarrow> 'p waiter \<Rightarrow> bool" where
  "precondition_holds env x = (case w_precondition x of None \<Rightarrow> True | Some p \<Rightarrow> env_holds env p)"

section \<open>Granting\<close>

text \<open>The loop over \<open>#nested\<close>, with the table of what they still wait for.\<close>

fun grant_nested :: "'p lane_env \<Rightarrow> lock_table \<Rightarrow> nat list \<Rightarrow> 'p lanes \<Rightarrow> lock_table \<times> 'p lanes" where
  "grant_nested env blocked [] s = (blocked, s)"
| "grant_nested env blocked (w # ws) s =
     (let x = l_objs s w in
      case w_locks x of
        None \<Rightarrow> grant_nested env (take_locks blocked []) ws s
      | Some locks \<Rightarrow>
          if \<exists>l\<in>set locks. conflicts (l_held s) l
          then grant_nested env (take_locks blocked locks) ws s
          else
            let s1 = s\<lparr>l_nested := remove1 w (l_nested s)\<rparr>;
                refused = (if w_continuation x then env_refuse env (w_label x) locks else None)
            in if truthy refused
               then grant_nested env blocked ws (lanes_reject w (lane_error RRefused (the refused)) s1)
               else if \<not> precondition_holds env x
               then grant_nested env blocked ws (lanes_reject w (superseded_error x) s1)
               else grant_nested env blocked ws
                      (lanes_start w (s1\<lparr>l_held := take_locks (l_held s1) locks\<rparr>)))"

text \<open>The \<open>admit\<close> callback given to \<open>selectGrants\<close>, and what it notes on a waiter it drops.\<close>

definition line_admits :: "'p lane_env \<Rightarrow> 'p lanes \<Rightarrow> nat \<Rightarrow> bool" where
  "line_admits env s w =
     (let x = l_objs s w in
      if truthy (env_refuse env (w_label x) (locks_or_none x)) then False
      else precondition_holds env x)"

definition note_refused :: "'p lane_env \<Rightarrow> nat \<Rightarrow> 'p lanes \<Rightarrow> 'p lanes" where
  "note_refused env w s =
     (let x = l_objs s w; refused = env_refuse env (w_label x) (locks_or_none x) in
      if truthy refused then upd_waiter w (\<lambda>x. x\<lparr>w_refused := refused\<rparr>) s else s)"

definition reject_dropped :: "nat \<Rightarrow> 'p lanes \<Rightarrow> 'p lanes" where
  "reject_dropped w s =
     (let x = l_objs s w in
      case w_refused x of
        None \<Rightarrow> lanes_reject w (superseded_error x) s
      | Some refused \<Rightarrow> lanes_reject w (lane_error RRefused refused) s)"

definition lanes_grant :: "'p lane_env \<Rightarrow> 'p lanes \<Rightarrow> 'p lanes" where
  "lanes_grant env s =
     (case grant_nested env Map.empty (l_nested s) s of
        (blocked, s1) \<Rightarrow>
          (case select_grants (line_admits env s1) (\<lambda>w. w_locks (l_objs s1 w)) (l_held s1) blocked (l_waiting s1) of
             (r, held') \<Rightarrow>
               let s2 = fold (note_refused env) (gs_dropped r) (s1\<lparr>l_held := held'\<rparr>);
                   s3 = fold lanes_remove (gs_granted r @ gs_dropped r) s2;
                   s4 = fold reject_dropped (gs_dropped r) s3
               in fold lanes_start (gs_granted r) s4))"

section \<open>Releasing, withdrawing, running\<close>

definition lanes_release :: "'p lane_env \<Rightarrow> nat \<Rightarrow> 'p lanes \<Rightarrow> 'p lanes" where
  "lanes_release env w s =
     (if w_state (l_objs s w) = SDone then s
      else lanes_grant env
        ((upd_waiter w (\<lambda>x. x\<lparr>w_state := SDone\<rparr>) s)
           \<lparr>l_active := remove1 w (l_active s),
            l_held := release_locks (l_held s) (locks_or_none (l_objs s w))\<rparr>))"

definition lanes_cancel :: "'p lane_env \<Rightarrow> nat \<Rightarrow> 'p lanes \<Rightarrow> 'p lanes \<times> bool" where
  "lanes_cancel env w s =
     (if w_state (l_objs s w) = SWaiting then
        (lanes_grant env
          (lanes_reject w (lane_error RCancelled (w_label (l_objs s w) @ '' was withdrawn before it started''))
            (lanes_remove w s)), True)
      else if w_state (l_objs s w) = SGranted then (lanes_release env w s, True)
      else (s, False))"

definition exclusive_generation :: "'p lanes \<Rightarrow> string \<Rightarrow> nat" where
  "exclusive_generation s k = (case l_starts s k of None \<Rightarrow> 0 | Some n \<Rightarrow> n)"

definition count_start :: "'p lanes \<Rightarrow> lane_lock \<Rightarrow> 'p lanes" where
  "count_start s l =
     (if lmode l = Exclusive
      then s\<lparr>l_starts := (l_starts s)(lkey l \<mapsto> exclusive_generation s (lkey l) + 1)\<rparr> else s)"

datatype run_failure = LaneFailure lane_rejected_error | Defect string

text \<open>
  A run once its deferred has settled: it fails, or starts its effect. \<open>None\<close> while the
  deferred is pending: the caller waits.
\<close>

definition lanes_begin :: "nat \<Rightarrow> 'p lanes \<Rightarrow> ((run_failure + unit) \<times> 'p lanes) option" where
  "lanes_begin w s =
     (let x = l_objs s w in
      case w_granted x of
        Pending \<Rightarrow> None
      | Rejected e \<Rightarrow> Some (Inl (LaneFailure e), s)
      | Died cause \<Rightarrow> Some (Inl (Defect cause), s)
      | Resolved \<Rightarrow>
          if w_state x \<noteq> SGranted
          then Some (Inl (LaneFailure (case w_refusal x of
                 Some e \<Rightarrow> e
               | None \<Rightarrow> lane_error RCancelled (w_label x @ '' was already run or withdrawn''))), s)
          else Some (Inr (),
                 foldl count_start (upd_waiter w (\<lambda>x. x\<lparr>w_state := SRunning\<rparr>) s) (locks_or_none x)))"

section \<open>Admission\<close>

definition waiting_on_their_own :: "'p lanes \<Rightarrow> nat" where
  "waiting_on_their_own s =
     length (l_waiting s) + length (filter (\<lambda>w. w_continuation (l_objs s w)) (l_nested s))"

definition occupant :: "'p lanes \<Rightarrow> nat \<Rightarrow> string lane_occupant" where
  "occupant s w = \<lparr>oc_id = w_label (l_objs s w), oc_locks = locks_or_none (l_objs s w)\<rparr>"

definition ahead_of :: "nat \<Rightarrow> nat list \<Rightarrow> nat list" where
  "ahead_of w queue = (if w \<in> set queue then takeWhile (\<lambda>v. v \<noteq> w) queue else [])"

definition in_the_way :: "nat \<Rightarrow> nat list \<Rightarrow> 'p lanes \<Rightarrow> string wait_reason list" where
  "in_the_way w queue s =
     explain_wait (locks_or_none (l_objs s w)) (map (occupant s) (l_active s))
       (map (occupant s) (ahead_of w queue))"

fun join_with :: "string \<Rightarrow> string list \<Rightarrow> string" where
  "join_with sep [] = []"
| "join_with sep [x] = x"
| "join_with sep (x # y # xs) = x @ sep @ join_with sep (y # xs)"

definition refuse_busy :: "nat \<Rightarrow> string wait_reason list \<Rightarrow> 'p lanes \<Rightarrow> 'p lanes" where
  "refuse_busy w way s =
     (let blocked_by = dedup (map wr_id way) in
      lanes_reject w \<lparr>le_reason = RBusy,
          le_message = w_label (l_objs s w) @ '' is waiting on '' @ join_with '', '' blocked_by,
          le_blocked_by = Some blocked_by\<rparr>
        (lanes_remove w s))"

definition new_waiter :: "'p lane_admission \<Rightarrow> bool \<Rightarrow> 'p waiter" where
  "new_waiter ad inside =
     (let continuation = \<not> inside \<and> ad_continuation ad in
      \<lparr>w_label = ad_label ad, w_nested = (inside \<or> continuation), w_continuation = continuation,
       w_carries_on = ad_carries_on ad, w_locks = None, w_precondition = ad_precondition ad,
       w_granted = Pending, w_refusal = None, w_refused = None, w_state = SWaiting\<rparr>)"

definition enqueue :: "nat \<Rightarrow> 'p lane_admission \<Rightarrow> 'p lanes \<Rightarrow> 'p lanes" where
  "enqueue w ad s =
     (let s1 = (if w_nested (l_objs s w) then s\<lparr>l_nested := l_nested s @ [w]\<rparr>
                else s\<lparr>l_waiting := l_waiting s @ [w]\<rparr>)
      in case ad_locks ad of
           None \<Rightarrow> s1
         | Some locks \<Rightarrow> upd_waiter w (\<lambda>x. x\<lparr>w_locks := Some (normalize_locks locks)\<rparr>) s1)"

definition lanes_admit :: "'p lane_env \<Rightarrow> 'p lane_admission \<Rightarrow> bool \<Rightarrow> 'p lanes \<Rightarrow> 'p lanes \<times> nat" where
  "lanes_admit env ad inside s =
     (let w = l_next s; x = new_waiter ad inside;
          s0 = s\<lparr>l_objs := (l_objs s)(w := x), l_next := Suc w\<rparr>
      in if \<not> inside \<and> l_paused s0 \<and> \<not> w_carries_on x
         then (lanes_reject w (paused_error s0 x) s0, w)
         else if \<not> inside \<and> waiting_on_their_own s0 \<ge> l_max_waiting s0
         then (lanes_reject w (lane_error RBusy (l_busy_message s0)) s0, w)
         else
           let s1 = lanes_grant env (enqueue w ad s0) in
           case ad_when_busy ad of
             None \<Rightarrow> (s1, w)
           | Some decide \<Rightarrow>
               if w_state (l_objs s1 w) \<noteq> SWaiting then (s1, w)
               else let way = in_the_way w (if w_nested x then l_nested s1 else l_waiting s1) s1
                    in if decide way = Refuse then (refuse_busy w way s1, w) else (s1, w))"

text \<open>The ticket's \<open>grantedAtOnce\<close>, read as \<open>admit\<close> returns.\<close>

definition granted_at_once :: "'p lanes \<times> nat \<Rightarrow> bool" where
  "granted_at_once r \<longleftrightarrow> w_state (l_objs (fst r) (snd r)) = SGranted"

text \<open>A lookup of an operation's locks settles, after it was admitted with a promise.\<close>

definition settle_lookup :: "'p lane_env \<Rightarrow> nat \<Rightarrow> string + lane_lock list \<Rightarrow> 'p lanes \<Rightarrow> 'p lanes" where
  "settle_lookup env w result s =
     (if w_state (l_objs s w) \<noteq> SWaiting then s
      else case result of
        Inl cause \<Rightarrow>
          lanes_grant env
            (upd_waiter w (\<lambda>x. x\<lparr>w_state := SDone, w_granted := deferred_done (w_granted x) (Died cause)\<rparr>)
              (lanes_remove w s))
      | Inr locks \<Rightarrow>
          lanes_grant env (upd_waiter w (\<lambda>x. x\<lparr>w_locks := Some (normalize_locks locks)\<rparr>) s))"

section \<open>Pausing\<close>

definition withdraw_paused :: "nat \<Rightarrow> 'p lanes \<Rightarrow> 'p lanes" where
  "withdraw_paused w s = lanes_reject w (paused_error s (l_objs s w)) (lanes_remove w s)"

definition pause_spares :: "'p waiter \<Rightarrow> bool" where
  "pause_spares x \<longleftrightarrow> (w_nested x \<and> \<not> w_continuation x) \<or> w_carries_on x \<or> w_state x \<noteq> SGranted"

definition pause_active :: "'p lane_env \<Rightarrow> nat \<Rightarrow> 'p lanes \<Rightarrow> 'p lanes" where
  "pause_active env w s =
     (let x = l_objs s w in
      if pause_spares x then s
      else lanes_release env w (upd_waiter w (\<lambda>x. x\<lparr>w_refusal := Some (paused_error s x)\<rparr>) s))"

definition set_paused :: "'p lane_env \<Rightarrow> bool \<Rightarrow> 'p lanes \<Rightarrow> 'p lanes" where
  "set_paused env paused s =
     (let s0 = s\<lparr>l_paused := paused\<rparr> in
      if \<not> paused then s0
      else
        let withdrawn = filter (\<lambda>w. \<not> w_carries_on (l_objs s0 w))
              (l_waiting s0 @ filter (\<lambda>w. w_continuation (l_objs s0 w)) (l_nested s0));
            s1 = fold withdraw_paused withdrawn s0;
            s2 = fold (pause_active env) (l_active s1) s1
        in lanes_grant env s2)"

section \<open>Diagnostics\<close>

definition pending :: "'p lanes \<Rightarrow> nat \<times> nat" where
  "pending s = (length (l_active s), length (l_waiting s) + length (l_nested s))"

record active_description =
  da_label :: string
  da_locks :: "lane_lock list"

record waiting_description =
  dw_label :: string
  dw_locks :: "lane_lock list option"
  dw_waiting_on :: "string wait_reason list"

definition describe_waiting :: "'p lanes \<Rightarrow> nat list \<Rightarrow> nat \<Rightarrow> waiting_description" where
  "describe_waiting s queue i =
     (let x = l_objs s (queue ! i) in
      \<lparr>dw_label = w_label x, dw_locks = w_locks x,
       dw_waiting_on = (case w_locks x of
          None \<Rightarrow> []
        | Some locks \<Rightarrow> explain_wait locks (map (occupant s) (l_active s)) (map (occupant s) (take i queue)))\<rparr>)"

definition describe :: "'p lanes \<Rightarrow> active_description list \<times> waiting_description list" where
  "describe s =
     (let queue = l_nested s @ l_waiting s in
      (map (\<lambda>w. \<lparr>da_label = w_label (l_objs s w), da_locks = locks_or_none (l_objs s w)\<rparr>) (l_active s),
       map (describe_waiting s queue) [0..<length queue]))"

section \<open>The steps of a run of the lanes\<close>

text \<open>
  Any admission, withdrawal, pause, lookup result or end of a run may come next, in any
  order, with any answers of the callbacks at that moment. A lookup settles once, so only
  while the locks it looks up are not known.
\<close>

inductive lanes_step :: "'p lanes \<Rightarrow> 'p lanes \<Rightarrow> bool" where
  step_admit: "lanes_step s (fst (lanes_admit env ad inside s))"
| step_settle: "w < l_next s \<Longrightarrow> w_locks (l_objs s w) = None \<Longrightarrow>
    lanes_step s (settle_lookup env w result s)"
| step_begin: "w < l_next s \<Longrightarrow> lanes_begin w s = Some (r, t) \<Longrightarrow> lanes_step s t"
| step_finish: "w < l_next s \<Longrightarrow> w_state (l_objs s w) = SRunning \<Longrightarrow> lanes_step s (lanes_release env w s)"
| step_cancel: "w < l_next s \<Longrightarrow> lanes_step s (fst (lanes_cancel env w s))"
| step_pause: "lanes_step s (set_paused env paused s)"

inductive_cases lanes_stepE: "lanes_step s t"

end
