(* ===== verification/Lanes_Inv.thy ===== *)
theory Lanes_Inv
  imports Lanes "HOL-Library.Sublist"
begin

text \<open>
  The invariant of the lanes. \<open>lanes_inv\<close> ties each waiter's state to the one queue that
  holds it and the lock table to the locks of the active operations, which never clash;
  \<open>settled\<close> says that whatever waits has a reason to. Every method keeps both.
\<close>

section \<open>Statement\<close>

abbreviation locks_in :: "'p lanes \<Rightarrow> nat \<Rightarrow> lane_lock list option" where
  "locks_in s w \<equiv> w_locks (l_objs s w)"

definition held_locks :: "'p lanes \<Rightarrow> lane_lock multiset" where
  "held_locks s = locks_sum (locks_in s) (l_active s)"

definition nested_wants :: "'p lanes \<Rightarrow> lane_lock multiset" where
  "nested_wants s = locks_sum (locks_in s) (l_nested s)"

definition queues_ok :: "'p lanes \<Rightarrow> bool" where
  "queues_ok s \<longleftrightarrow>
     distinct (l_active s) \<and> distinct (l_nested s) \<and> distinct (l_waiting s) \<and>
     (\<forall>w. w \<in> set (l_active s) \<longleftrightarrow> w < l_next s \<and> w_state (l_objs s w) \<in> {SGranted, SRunning}) \<and>
     (\<forall>w. w \<in> set (l_nested s) \<longleftrightarrow> w < l_next s \<and> w_state (l_objs s w) = SWaiting \<and> w_nested (l_objs s w)) \<and>
     (\<forall>w. w \<in> set (l_waiting s) \<longleftrightarrow> w < l_next s \<and> w_state (l_objs s w) = SWaiting \<and> \<not> w_nested (l_objs s w))"

definition waiters_ok :: "'p lanes \<Rightarrow> bool" where
  "waiters_ok s \<longleftrightarrow> (\<forall>w<l_next s.
     let x = l_objs s w in
     (w_granted x = Pending \<longleftrightarrow> w_state x = SWaiting) \<and>
     (w_state x \<in> {SGranted, SRunning} \<longrightarrow> w_granted x = Resolved \<and> w_locks x \<noteq> None) \<and>
     (\<forall>ls. w_locks x = Some ls \<longrightarrow> compatible (mset ls)) \<and>
     (w_state x = SWaiting \<longrightarrow> w_refused x = None) \<and>
     (w_continuation x \<longrightarrow> w_nested x))"

definition table_ok :: "'p lanes \<Rightarrow> bool" where
  "table_ok s \<longleftrightarrow> l_held s = table_of (held_locks s) \<and> compatible (held_locks s)"

definition lanes_inv :: "'p lanes \<Rightarrow> bool" where
  "lanes_inv s \<longleftrightarrow> queues_ok s \<and> waiters_ok s \<and> table_ok s"

definition nested_settled :: "'p lanes \<Rightarrow> bool" where
  "nested_settled s \<longleftrightarrow>
     (\<forall>w\<in>set (l_nested s). \<forall>ls. locks_in s w = Some ls \<longrightarrow> \<not> free_of (held_locks s) ls)"

definition settled :: "'p lanes \<Rightarrow> bool" where
  "settled s \<longleftrightarrow> nested_settled s \<and>
     line_blocked (locks_in s) (held_locks s) (nested_wants s) (l_waiting s)"

lemmas lanes_inv_defs = lanes_inv_def queues_ok_def waiters_ok_def table_ok_def

lemma lanes_invD:
  assumes "lanes_inv s"
  shows "distinct (l_active s)" "distinct (l_nested s)" "distinct (l_waiting s)"
    "w \<in> set (l_active s) \<longleftrightarrow> w < l_next s \<and> w_state (l_objs s w) \<in> {SGranted, SRunning}"
    "w \<in> set (l_nested s) \<longleftrightarrow> w < l_next s \<and> w_state (l_objs s w) = SWaiting \<and> w_nested (l_objs s w)"
    "w \<in> set (l_waiting s) \<longleftrightarrow> w < l_next s \<and> w_state (l_objs s w) = SWaiting \<and> \<not> w_nested (l_objs s w)"
    "l_held s = table_of (held_locks s)" "compatible (held_locks s)"
  using assms by (auto simp: lanes_inv_defs)

lemma lanes_inv_locks:
  "lanes_inv s \<Longrightarrow> w < l_next s \<Longrightarrow> locks_in s w = Some ls \<Longrightarrow> compatible (mset ls)"
  by (simp add: lanes_inv_defs Let_def)

lemma lanes_inv_active_known:
  "lanes_inv s \<Longrightarrow> w \<in> set (l_active s) \<Longrightarrow> \<exists>ls. locks_in s w = Some ls"
  by (fastforce simp: lanes_inv_defs Let_def)

lemma lanes_inv_new: "lanes_inv (new_lanes opts)"
  by (simp add: lanes_inv_defs new_lanes_def held_locks_def no_waiter_def)

lemma settled_new: "settled (new_lanes opts)"
  by (simp add: settled_def nested_settled_def new_lanes_def)

section \<open>Leaving the queues\<close>

lemma locks_sum_remove1:
  "w \<in> set ws \<Longrightarrow> locks_sum f ws = locks_sum f (remove1 w ws) + mset (case f w of None \<Rightarrow> [] | Some ls \<Rightarrow> ls)"
  by (induction ws) (auto simp: ac_simps)

lemma held_locks_cong:
  "l_active t = l_active s \<Longrightarrow> (\<And>w. w \<in> set (l_active s) \<Longrightarrow> locks_in t w = locks_in s w) \<Longrightarrow>
   held_locks t = held_locks s"
  unfolding held_locks_def by (simp, rule locks_sum_cong, simp)

text \<open>A waiter taken off its queue and rejected, for whatever reason.\<close>

definition end_waiter :: "nat \<Rightarrow> deferred \<Rightarrow> 'p lanes \<Rightarrow> 'p lanes" where
  "end_waiter w d s = upd_waiter w
     (\<lambda>x. x\<lparr>w_state := SDone, w_granted := deferred_done (w_granted x) d\<rparr>) (lanes_remove w s)"

lemma lanes_reject_remove: "lanes_reject w e (lanes_remove w s) = end_waiter w (Rejected e) s"
  by (simp add: lanes_reject_def end_waiter_def)

lemma end_waiter_fields [simp]:
  "l_active (end_waiter w d s) = l_active s" "l_next (end_waiter w d s) = l_next s"
  "l_held (end_waiter w d s) = l_held s" "l_paused (end_waiter w d s) = l_paused s"
  "l_max_waiting (end_waiter w d s) = l_max_waiting s"
  "l_starts (end_waiter w d s) = l_starts s"
  "locks_in (end_waiter w d s) v = locks_in s v"
  "held_locks (end_waiter w d s) = held_locks s"
  by (auto simp: end_waiter_def lanes_remove_def upd_waiter_def held_locks_def intro: locks_sum_cong)

lemma end_waiter_inv:
  assumes inv: "lanes_inv s" and w: "w < l_next s" "w_state (l_objs s w) = SWaiting" and d: "d \<noteq> Pending"
  shows "lanes_inv (end_waiter w d s)"
proof -
  have "queues_ok (end_waiter w d s)"
    using inv w unfolding lanes_inv_def queues_ok_def
    by (auto simp: end_waiter_def lanes_remove_def upd_waiter_def)
  moreover have "waiters_ok (end_waiter w d s)"
    using inv w d unfolding lanes_inv_def waiters_ok_def
    by (auto simp: end_waiter_def lanes_remove_def upd_waiter_def deferred_done_def Let_def)
  moreover have "table_ok (end_waiter w d s)"
    using inv by (simp add: lanes_inv_def table_ok_def)
  ultimately show ?thesis by (simp add: lanes_inv_def)
qed

lemma end_waiter_queues:
  assumes "lanes_inv s" "w < l_next s" "w_state (l_objs s w) = SWaiting"
  shows "l_nested (end_waiter w d s) = remove1 w (l_nested s)"
    and "l_waiting (end_waiter w d s) = remove1 w (l_waiting s)"
  using assms lanes_invD(5,6) [OF assms(1), of w]
  by (auto simp: end_waiter_def lanes_remove_def upd_waiter_def remove1_idem)

text \<open>A waiter taken off its queue and granted its locks.\<close>

definition grant_waiter :: "nat \<Rightarrow> 'p lanes \<Rightarrow> 'p lanes" where
  "grant_waiter w s = lanes_start w ((lanes_remove w s)\<lparr>l_held := take_locks (l_held s) (locks_or_none (l_objs s w))\<rparr>)"

lemma grant_waiter_fields [simp]:
  "l_next (grant_waiter w s) = l_next s" "l_paused (grant_waiter w s) = l_paused s"
  "l_max_waiting (grant_waiter w s) = l_max_waiting s"
  "l_starts (grant_waiter w s) = l_starts s"
  "locks_in (grant_waiter w s) v = locks_in s v"
  by (auto simp: grant_waiter_def lanes_start_def lanes_remove_def upd_waiter_def)

lemma grant_waiter_queues:
  assumes "lanes_inv s" "w < l_next s" "w_state (l_objs s w) = SWaiting"
  shows "l_nested (grant_waiter w s) = remove1 w (l_nested s)"
    and "l_waiting (grant_waiter w s) = remove1 w (l_waiting s)"
    and "l_active (grant_waiter w s) = l_active s @ [w]"
  using assms lanes_invD(4-6) [OF assms(1), of w]
  by (auto simp: grant_waiter_def lanes_start_def lanes_remove_def upd_waiter_def remove1_idem set_add_def)

lemma grant_waiter_held:
  assumes "lanes_inv s" "w < l_next s" "w_state (l_objs s w) = SWaiting" "locks_in s w = Some ls"
  shows "held_locks (grant_waiter w s) = held_locks s + mset ls"
proof -
  have "held_locks (grant_waiter w s) = locks_sum (locks_in s) (l_active s @ [w])"
    using grant_waiter_queues(3) [OF assms(1-3)] by (simp add: held_locks_def)
  then show ?thesis by (simp add: held_locks_def assms(4))
qed

lemma grant_waiter_inv:
  assumes inv: "lanes_inv s" and w: "w < l_next s" "w_state (l_objs s w) = SWaiting"
    and ls: "locks_in s w = Some ls" and free: "free_of (held_locks s) ls"
  shows "lanes_inv (grant_waiter w s)"
proof -
  have "queues_ok (grant_waiter w s)"
    using inv w unfolding lanes_inv_def queues_ok_def
    by (auto simp: grant_waiter_def lanes_start_def lanes_remove_def upd_waiter_def set_add_def)
  moreover have "waiters_ok (grant_waiter w s)"
    using inv w ls unfolding lanes_inv_def waiters_ok_def
    by (auto simp: grant_waiter_def lanes_start_def lanes_remove_def upd_waiter_def deferred_done_def Let_def)
  moreover have "table_ok (grant_waiter w s)"
  proof -
    have "l_held (grant_waiter w s) = take_locks (l_held s) ls"
      by (simp add: grant_waiter_def lanes_start_def upd_waiter_def locks_or_none_def ls)
    also have "\<dots> = table_of (held_locks s + mset ls)"
      by (simp add: lanes_invD(7) [OF inv] take_locks_table_of)
    finally have "l_held (grant_waiter w s) = table_of (held_locks (grant_waiter w s))"
      by (simp add: grant_waiter_held [OF inv w ls])
    moreover have "compatible (held_locks s + mset ls)"
      using lanes_invD(8) [OF inv] lanes_inv_locks [OF inv w(1) ls] free by (simp add: compatible_free)
    ultimately show ?thesis
      by (simp add: table_ok_def grant_waiter_held [OF inv w ls])
  qed
  ultimately show ?thesis by (simp add: lanes_inv_def)
qed

section \<open>What a grant may change\<close>

definition same_static :: "'p waiter \<Rightarrow> 'p waiter \<Rightarrow> bool" where
  "same_static x y \<longleftrightarrow>
     w_label y = w_label x \<and> w_nested y = w_nested x \<and> w_continuation y = w_continuation x \<and>
     w_carries_on y = w_carries_on x \<and> w_locks y = w_locks x \<and> w_precondition y = w_precondition x"

definition may_start :: "'p lane_env \<Rightarrow> 'p waiter \<Rightarrow> bool" where
  "may_start env x \<longleftrightarrow> precondition_holds env x \<and>
     ((w_nested x \<longrightarrow> w_continuation x) \<longrightarrow> \<not> truthy (env_refuse env (w_label x) (locks_or_none x)))"

definition waiter_granted_or_ended :: "'p lane_env \<Rightarrow> 'p waiter \<Rightarrow> 'p waiter \<Rightarrow> bool" where
  "waiter_granted_or_ended env x y \<longleftrightarrow> same_static x y \<and>
     (y = x \<or>
      w_state x = SWaiting \<and> w_state y = SDone \<or>
      w_state x = SWaiting \<and> w_state y = SGranted \<and> may_start env x)"

definition grant_frame :: "'p lane_env \<Rightarrow> 'p lanes \<Rightarrow> 'p lanes \<Rightarrow> bool" where
  "grant_frame env s t \<longleftrightarrow>
     l_next t = l_next s \<and> l_paused t = l_paused s \<and> l_max_waiting t = l_max_waiting s \<and>
     l_starts t = l_starts s \<and>
     subseq (l_nested t) (l_nested s) \<and> subseq (l_waiting t) (l_waiting s) \<and>
     (\<exists>gs. l_active t = l_active s @ gs) \<and>
     (\<forall>v. waiter_granted_or_ended env (l_objs s v) (l_objs t v))"

lemma same_static_refl [simp]: "same_static x x"
  by (simp add: same_static_def)

lemma same_static_trans: "same_static x y \<Longrightarrow> same_static y z \<Longrightarrow> same_static x z"
  by (simp add: same_static_def)

lemma may_start_static: "same_static x y \<Longrightarrow> may_start env y = may_start env x"
  by (simp add: same_static_def may_start_def precondition_holds_def locks_or_none_def)

lemma grant_frame_refl [simp]: "grant_frame env s s"
  by (simp add: grant_frame_def waiter_granted_or_ended_def)

lemma waiter_granted_or_ended_trans:
  "waiter_granted_or_ended env x y \<Longrightarrow> waiter_granted_or_ended env y z \<Longrightarrow>
   waiter_granted_or_ended env x z"
  unfolding waiter_granted_or_ended_def using same_static_trans may_start_static by fastforce

lemma grant_frame_trans: "grant_frame env s t \<Longrightarrow> grant_frame env t u \<Longrightarrow> grant_frame env s u"
  unfolding grant_frame_def
  by (auto intro: subseq_order.trans waiter_granted_or_ended_trans)

lemma subseq_remove1: "subseq (remove1 x xs) xs"
  by (induction xs) (auto intro: list_emb_Cons)

lemma end_waiter_frame:
  assumes "lanes_inv s" "w < l_next s" "w_state (l_objs s w) = SWaiting"
  shows "grant_frame env s (end_waiter w d s)"
  unfolding grant_frame_def
  using assms by (auto simp: end_waiter_queues subseq_remove1)
    (auto simp: end_waiter_def lanes_remove_def upd_waiter_def waiter_granted_or_ended_def same_static_def)

lemma grant_waiter_frame:
  assumes "lanes_inv s" "w < l_next s" "w_state (l_objs s w) = SWaiting" "may_start env (l_objs s w)"
  shows "grant_frame env s (grant_waiter w s)"
  unfolding grant_frame_def
  using assms by (auto simp: grant_waiter_queues subseq_remove1)
    (auto simp: grant_waiter_def lanes_start_def lanes_remove_def upd_waiter_def
      waiter_granted_or_ended_def same_static_def)

lemma grant_frame_static: "grant_frame env s t \<Longrightarrow> same_static (l_objs s v) (l_objs t v)"
  by (simp add: grant_frame_def waiter_granted_or_ended_def)

lemma grant_frame_locks: "grant_frame env s t \<Longrightarrow> locks_in t v = locks_in s v"
  using grant_frame_static [of env s t v] by (simp add: same_static_def)

lemma grant_frame_held: "grant_frame env s t \<Longrightarrow> held_locks s \<subseteq># held_locks t"
proof -
  assume f: "grant_frame env s t"
  then obtain gs where gs: "l_active t = l_active s @ gs" by (auto simp: grant_frame_def)
  have "held_locks t = locks_sum (locks_in s) (l_active s @ gs)"
    unfolding held_locks_def gs by (rule locks_sum_cong) (simp add: grant_frame_locks [OF f])
  then show ?thesis by (simp add: held_locks_def)
qed

section \<open>Granting nested operations\<close>

text \<open>One turn of the loop, by what it decides.\<close>

lemma grant_nested_Cons:
  assumes inv: "lanes_inv s" and w: "w \<in> set (l_nested s)"
  shows "grant_nested env blocked (w # ws) s =
    (let x = l_objs s w in
     if \<not> (\<exists>ls. w_locks x = Some ls \<and> free_of (held_locks s) ls)
     then grant_nested env (take_locks blocked (locks_or_none x)) ws s
     else if w_continuation x \<and> truthy (env_refuse env (w_label x) (locks_or_none x))
     then grant_nested env blocked ws
            (end_waiter w (Rejected (lane_error RRefused (the (env_refuse env (w_label x) (locks_or_none x))))) s)
     else if \<not> precondition_holds env x
     then grant_nested env blocked ws (end_waiter w (Rejected (superseded_error x)) s)
     else grant_nested env blocked ws (grant_waiter w s))"
proof -
  have n: "w_nested (l_objs s w)"
    using lanes_invD(5) [OF inv] w by simp
  have rem: "s\<lparr>l_nested := remove1 w (l_nested s)\<rparr> = lanes_remove w s"
    by (simp add: lanes_remove_def n)
  have held: "l_held (lanes_remove w s) = l_held s"
    by (simp add: lanes_remove_def)
  have conf: "(\<exists>l\<in>set ls. conflicts (l_held s) l) \<longleftrightarrow> \<not> free_of (held_locks s) ls" for ls
    by (simp add: lanes_invD(7) [OF inv] not_free_conflicts)
  show ?thesis
  proof (cases "w_locks (l_objs s w)")
    case None
    then show ?thesis by (simp add: locks_or_none_def)
  next
    case (Some ls)
    then show ?thesis
      by (simp add: Let_def conf rem held locks_or_none_def grant_waiter_def flip: lanes_reject_remove)
  qed
qed

lemma grant_nested_correct:
  assumes "lanes_inv s" and "l_nested s = ps @ ws"
    and "\<forall>w\<in>set ps. \<forall>ls. locks_in s w = Some ls \<longrightarrow> \<not> free_of (held_locks s) ls"
    and "blocked = table_of (locks_sum (locks_in s) ps)"
    and "grant_nested env blocked ws s = (blocked', t)"
  shows "lanes_inv t \<and> grant_frame env s t \<and> nested_settled t \<and> blocked' = table_of (nested_wants t) \<and>
    l_waiting t = l_waiting s"
  using assms
proof (induction ws arbitrary: s ps blocked)
  case Nil
  then show ?case by (auto simp: nested_settled_def nested_wants_def)
next
  case (Cons w ws)
  note inv = Cons.prems(1) and split = Cons.prems(2) and settled = Cons.prems(3)
  have w: "w \<in> set (l_nested s)" by (simp add: split)
  then have wn: "w < l_next s" and ww: "w_state (l_objs s w) = SWaiting" and wnest: "w_nested (l_objs s w)"
    using lanes_invD(5) [OF inv] by auto
  have "w \<notin> set ps" and "w \<notin> set (l_waiting s)"
    using lanes_invD(2) [OF inv] wnest lanes_invD(6) [OF inv] by (auto simp: split)
  then have rest: "remove1 w (l_nested s) = ps @ ws" and line: "remove1 w (l_waiting s) = l_waiting s"
    by (simp_all add: split remove1_append remove1_idem)
  note run = Cons.prems(5) [unfolded grant_nested_Cons [OF inv w] Let_def]
  have later: ?case
    if t: "lanes_inv s'" "grant_frame env s s'" "l_nested s' = ps @ ws" "l_waiting s' = l_waiting s"
      and g: "grant_nested env blocked ws s' = (blocked', t)" for s'
  proof -
    have l: "locks_in s' v = locks_in s v" for v
      by (rule grant_frame_locks [OF t(2)])
    have "\<forall>w\<in>set ps. \<forall>ls. locks_in s' w = Some ls \<longrightarrow> \<not> free_of (held_locks s') ls"
      using settled grant_frame_held [OF t(2)] free_of_mono l by metis
    moreover have "blocked = table_of (locks_sum (locks_in s') ps)"
      using Cons.prems(4) l by (metis locks_sum_cong)
    ultimately show ?thesis
      using Cons.IH [OF t(1,3) _ _ g] t(2,4) grant_frame_trans by metis
  qed
  consider (busy) "\<not> (\<exists>ls. w_locks (l_objs s w) = Some ls \<and> free_of (held_locks s) ls)"
    | (ended) d where "d \<noteq> Pending" "grant_nested env blocked ws (end_waiter w d s) = (blocked', t)"
    | (granted) ls where "w_locks (l_objs s w) = Some ls" "free_of (held_locks s) ls"
        "may_start env (l_objs s w)" "grant_nested env blocked ws (grant_waiter w s) = (blocked', t)"
    using run wnest by (auto simp: may_start_def split: if_splits)
  then show ?case
  proof cases
    case busy
    with run have g: "grant_nested env (take_locks blocked (locks_or_none (l_objs s w))) ws s = (blocked', t)"
      by simp
    have b: "take_locks blocked (locks_or_none (l_objs s w)) = table_of (locks_sum (locks_in s) (ps @ [w]))"
      by (simp add: Cons.prems(4) take_locks_table_of locks_or_none_def)
    have split': "l_nested s = (ps @ [w]) @ ws" by (simp add: split)
    have "\<forall>v\<in>set (ps @ [w]). \<forall>ls. locks_in s v = Some ls \<longrightarrow> \<not> free_of (held_locks s) ls"
      using settled busy by auto
    from Cons.IH [OF inv split' this b g] show ?thesis .
  next
    case (ended d)
    then show ?thesis
      using later [of "end_waiter w d s"] end_waiter_inv [OF inv wn ww] end_waiter_frame [OF inv wn ww]
        end_waiter_queues [OF inv wn ww] rest line by simp
  next
    case (granted ls)
    then show ?thesis
      using later [of "grant_waiter w s"] grant_waiter_inv [OF inv wn ww granted(1,2)]
        grant_waiter_frame [OF inv wn ww granted(3)] grant_waiter_queues [OF inv wn ww] rest line by simp
  qed
qed

section \<open>Granting the line\<close>

text \<open>The batches of the second half of \<open>#grant\<close>, as one change of the state.\<close>

lemma fold_upd_waiter:
  "distinct ws \<Longrightarrow> fold (\<lambda>w. upd_waiter w h) ws s =
     s\<lparr>l_objs := (\<lambda>v. if v \<in> set ws then h (l_objs s v) else l_objs s v)\<rparr>"
  by (induction ws arbitrary: s) (auto simp: upd_waiter_def intro!: arg_cong [where f = "\<lambda>f. s\<lparr>l_objs := f\<rparr>" for s])

lemma fold_lanes_remove_line:
  "distinct (l_waiting s) \<Longrightarrow> \<forall>w\<in>set ws. \<not> w_nested (l_objs s w) \<Longrightarrow>
   fold lanes_remove ws s = s\<lparr>l_waiting := filter (\<lambda>v. v \<notin> set ws) (l_waiting s)\<rparr>"
proof (induction ws arbitrary: s)
  case (Cons w ws)
  have "filter (\<lambda>v. v \<notin> set ws) (remove1 w (l_waiting s)) = filter (\<lambda>v. v \<noteq> w \<and> v \<notin> set ws) (l_waiting s)"
    using Cons.prems(1) by (simp add: distinct_remove1_removeAll removeAll_filter_not_eq) (rule filter_cong, auto)
  with Cons show ?case by (simp add: lanes_remove_def)
qed simp

definition note_waiter :: "'p lane_env \<Rightarrow> 'p waiter \<Rightarrow> 'p waiter" where
  "note_waiter env x =
     (let refused = env_refuse env (w_label x) (locks_or_none x) in
      if truthy refused then x\<lparr>w_refused := refused\<rparr> else x)"

definition drop_waiter :: "'p waiter \<Rightarrow> 'p waiter" where
  "drop_waiter x = x\<lparr>w_state := SDone, w_granted := deferred_done (w_granted x)
     (Rejected (case w_refused x of None \<Rightarrow> superseded_error x | Some r \<Rightarrow> lane_error RRefused r))\<rparr>"

definition start_waiter :: "'p waiter \<Rightarrow> 'p waiter" where
  "start_waiter x = x\<lparr>w_state := SGranted, w_granted := deferred_done (w_granted x) Resolved\<rparr>"

lemma note_refused_upd: "note_refused env = (\<lambda>w. upd_waiter w (note_waiter env))"
  by (intro ext) (simp add: note_refused_def upd_waiter_def note_waiter_def Let_def)

lemma reject_dropped_upd: "reject_dropped = (\<lambda>w. upd_waiter w drop_waiter)"
  by (intro ext) (simp add: reject_dropped_def lanes_reject_def upd_waiter_def drop_waiter_def Let_def
      split: option.split)

lemma fold_lanes_start:
  "distinct ws \<Longrightarrow> set ws \<inter> set (l_active s) = {} \<Longrightarrow>
   fold lanes_start ws s =
     s\<lparr>l_objs := (\<lambda>v. if v \<in> set ws then start_waiter (l_objs s v) else l_objs s v),
       l_active := l_active s @ ws\<rparr>"
proof (induction ws arbitrary: s)
  case (Cons w ws)
  let ?s = "s\<lparr>l_objs := (l_objs s)(w := start_waiter (l_objs s w)), l_active := l_active s @ [w]\<rparr>"
  have st: "lanes_start w s = ?s"
    using Cons.prems by (simp add: lanes_start_def upd_waiter_def set_add_def start_waiter_def)
  have "fold lanes_start ws ?s =
     ?s\<lparr>l_objs := (\<lambda>v. if v \<in> set ws then start_waiter (l_objs ?s v) else l_objs ?s v),
        l_active := l_active ?s @ ws\<rparr>"
    using Cons.prems by (intro Cons.IH) auto
  moreover have "(\<lambda>v. if v \<in> set ws then start_waiter (l_objs ?s v) else l_objs ?s v) =
     (\<lambda>v. if v \<in> set (w # ws) then start_waiter (l_objs s v) else l_objs s v)"
    using Cons.prems by (auto simp: fun_eq_iff)
  ultimately show ?case by (simp add: st)
qed simp

definition line_granted :: "'p lane_env \<Rightarrow> 'p lanes \<Rightarrow> nat list" where
  "line_granted env s = rule_granted (line_admits env s) (locks_in s) (held_locks s) (nested_wants s) (l_waiting s)"

definition line_dropped :: "'p lane_env \<Rightarrow> 'p lanes \<Rightarrow> nat list" where
  "line_dropped env s = rule_dropped (line_admits env s) (locks_in s) (held_locks s) (nested_wants s) (l_waiting s)"

definition grant_line :: "'p lane_env \<Rightarrow> 'p lanes \<Rightarrow> 'p lanes" where
  "grant_line env s =
     (let G = line_granted env s; D = line_dropped env s in
      s\<lparr>l_objs := (\<lambda>v. if v \<in> set G then start_waiter (l_objs s v)
                        else if v \<in> set D then drop_waiter (note_waiter env (l_objs s v)) else l_objs s v),
        l_waiting := filter (\<lambda>v. v \<notin> set G \<and> v \<notin> set D) (l_waiting s),
        l_active := l_active s @ G,
        l_held := table_of (held_locks s + locks_sum (locks_in s) G)\<rparr>)"

lemma line_facts:
  assumes "lanes_inv s"
  shows "set (line_granted env s) \<subseteq> set (l_waiting s)" "set (line_dropped env s) \<subseteq> set (l_waiting s)"
    "distinct (line_granted env s)" "distinct (line_dropped env s)"
    "set (line_granted env s) \<inter> set (line_dropped env s) = {}"
    "set (line_granted env s) \<inter> set (l_active s) = {}"
proof -
  show gs: "set (line_granted env s) \<subseteq> set (l_waiting s)" "set (line_dropped env s) \<subseteq> set (l_waiting s)"
    unfolding line_granted_def line_dropped_def by (rule rule_granted_subset rule_dropped_subset)+
  show "distinct (line_granted env s)" "distinct (line_dropped env s)"
    unfolding line_granted_def line_dropped_def using rule_distinct lanes_invD(3) [OF assms] by blast+
  show "set (line_granted env s) \<inter> set (line_dropped env s) = {}"
    unfolding line_granted_def line_dropped_def disjoint_iff by (intro allI impI) (rule rule_disjoint)
  have "set (l_waiting s) \<inter> set (l_active s) = {}"
    unfolding disjoint_iff by (simp add: lanes_invD(4,6) [OF assms])
  with gs show "set (line_granted env s) \<inter> set (l_active s) = {}" by blast
qed

lemma grant_line_eq:
  assumes inv: "lanes_inv s"
  shows "(case select_grants (line_admits env s) (locks_in s) (l_held s) (table_of (nested_wants s)) (l_waiting s) of
     (r, held') \<Rightarrow>
       let s2 = fold (note_refused env) (gs_dropped r) (s\<lparr>l_held := held'\<rparr>);
           s3 = fold lanes_remove (gs_granted r @ gs_dropped r) s2;
           s4 = fold reject_dropped (gs_dropped r) s3
       in fold lanes_start (gs_granted r) s4) = grant_line env s"
proof -
  let ?G = "line_granted env s" and ?D = "line_dropped env s"
  note facts = line_facts [OF inv, of env]
  have nn: "\<not> w_nested (l_objs s v)" if "v \<in> set ?G \<union> set ?D" for v
    using that facts(1,2) lanes_invD(6) [OF inv, of v] by auto
  let ?s2 = "s\<lparr>l_held := table_of (held_locks s + locks_sum (locks_in s) ?G),
      l_objs := (\<lambda>v. if v \<in> set ?D then note_waiter env (l_objs s v) else l_objs s v)\<rparr>"
  let ?s3 = "?s2\<lparr>l_waiting := filter (\<lambda>v. v \<notin> set (?G @ ?D)) (l_waiting s)\<rparr>"
  have note_nested: "w_nested (note_waiter env x) = w_nested x" for x :: "'a waiter"
    by (simp add: note_waiter_def Let_def)
  have s2: "fold (note_refused env) ?D (s\<lparr>l_held := table_of (held_locks s + locks_sum (locks_in s) ?G)\<rparr>) = ?s2"
    using facts(4) by (simp add: note_refused_upd fold_upd_waiter cong: if_cong)
  have s3: "fold lanes_remove (?G @ ?D) ?s2 = ?s3"
    using lanes_invD(3) [OF inv] nn by (subst fold_lanes_remove_line) (auto simp: note_nested)
  have s4: "fold reject_dropped ?D ?s3 =
      ?s3\<lparr>l_objs := (\<lambda>v. if v \<in> set ?D then drop_waiter (l_objs ?s3 v) else l_objs ?s3 v)\<rparr>"
    using facts(4) unfolding reject_dropped_upd by (rule fold_upd_waiter)
  have "fold lanes_start ?G (fold reject_dropped ?D ?s3) = grant_line env s"
    unfolding s4 using facts(3,5,6)
    by (subst fold_lanes_start)
      (auto simp: grant_line_def Let_def fun_eq_iff intro!: lanes.equality)
  then show ?thesis
    by (simp only: lanes_invD(7) [OF inv] select_grants_rule prod.case Let_def grant_selection.simps
        line_granted_def [symmetric] line_dropped_def [symmetric] s2 s3)
qed

lemma waiter_change_fields [simp]:
  "w_state (start_waiter x) = SGranted" "w_state (drop_waiter x) = SDone"
  "same_static x (start_waiter x)" "same_static x (drop_waiter (note_waiter env x))"
  "w_refused (start_waiter x) = w_refused x"
  "w_nested (start_waiter x) = w_nested x" "w_nested (drop_waiter (note_waiter env x)) = w_nested x"
  "w_continuation (start_waiter x) = w_continuation x"
  "w_continuation (drop_waiter (note_waiter env x)) = w_continuation x"
  "w_locks (start_waiter x) = w_locks x" "w_locks (drop_waiter (note_waiter env x)) = w_locks x"
  "w_granted (start_waiter x) \<noteq> Pending" "w_granted (drop_waiter x) \<noteq> Pending"
  by (simp_all add: start_waiter_def drop_waiter_def note_waiter_def same_static_def deferred_done_def Let_def)

lemma start_waiter_resolved: "w_granted x = Pending \<Longrightarrow> w_granted (start_waiter x) = Resolved"
  by (simp add: start_waiter_def deferred_done_def)

lemma line_admits_may_start:
  "line_admits env s w \<Longrightarrow> \<not> w_nested (l_objs s w) \<Longrightarrow> may_start env (l_objs s w)"
  by (simp add: line_admits_def may_start_def Let_def split: if_splits)

lemma grant_line_fields:
  "l_next (grant_line env s) = l_next s" "l_nested (grant_line env s) = l_nested s"
  "l_paused (grant_line env s) = l_paused s" "l_max_waiting (grant_line env s) = l_max_waiting s"
  "l_starts (grant_line env s) = l_starts s"
  "l_active (grant_line env s) = l_active s @ line_granted env s"
  "locks_in (grant_line env s) v = locks_in s v"
  by (simp_all add: grant_line_def Let_def)

lemma grant_line_held: "held_locks (grant_line env s) = held_locks s + locks_sum (locks_in s) (line_granted env s)"
  unfolding held_locks_def grant_line_fields by simp

lemma grant_line_frame:
  assumes inv: "lanes_inv s"
  shows "grant_frame env s (grant_line env s)"
proof -
  note facts = line_facts [OF inv, of env]
  have "waiter_granted_or_ended env (l_objs s v) (l_objs (grant_line env s) v)" for v
  proof -
    have line: "v \<in> set (line_granted env s) \<union> set (line_dropped env s) \<Longrightarrow>
        w_state (l_objs s v) = SWaiting \<and> \<not> w_nested (l_objs s v)"
      using facts(1,2) lanes_invD(6) [OF inv, of v] by auto
    have "v \<in> set (line_granted env s) \<Longrightarrow> line_admits env s v"
      unfolding line_granted_def by (rule rule_granted_admitted)
    then have "v \<in> set (line_granted env s) \<Longrightarrow> may_start env (l_objs s v)"
      using line line_admits_may_start [of env s v] by blast
    with line show ?thesis
      by (auto simp: grant_line_def Let_def waiter_granted_or_ended_def)
  qed
  then show ?thesis
    by (auto simp: grant_frame_def grant_line_fields) (simp add: grant_line_def Let_def)
qed

lemma grant_line_inv:
  assumes inv: "lanes_inv s"
  shows "lanes_inv (grant_line env s)"
proof -
  let ?G = "line_granted env s" and ?D = "line_dropped env s" and ?t = "grant_line env s"
  note facts = line_facts [OF inv, of env]
  have wait: "w_state (l_objs s v) = SWaiting \<and> \<not> w_nested (l_objs s v) \<and> v < l_next s"
    if "v \<in> set ?G \<union> set ?D" for v
    using that facts(1,2) lanes_invD(6) [OF inv, of v] by auto
  have obj: "l_objs ?t v = (if v \<in> set ?G then start_waiter (l_objs s v)
      else if v \<in> set ?D then drop_waiter (note_waiter env (l_objs s v)) else l_objs s v)" for v
    by (simp add: grant_line_def Let_def)
  have w: "l_waiting ?t = filter (\<lambda>v. v \<notin> set ?G \<and> v \<notin> set ?D) (l_waiting s)"
    by (simp add: grant_line_def Let_def)
  have "queues_ok ?t"
    unfolding queues_ok_def grant_line_fields w obj
    using lanes_invD(1-6) [OF inv] facts(3,6) wait by auto
  moreover have "waiters_ok ?t"
  proof -
    have gl: "w_locks (l_objs s v) \<noteq> None" if "v \<in> set ?G" for v
      using that rule_known [of v "line_admits env s" "locks_in s"] unfolding line_granted_def by auto
    have "w_granted (l_objs s v) = Pending" if "v \<in> set ?G" for v
      using that wait [of v] inv by (auto simp: lanes_inv_def waiters_ok_def Let_def)
    with gl wait inv show ?thesis
      unfolding waiters_ok_def grant_line_fields obj Let_def lanes_inv_def
      by (auto simp: start_waiter_resolved)
  qed
  moreover have "table_ok ?t"
  proof -
    have "compatible (held_locks s + locks_sum (locks_in s) ?G)"
      unfolding line_granted_def
    proof (rule rule_granted_compatible)
      show "compatible (held_locks s)" by (rule lanes_invD(8) [OF inv])
      show "compatible (mset ls)" if "w \<in> set (l_waiting s)" "locks_in s w = Some ls" for w ls
        using that lanes_invD(6) [OF inv, of w] lanes_inv_locks [OF inv, of w ls] by simp
    qed
    then show ?thesis
      by (simp add: table_ok_def grant_line_held) (simp add: grant_line_def Let_def)
  qed
  ultimately show ?thesis by (simp add: lanes_inv_def)
qed

lemma grant_line_settled:
  assumes inv: "lanes_inv s" and settled: "nested_settled s"
  shows "settled (grant_line env s)"
proof -
  let ?t = "grant_line env s"
  have mono: "held_locks s \<subseteq># held_locks ?t" by (simp add: grant_line_held)
  have "nested_settled ?t"
    using settled free_of_mono [OF _ mono] by (auto simp: nested_settled_def grant_line_fields)
  moreover have "line_blocked (locks_in s) (held_locks ?t) (nested_wants s) (l_waiting ?t)"
    unfolding grant_line_held
    using line_blocked_after [OF lanes_invD(3) [OF inv], of "locks_in s" "held_locks s" "line_admits env s" "nested_wants s"]
    by (simp add: grant_line_def Let_def line_granted_def line_dropped_def)
  moreover have "nested_wants ?t = nested_wants s"
    by (simp add: nested_wants_def grant_line_fields)
  ultimately show ?thesis
    by (simp add: settled_def grant_line_fields)
qed

lemma lanes_grant_line:
  assumes inv: "lanes_inv s" and g: "grant_nested env Map.empty (l_nested s) s = (blocked, s1)"
  shows "lanes_grant env s = grant_line env s1" "lanes_inv s1" "grant_frame env s s1" "nested_settled s1"
proof -
  have s1: "lanes_inv s1" "grant_frame env s s1" "nested_settled s1" "blocked = table_of (nested_wants s1)"
    using grant_nested_correct [OF inv _ _ _ g, of "[]"] by simp_all
  then show "lanes_inv s1" "grant_frame env s s1" "nested_settled s1" by blast+
  show "lanes_grant env s = grant_line env s1"
    using grant_line_eq [OF s1(1), of env] by (simp add: lanes_grant_def g s1(4))
qed

text \<open>\<open>#grant\<close> as a whole: it keeps the invariant and leaves the lanes settled.\<close>

lemma lanes_grant_correct:
  assumes inv: "lanes_inv s"
  shows "lanes_inv (lanes_grant env s) \<and> settled (lanes_grant env s) \<and> grant_frame env s (lanes_grant env s)"
proof -
  obtain blocked s1 where g: "grant_nested env Map.empty (l_nested s) s = (blocked, s1)"
    by (cases "grant_nested env Map.empty (l_nested s) s")
  note s1 = lanes_grant_line [OF inv g]
  show ?thesis
    using grant_line_inv [OF s1(2)] grant_line_settled [OF s1(2,4)]
      grant_frame_trans [OF s1(3) grant_line_frame [OF s1(2)]] by (simp add: s1(1))
qed

lemmas lanes_grant_inv = lanes_grant_correct [THEN conjunct1]
lemmas lanes_grant_settled = lanes_grant_correct [THEN conjunct2, THEN conjunct1]
lemmas lanes_grant_frame = lanes_grant_correct [THEN conjunct2, THEN conjunct2]

section \<open>Every method keeps the invariant\<close>

definition lanes_ok :: "'p lanes \<Rightarrow> bool" where
  "lanes_ok s \<longleftrightarrow> lanes_inv s \<and> settled s"

lemma lanes_ok_grant: "lanes_inv s \<Longrightarrow> lanes_ok (lanes_grant env s)"
  by (simp add: lanes_ok_def lanes_grant_inv lanes_grant_settled)

lemma lanes_ok_inv: "lanes_ok s \<Longrightarrow> lanes_inv s"
  by (simp add: lanes_ok_def)

text \<open>Releasing: the state before it grants again.\<close>

definition release_waiter :: "nat \<Rightarrow> 'p lanes \<Rightarrow> 'p lanes" where
  "release_waiter w s =
     (upd_waiter w (\<lambda>x. x\<lparr>w_state := SDone\<rparr>) s)
       \<lparr>l_active := remove1 w (l_active s), l_held := release_locks (l_held s) (locks_or_none (l_objs s w))\<rparr>"

lemma lanes_release_eq:
  "lanes_release env w s =
     (if w_state (l_objs s w) = SDone then s else lanes_grant env (release_waiter w s))"
  by (simp add: lanes_release_def release_waiter_def)

lemma release_waiter_inv:
  assumes inv: "lanes_inv s" and w: "w \<in> set (l_active s)"
  shows "lanes_inv (release_waiter w s)"
proof -
  have wn: "w < l_next s" and st: "w_state (l_objs s w) \<in> {SGranted, SRunning}"
    using lanes_invD(4) [OF inv, of w] w by auto
  obtain ls where ls: "locks_in s w = Some ls"
    using lanes_inv_active_known [OF inv w] by blast
  have "queues_ok (release_waiter w s)"
    unfolding queues_ok_def using lanes_invD(1-3) [OF inv] wn st
    by (auto simp: release_waiter_def upd_waiter_def lanes_invD(4-6) [OF inv])
  moreover have "waiters_ok (release_waiter w s)"
  proof -
    have "w_granted (l_objs s w) \<noteq> Pending"
      using inv wn st by (auto simp: lanes_inv_def waiters_ok_def Let_def)
    with inv show ?thesis
      unfolding lanes_inv_def waiters_ok_def by (simp add: release_waiter_def upd_waiter_def Let_def)
  qed
  moreover have "table_ok (release_waiter w s)"
  proof -
    let ?H = "held_locks (release_waiter w s)"
    have act: "l_active (release_waiter w s) = remove1 w (l_active s)"
      by (simp add: release_waiter_def)
    have "locks_in (release_waiter w s) v = locks_in s v" for v
      by (simp add: release_waiter_def upd_waiter_def)
    then have "?H = locks_sum (locks_in s) (remove1 w (l_active s))"
      unfolding held_locks_def act by (rule locks_sum_cong)
    then have s: "held_locks s = ?H + mset ls"
      using locks_sum_remove1 [OF w, of "locks_in s"] by (simp add: held_locks_def ls)
    have c: "compatible (?H + mset ls)"
      using lanes_invD(8) [OF inv] by (simp add: s)
    have "l_held (release_waiter w s) = release_locks (l_held s) ls"
      by (simp add: release_waiter_def locks_or_none_def ls)
    also have "\<dots> = release_locks (table_of (?H + mset ls)) ls"
      unfolding lanes_invD(7) [OF inv] s ..
    also have "\<dots> = table_of ?H" by (rule release_locks_table_of [OF c])
    finally show ?thesis
      using compatible_subset [OF c] by (simp add: table_ok_def)
  qed
  ultimately show ?thesis by (simp add: lanes_inv_def)
qed

lemma lanes_release_ok:
  assumes ok: "lanes_ok s" and w: "w < l_next s" and st: "w_state (l_objs s w) \<noteq> SWaiting"
  shows "lanes_ok (lanes_release env w s)"
proof (cases "w_state (l_objs s w) = SDone")
  case True
  with ok show ?thesis by (simp add: lanes_release_eq)
next
  case False
  with w st have "w \<in> set (l_active s)"
    using lanes_invD(4) [OF lanes_ok_inv [OF ok], of w] by (cases "w_state (l_objs s w)") auto
  with False show ?thesis
    using release_waiter_inv [OF lanes_ok_inv [OF ok]] by (simp add: lanes_release_eq lanes_ok_grant)
qed

lemma lanes_cancel_ok:
  assumes ok: "lanes_ok s" and w: "w < l_next s"
  shows "lanes_ok (fst (lanes_cancel env w s))"
  using end_waiter_inv [OF lanes_ok_inv [OF ok] w] lanes_release_ok [OF ok w] ok
  by (simp add: lanes_cancel_def lanes_reject_remove lanes_ok_grant)

text \<open>A change that only touches fields the invariant does not read.\<close>

definition same_waiter :: "'p waiter \<Rightarrow> 'p waiter \<Rightarrow> bool" where
  "same_waiter x y \<longleftrightarrow> same_static x y \<and> w_granted y = w_granted x \<and> w_refused y = w_refused x \<and>
     (w_state y = w_state x \<or> w_state x = SGranted \<and> w_state y = SRunning)"

lemma same_waiter_trans: "same_waiter x y \<Longrightarrow> same_waiter y z \<Longrightarrow> same_waiter x z"
  by (auto simp: same_waiter_def elim: same_static_trans)

lemma same_waiter_refl [simp]: "same_waiter x x"
  by (simp add: same_waiter_def)

definition same_lanes :: "'p lanes \<Rightarrow> 'p lanes \<Rightarrow> bool" where
  "same_lanes s t \<longleftrightarrow>
     l_next t = l_next s \<and> l_waiting t = l_waiting s \<and> l_nested t = l_nested s \<and>
     l_active t = l_active s \<and> l_held t = l_held s \<and>
     (\<forall>w. same_waiter (l_objs s w) (l_objs t w))"

lemma same_lanes_refl [simp]: "same_lanes s s"
  by (simp add: same_lanes_def)

lemma same_lanes_trans: "same_lanes s t \<Longrightarrow> same_lanes t u \<Longrightarrow> same_lanes s u"
  unfolding same_lanes_def by (metis same_waiter_trans)

lemma same_lanes_locks: "same_lanes s t \<Longrightarrow> locks_in t w = locks_in s w"
  by (simp add: same_lanes_def same_waiter_def same_static_def)

lemma same_lanes_correct:
  assumes same: "same_lanes s t" and inv: "lanes_inv s"
  shows "lanes_inv t \<and> (settled s \<longrightarrow> settled t)"
proof -
  have locks: "locks_in t = locks_in s" by (rule ext) (rule same_lanes_locks [OF same])
  have st: "w_state (l_objs t w) = w_state (l_objs s w) \<or>
      w_state (l_objs s w) = SGranted \<and> w_state (l_objs t w) = SRunning" for w
    using same by (simp add: same_lanes_def same_waiter_def)
  have nested: "w_nested (l_objs t w) = w_nested (l_objs s w)" for w
    using same by (simp add: same_lanes_def same_waiter_def same_static_def)
  have f: "l_next t = l_next s" "l_waiting t = l_waiting s" "l_nested t = l_nested s"
     "l_active t = l_active s" "l_held t = l_held s"
    using same by (simp_all add: same_lanes_def)
  have held: "held_locks t = held_locks s" and wants: "nested_wants t = nested_wants s"
    by (simp_all add: held_locks_def nested_wants_def f locks)
  have w: "(w_state (l_objs t w) = SWaiting) = (w_state (l_objs s w) = SWaiting)"
    "(w_state (l_objs t w) \<in> {SGranted, SRunning}) = (w_state (l_objs s w) \<in> {SGranted, SRunning})" for w
    using st [of w] by auto
  have "queues_ok t"
    using inv unfolding lanes_inv_def queues_ok_def f nested w by blast
  moreover have "waiters_ok t"
  proof -
    have "w_granted (l_objs t v) = w_granted (l_objs s v) \<and> w_refused (l_objs t v) = w_refused (l_objs s v) \<and>
        w_continuation (l_objs t v) = w_continuation (l_objs s v)" for v
      using same by (simp add: same_lanes_def same_waiter_def same_static_def)
    moreover have "w_locks (l_objs t v) = w_locks (l_objs s v)" for v
      by (rule same_lanes_locks [OF same])
    ultimately show ?thesis
      using inv unfolding lanes_inv_def waiters_ok_def f nested w Let_def by simp
  qed
  moreover have "table_ok t"
    using inv by (simp add: lanes_inv_def table_ok_def held f)
  moreover have "settled s \<Longrightarrow> settled t"
    unfolding settled_def nested_settled_def f held wants locks same_lanes_locks [OF same] .
  ultimately show ?thesis by (simp add: lanes_inv_def)
qed

lemma same_lanes_inv: "same_lanes s t \<Longrightarrow> lanes_inv s \<Longrightarrow> lanes_inv t"
  using same_lanes_correct by blast

lemma same_lanes_ok: "same_lanes s t \<Longrightarrow> lanes_ok s \<Longrightarrow> lanes_ok t"
  using same_lanes_correct unfolding lanes_ok_def by blast

lemma count_start_same: "same_lanes s (count_start s l)"
  by (simp add: count_start_def same_lanes_def)

lemma foldl_count_start_same: "same_lanes s (foldl count_start s ls)"
proof (induction ls arbitrary: s)
  case (Cons l ls)
  show ?case
    using same_lanes_trans [OF count_start_same Cons.IH] by simp
qed simp

lemma lanes_begin_same: "lanes_begin w s = Some (r, t) \<Longrightarrow> same_lanes s t"
proof -
  assume b: "lanes_begin w s = Some (r, t)"
  show ?thesis
  proof (cases "w_granted (l_objs s w) = Resolved \<and> w_state (l_objs s w) = SGranted")
    case True
    let ?u = "upd_waiter w (\<lambda>x. x\<lparr>w_state := SRunning\<rparr>) s"
    from True b have t: "t = foldl count_start ?u (locks_or_none (l_objs s w))"
      by (simp add: lanes_begin_def Let_def)
    have "same_lanes s ?u"
      using True by (simp add: same_lanes_def same_waiter_def upd_waiter_def same_static_def)
    then show ?thesis
      unfolding t by (rule same_lanes_trans) (rule foldl_count_start_same)
  next
    case False
    with b show ?thesis
      by (auto simp: lanes_begin_def Let_def split: deferred.splits if_splits)
  qed
qed

lemma lanes_begin_ok: "lanes_ok s \<Longrightarrow> lanes_begin w s = Some (r, t) \<Longrightarrow> lanes_ok t"
  by (metis lanes_begin_same same_lanes_ok)

end
