(* ===== verification/Lanes_Life.thy ===== *)
theory Lanes_Life
  imports Lanes_Inv
begin

text \<open>
  Every method of the lanes over time: it keeps the invariant and leaves the lanes settled,
  and no waiter ever moves backwards. The reachable states follow.
\<close>

section \<open>A waiter's life\<close>

text \<open>
  A waiter only moves forward: waiting, granted, running, done. Its deferred settles once,
  its locks are fixed once known, and its label and kind never change.
\<close>

fun state_rank :: "waiter_state \<Rightarrow> nat" where
  "state_rank SWaiting = 0"
| "state_rank SGranted = 1"
| "state_rank SRunning = 2"
| "state_rank SDone = 3"

definition waiter_le :: "'p waiter \<Rightarrow> 'p waiter \<Rightarrow> bool" where
  "waiter_le x y \<longleftrightarrow> state_rank (w_state x) \<le> state_rank (w_state y) \<and>
     (w_granted x \<noteq> Pending \<longrightarrow> w_granted y = w_granted x) \<and>
     (w_locks x \<noteq> None \<longrightarrow> w_locks y = w_locks x) \<and>
     w_label y = w_label x \<and> w_nested y = w_nested x \<and> w_continuation y = w_continuation x \<and>
     w_carries_on y = w_carries_on x \<and> w_precondition y = w_precondition x"

definition lanes_le :: "'p lanes \<Rightarrow> 'p lanes \<Rightarrow> bool" where
  "lanes_le s t \<longleftrightarrow> l_next s \<le> l_next t \<and> (\<forall>v<l_next s. waiter_le (l_objs s v) (l_objs t v))"

lemma waiter_le_refl [simp]: "waiter_le x x"
  by (simp add: waiter_le_def)

lemma waiter_le_trans: "waiter_le x y \<Longrightarrow> waiter_le y z \<Longrightarrow> waiter_le x z"
  unfolding waiter_le_def by (auto dest: order_trans)

lemma lanes_le_refl [simp]: "lanes_le s s"
  by (simp add: lanes_le_def)

lemma lanes_le_trans: "lanes_le s t \<Longrightarrow> lanes_le t u \<Longrightarrow> lanes_le s u"
  unfolding lanes_le_def by (meson order_trans less_le_trans waiter_le_trans)

lemma grant_frame_le:
  assumes inv: "lanes_inv s" and f: "grant_frame env s t"
  shows "lanes_le s t"
proof -
  have "waiter_le (l_objs s v) (l_objs t v)" if v: "v < l_next s" for v
  proof -
    have "w_state (l_objs s v) = SWaiting \<Longrightarrow> w_granted (l_objs s v) = Pending"
      using inv v by (simp add: lanes_inv_def waiters_ok_def Let_def)
    moreover have "waiter_granted_or_ended env (l_objs s v) (l_objs t v)"
      using f by (simp add: grant_frame_def)
    ultimately show ?thesis
      by (auto simp: waiter_granted_or_ended_def waiter_le_def same_static_def)
  qed
  with f show ?thesis by (simp add: lanes_le_def grant_frame_def)
qed

lemma lanes_grant_le: "lanes_inv s \<Longrightarrow> lanes_le s (lanes_grant env s)"
  by (rule grant_frame_le [OF _ lanes_grant_frame])

lemma end_waiter_le:
  assumes "lanes_inv s" and "w < l_next s" and "w_state (l_objs s w) = SWaiting"
  shows "lanes_le s (end_waiter w d s)"
  using grant_frame_le [OF assms(1) end_waiter_frame [OF assms]] .

lemma release_waiter_le: "lanes_le s (release_waiter w s)"
proof -
  have "state_rank x \<le> 3" for x by (cases x) auto
  then show ?thesis
    by (auto simp: lanes_le_def release_waiter_def upd_waiter_def waiter_le_def)
qed

lemma lanes_release_inv:
  assumes inv: "lanes_inv s" and w: "w < l_next s" "w_state (l_objs s w) \<noteq> SWaiting"
  shows "lanes_inv (lanes_release env w s) \<and> lanes_le s (lanes_release env w s)"
proof (cases "w_state (l_objs s w) = SDone")
  case True
  with inv show ?thesis by (simp add: lanes_release_eq)
next
  case False
  with w have "w \<in> set (l_active s)"
    using lanes_invD(4) [OF inv, of w] by (cases "w_state (l_objs s w)") auto
  then have r: "lanes_inv (release_waiter w s)" by (rule release_waiter_inv [OF inv])
  with False show ?thesis
    using lanes_le_trans [OF release_waiter_le lanes_grant_le [OF r]] by (simp add: lanes_release_eq lanes_grant_inv)
qed

lemma same_waiter_le: "same_waiter x y \<Longrightarrow> waiter_le x y"
  by (auto simp: same_waiter_def waiter_le_def same_static_def)

lemma same_lanes_le: "same_lanes s t \<Longrightarrow> lanes_le s t"
  by (auto simp: same_lanes_def lanes_le_def same_waiter_le)

lemma lanes_cancel_le:
  assumes inv: "lanes_inv s" and w: "w < l_next s"
  shows "lanes_le s (fst (lanes_cancel env w s))"
proof -
  have "lanes_le s (lanes_grant env (end_waiter w d s))"
    if "w_state (l_objs s w) = SWaiting" "d \<noteq> Pending" for d
    using lanes_le_trans [OF end_waiter_le [OF inv w that(1)]
        lanes_grant_le [OF end_waiter_inv [OF inv w that]]] .
  moreover have "w_state (l_objs s w) = SGranted \<Longrightarrow> lanes_le s (lanes_release env w s)"
    using lanes_release_inv [OF inv w] by simp
  ultimately show ?thesis
    by (simp add: lanes_cancel_def lanes_reject_remove)
qed

section \<open>Lookups\<close>

lemma lookup_known_inv:
  assumes inv: "lanes_inv s" and w: "w < l_next s" "w_state (l_objs s w) = SWaiting"
  shows "lanes_inv (upd_waiter w (\<lambda>x. x\<lparr>w_locks := Some (normalize_locks locks)\<rparr>) s)" (is "lanes_inv ?t")
proof -
  have "w \<notin> set (l_active s)" using lanes_invD(4) [OF inv, of w] w by auto
  then have h: "held_locks ?t = held_locks s"
    by (intro held_locks_cong) (auto simp: upd_waiter_def)
  have "queues_ok ?t"
    using inv unfolding lanes_inv_def queues_ok_def by (simp add: upd_waiter_def)
  moreover have "waiters_ok ?t"
    using inv w unfolding lanes_inv_def waiters_ok_def
    by (simp add: upd_waiter_def Let_def compatible_normalize_locks)
  moreover have "table_ok ?t"
    unfolding table_ok_def h using lanes_invD(7,8) [OF inv] by (simp add: upd_waiter_def)
  ultimately show ?thesis by (simp add: lanes_inv_def)
qed

lemma settle_lookup_ok:
  assumes ok: "lanes_ok s" and w: "w < l_next s"
  shows "lanes_ok (settle_lookup env w result s)"
proof (cases "w_state (l_objs s w) = SWaiting")
  case True
  have inv: "lanes_inv s" by (rule lanes_ok_inv [OF ok])
  show ?thesis
  proof (cases result)
    case (Inl cause)
    then show ?thesis
      using end_waiter_inv [OF inv w True, of "Died cause"] True
      by (simp add: settle_lookup_def lanes_ok_grant flip: end_waiter_def)
  next
    case (Inr locks)
    then show ?thesis
      using lookup_known_inv [OF inv w True] True by (simp add: settle_lookup_def lanes_ok_grant)
  qed
next
  case False
  with ok show ?thesis by (simp add: settle_lookup_def)
qed

section \<open>Pausing\<close>

lemma withdraw_paused_end:
  "withdraw_paused w s = end_waiter w (Rejected (paused_error s (l_objs s w))) s"
  by (simp add: withdraw_paused_def lanes_reject_remove)

lemma end_waiter_other: "v \<noteq> w \<Longrightarrow> l_objs (end_waiter w d s) v = l_objs s v"
  by (simp add: end_waiter_def upd_waiter_def lanes_remove_def)

lemma fold_withdraw_inv:
  "lanes_inv s \<Longrightarrow> distinct ws \<Longrightarrow> \<forall>w\<in>set ws. w < l_next s \<and> w_state (l_objs s w) = SWaiting \<Longrightarrow>
   lanes_inv (fold withdraw_paused ws s) \<and> lanes_le s (fold withdraw_paused ws s)"
proof (induction ws arbitrary: s)
  case (Cons w ws)
  let ?t = "withdraw_paused w s"
  have w: "w < l_next s" "w_state (l_objs s w) = SWaiting" using Cons.prems by auto
  have t: "lanes_inv ?t" "lanes_le s ?t"
    unfolding withdraw_paused_end
    using end_waiter_inv [OF Cons.prems(1) w] end_waiter_le [OF Cons.prems(1) w] by auto
  have "\<forall>v\<in>set ws. v < l_next ?t \<and> w_state (l_objs ?t v) = SWaiting"
    using Cons.prems(2,3) by (metis withdraw_paused_end end_waiter_other end_waiter_fields(2) distinct.simps(2) list.set_intros(2))
  then show ?case
    using Cons.IH [OF t(1)] Cons.prems(2) lanes_le_trans [OF t(2)] by simp
qed simp

lemma note_refusal_same:
  "same_lanes s (upd_waiter w (\<lambda>x. x\<lparr>w_refusal := r x\<rparr>) s)"
  by (simp add: same_lanes_def upd_waiter_def same_waiter_def same_static_def)

lemma pause_active_inv:
  assumes inv: "lanes_inv s" and w: "w < l_next s" "w_state (l_objs s w) \<noteq> SWaiting"
  shows "lanes_inv (pause_active env w s) \<and> lanes_le s (pause_active env w s)"
proof (cases "pause_spares (l_objs s w)")
  case True
  with inv show ?thesis by (simp add: pause_active_def)
next
  case False
  let ?u = "upd_waiter w (\<lambda>x. x\<lparr>w_refusal := Some (paused_error s x)\<rparr>) s"
  have same: "same_lanes s ?u" by (rule note_refusal_same)
  have u: "lanes_inv ?u" by (rule same_lanes_inv [OF same inv])
  have "w < l_next ?u" "w_state (l_objs ?u w) \<noteq> SWaiting"
    using w by (simp_all add: upd_waiter_def)
  from lanes_release_inv [OF u this, of env] False show ?thesis
    using lanes_le_trans [OF same_lanes_le [OF same]] by (simp add: pause_active_def Let_def)
qed

lemma lanes_le_started:
  "lanes_le s t \<Longrightarrow> v < l_next s \<Longrightarrow> w_state (l_objs s v) \<noteq> SWaiting \<Longrightarrow>
   v < l_next t \<and> w_state (l_objs t v) \<noteq> SWaiting"
  by (cases "w_state (l_objs s v)"; cases "w_state (l_objs t v)") (auto simp: lanes_le_def waiter_le_def)

lemma fold_pause_active_inv:
  "lanes_inv s \<Longrightarrow> \<forall>w\<in>set ws. w < l_next s \<and> w_state (l_objs s w) \<noteq> SWaiting \<Longrightarrow>
   lanes_inv (fold (pause_active env) ws s) \<and> lanes_le s (fold (pause_active env) ws s)"
proof (induction ws arbitrary: s)
  case (Cons w ws)
  let ?t = "pause_active env w s"
  have t: "lanes_inv ?t" "lanes_le s ?t"
    using pause_active_inv [OF Cons.prems(1)] Cons.prems(2) by auto
  have "\<forall>v\<in>set ws. v < l_next ?t \<and> w_state (l_objs ?t v) \<noteq> SWaiting"
    using Cons.prems(2) lanes_le_started [OF t(2)] by simp
  then show ?case
    using Cons.IH [OF t(1)] lanes_le_trans [OF t(2)] by simp
qed simp

lemma set_flag_inv: "lanes_inv s \<Longrightarrow> lanes_inv (s\<lparr>l_paused := b\<rparr>)"
  by (simp add: lanes_inv_defs held_locks_def)

lemma set_flag_settled: "settled s \<Longrightarrow> settled (s\<lparr>l_paused := b\<rparr>)"
  by (simp add: settled_def nested_settled_def held_locks_def nested_wants_def)

lemma set_flag_le: "lanes_le s (s\<lparr>l_paused := b\<rparr>)"
  by (simp add: lanes_le_def)

definition pause_withdraws :: "'p lanes \<Rightarrow> nat list" where
  "pause_withdraws s = filter (\<lambda>w. \<not> w_carries_on (l_objs s w))
     (l_waiting s @ filter (\<lambda>w. w_continuation (l_objs s w)) (l_nested s))"

lemma pause_withdraws_waiting:
  assumes inv: "lanes_inv s"
  shows "distinct (pause_withdraws s)"
    and "\<forall>w\<in>set (pause_withdraws s). w < l_next s \<and> w_state (l_objs s w) = SWaiting"
  using lanes_invD(2,3) [OF inv]
  by (auto simp: pause_withdraws_def lanes_invD(5,6) [OF inv])

lemma set_paused_eq:
  "set_paused env True s =
     (let s0 = s\<lparr>l_paused := True\<rparr>; s1 = fold withdraw_paused (pause_withdraws s0) s0
      in lanes_grant env (fold (pause_active env) (l_active s1) s1))"
  by (simp add: set_paused_def pause_withdraws_def Let_def)

lemma set_paused_mid:
  fixes s :: "'p lanes" and env :: "'p lane_env"
  assumes inv: "lanes_inv s"
  defines "s0 \<equiv> s\<lparr>l_paused := True\<rparr>"
  defines "s1 \<equiv> fold withdraw_paused (pause_withdraws s0) s0"
  defines "s2 \<equiv> fold (pause_active env) (l_active s1) s1"
  shows "lanes_inv s0" "lanes_inv s1" "lanes_inv s2" "lanes_le s0 s1" "lanes_le s1 s2" "lanes_le s s2"
proof -
  show 0: "lanes_inv s0" unfolding s0_def by (rule set_flag_inv [OF inv])
  show 1: "lanes_inv s1" and le1: "lanes_le s0 s1"
    unfolding s1_def using fold_withdraw_inv [OF 0 pause_withdraws_waiting [OF 0]] by auto
  have "\<forall>w\<in>set (l_active s1). w < l_next s1 \<and> w_state (l_objs s1 w) \<noteq> SWaiting"
    by (auto simp: lanes_invD(4) [OF 1])
  then show "lanes_inv s2" and le2: "lanes_le s1 s2"
    unfolding s2_def using fold_pause_active_inv [OF 1] by auto
  have "lanes_le s s0" unfolding s0_def by (rule set_flag_le)
  then show "lanes_le s s2" by (rule lanes_le_trans) (rule lanes_le_trans [OF le1 le2])
qed

lemma set_paused_ok:
  assumes ok: "lanes_ok s"
  shows "lanes_ok (set_paused env b s) \<and> lanes_le s (set_paused env b s)"
proof (cases b)
  case True
  note mid = set_paused_mid(3,6) [OF lanes_ok_inv [OF ok], of env]
  from True have b: "b = True" by simp
  show ?thesis
    unfolding b set_paused_eq Let_def
    using lanes_ok_grant [OF mid(1)] lanes_le_trans [OF mid(2) lanes_grant_le [OF mid(1)]] by blast
next
  case False
  with ok show ?thesis
    by (simp add: set_paused_def lanes_ok_def set_flag_inv set_flag_settled set_flag_le)
qed

section \<open>Admission\<close>

definition with_waiter :: "'p lane_admission \<Rightarrow> bool \<Rightarrow> 'p lanes \<Rightarrow> 'p lanes" where
  "with_waiter ad inside s = s\<lparr>l_objs := (l_objs s)(l_next s := new_waiter ad inside), l_next := Suc (l_next s)\<rparr>"

lemma new_waiter_fields [simp]:
  "w_state (new_waiter ad inside) = SWaiting" "w_granted (new_waiter ad inside) = Pending"
  "w_locks (new_waiter ad inside) = None" "w_refused (new_waiter ad inside) = None"
  "w_nested (new_waiter ad inside) \<longleftrightarrow> inside \<or> ad_continuation ad"
  "w_continuation (new_waiter ad inside) \<longleftrightarrow> \<not> inside \<and> ad_continuation ad"
  "w_carries_on (new_waiter ad inside) = ad_carries_on ad" "w_label (new_waiter ad inside) = ad_label ad"
  by (auto simp: new_waiter_def Let_def)

lemma old_ids:
  assumes "lanes_inv s"
  shows "l_next s \<notin> set (l_active s)" "l_next s \<notin> set (l_nested s)" "l_next s \<notin> set (l_waiting s)"
  by (simp_all add: lanes_invD(4-6) [OF assms])

lemma fresh_objs_sums:
  assumes inv: "lanes_inv s" and v: "\<And>v. v \<noteq> l_next s \<Longrightarrow> locks_in t v = locks_in s v"
  shows "locks_sum (locks_in t) (l_active s) = held_locks s"
    "locks_sum (locks_in t) (l_nested s) = nested_wants s"
    "line_blocked (locks_in t) H B (l_waiting s) = line_blocked (locks_in s) H B (l_waiting s)"
proof -
  note old = old_ids [OF inv]
  show "locks_sum (locks_in t) (l_active s) = held_locks s"
    unfolding held_locks_def by (rule locks_sum_cong) (use v old in metis)
  show "locks_sum (locks_in t) (l_nested s) = nested_wants s"
    unfolding nested_wants_def by (rule locks_sum_cong) (use v old in metis)
  show "line_blocked (locks_in t) H B (l_waiting s) = line_blocked (locks_in s) H B (l_waiting s)"
    by (rule line_blocked_cong) (use v old in metis)
qed

text \<open>Turned away as it arrives: the rest of the lanes is as it was.\<close>

lemma turned_away_ok:
  assumes ok: "lanes_ok s"
  shows "lanes_ok (lanes_reject (l_next s) e (with_waiter ad inside s))" (is "lanes_ok ?t")
proof -
  have inv: "lanes_inv s" by (rule lanes_ok_inv [OF ok])
  have f: "l_next ?t = Suc (l_next s)" "l_waiting ?t = l_waiting s" "l_nested ?t = l_nested s"
    "l_active ?t = l_active s" "l_held ?t = l_held s"
    by (simp_all add: lanes_reject_def upd_waiter_def with_waiter_def)
  have new: "w_state (l_objs ?t (l_next s)) = SDone" "w_granted (l_objs ?t (l_next s)) \<noteq> Pending"
    "locks_in ?t (l_next s) = None" "w_continuation (l_objs ?t (l_next s)) \<Longrightarrow> w_nested (l_objs ?t (l_next s))"
    by (simp_all add: lanes_reject_def upd_waiter_def with_waiter_def deferred_done_def)
  have old: "v \<noteq> l_next s \<Longrightarrow> l_objs ?t v = l_objs s v" for v
    by (simp add: lanes_reject_def upd_waiter_def with_waiter_def)
  have old_locks: "v \<noteq> l_next s \<Longrightarrow> locks_in ?t v = locks_in s v" for v
    by (simp add: old)
  note sums = fresh_objs_sums [OF inv old_locks]
  have h: "held_locks ?t = held_locks s" "nested_wants ?t = nested_wants s"
    using sums by (simp_all add: held_locks_def nested_wants_def f)
  have "queues_ok ?t"
    unfolding queues_ok_def f
    using lanes_invD(1-3) [OF inv] new(1) old by (auto simp: lanes_invD(4-6) [OF inv] less_Suc_eq)
  moreover have "waiters_ok ?t"
    using inv new old unfolding waiters_ok_def f lanes_inv_def Let_def by (auto simp: less_Suc_eq)
  moreover have "table_ok ?t"
    using lanes_invD(7,8) [OF inv] by (simp add: table_ok_def h f)
  moreover have "settled ?t"
  proof -
    have "locks_in ?t v = locks_in s v" if "v \<in> set (l_nested s)" for v
      using that old_ids(2) [OF inv] by (intro old_locks) auto
    then show ?thesis
      using ok by (simp add: lanes_ok_def settled_def nested_settled_def f h sums(3))
  qed
  ultimately show ?thesis by (simp add: lanes_ok_def lanes_inv_def)
qed

lemma with_waiter_le: "lanes_le s (with_waiter ad inside s)"
  by (simp add: lanes_le_def with_waiter_def)

lemma turned_away_le: "lanes_le s (lanes_reject (l_next s) e (with_waiter ad inside s))"
  by (simp add: lanes_le_def with_waiter_def lanes_reject_def upd_waiter_def)

text \<open>Queued: last in its queue, its locks known or still looked up.\<close>

definition queued :: "'p lane_admission \<Rightarrow> bool \<Rightarrow> 'p lanes \<Rightarrow> 'p lanes" where
  "queued ad inside s = enqueue (l_next s) ad (with_waiter ad inside s)"

lemma queued_fields [simp]:
  "l_next (queued ad inside s) = Suc (l_next s)" "l_active (queued ad inside s) = l_active s"
  "l_held (queued ad inside s) = l_held s" "l_paused (queued ad inside s) = l_paused s"
  "l_max_waiting (queued ad inside s) = l_max_waiting s" "l_starts (queued ad inside s) = l_starts s"
  "l_nested (queued ad inside s) = l_nested s @ (if inside \<or> ad_continuation ad then [l_next s] else [])"
  "l_waiting (queued ad inside s) = l_waiting s @ (if inside \<or> ad_continuation ad then [] else [l_next s])"
  by (simp_all add: queued_def enqueue_def upd_waiter_def with_waiter_def Let_def split: option.split)

lemma queued_new:
  "l_objs (queued ad inside s) (l_next s) =
     (new_waiter ad inside)\<lparr>w_locks := map_option normalize_locks (ad_locks ad)\<rparr>"
  by (simp add: queued_def enqueue_def upd_waiter_def with_waiter_def Let_def new_waiter_def split: option.split)

lemma queued_old: "v \<noteq> l_next s \<Longrightarrow> l_objs (queued ad inside s) v = l_objs s v"
  by (simp add: queued_def enqueue_def upd_waiter_def with_waiter_def Let_def split: option.split)

lemma queued_sums:
  assumes "lanes_inv s"
  shows "held_locks (queued ad inside s) = held_locks s"
    "locks_sum (locks_in (queued ad inside s)) (l_nested s) = nested_wants s"
    "line_blocked (locks_in (queued ad inside s)) H B (l_waiting s) = line_blocked (locks_in s) H B (l_waiting s)"
  using fresh_objs_sums [OF assms, of "queued ad inside s"] by (simp_all add: queued_old held_locks_def)

lemma queued_inv:
  assumes inv: "lanes_inv s"
  shows "lanes_inv (queued ad inside s)"
proof -
  let ?t = "queued ad inside s"
  have new: "w_state (l_objs ?t (l_next s)) = SWaiting" "w_granted (l_objs ?t (l_next s)) = Pending"
    "w_refused (l_objs ?t (l_next s)) = None"
    "w_nested (l_objs ?t (l_next s)) \<longleftrightarrow> inside \<or> ad_continuation ad"
    "w_continuation (l_objs ?t (l_next s)) \<longrightarrow> inside \<or> ad_continuation ad"
    "locks_in ?t (l_next s) = Some ls \<Longrightarrow> compatible (mset ls)" for ls
    by (auto simp: queued_new compatible_normalize_locks)
  note old = old_ids [OF inv]
  have "queues_ok ?t"
    unfolding queues_ok_def queued_fields
    using lanes_invD(1-3) [OF inv] old new(1,4) queued_old [of _ s ad inside]
    by (auto simp: lanes_invD(4-6) [OF inv] less_Suc_eq)
  moreover have "waiters_ok ?t"
    unfolding waiters_ok_def queued_fields Let_def
  proof (intro allI impI)
    fix v assume "v < Suc (l_next s)"
    then show "(w_granted (l_objs ?t v) = Pending) = (w_state (l_objs ?t v) = SWaiting) \<and>
         (w_state (l_objs ?t v) \<in> {SGranted, SRunning} \<longrightarrow>
          w_granted (l_objs ?t v) = Resolved \<and> locks_in ?t v \<noteq> None) \<and>
         (\<forall>ls. locks_in ?t v = Some ls \<longrightarrow> compatible (mset ls)) \<and>
         (w_state (l_objs ?t v) = SWaiting \<longrightarrow> w_refused (l_objs ?t v) = None) \<and>
         (w_continuation (l_objs ?t v) \<longrightarrow> w_nested (l_objs ?t v))"
      using inv new queued_old [of v s ad inside]
      by (cases "v = l_next s") (simp_all add: lanes_inv_def waiters_ok_def Let_def less_Suc_eq)
  qed
  moreover have "table_ok ?t"
    using lanes_invD(7,8) [OF inv] by (simp add: table_ok_def queued_sums(1) [OF inv])
  ultimately show ?thesis by (simp add: lanes_inv_def)
qed

lemma queued_le: "lanes_le s (queued ad inside s)"
  by (simp add: lanes_le_def queued_old)

text \<open>Where nothing in the queues may start, a grant changes nothing.\<close>

lemma grant_nested_skip:
  assumes inv: "lanes_inv s"
  shows "set ps \<subseteq> set (l_nested s) \<Longrightarrow>
     \<forall>w\<in>set ps. \<forall>ls. locks_in s w = Some ls \<longrightarrow> \<not> free_of (held_locks s) ls \<Longrightarrow>
     grant_nested env (table_of B) (ps @ ws) s =
       grant_nested env (table_of (B + locks_sum (locks_in s) ps)) ws s"
proof (induction ps arbitrary: B)
  case (Cons p ps)
  have "\<not> (\<exists>ls. w_locks (l_objs s p) = Some ls \<and> free_of (held_locks s) ls)"
    using Cons.prems(2) by auto
  then have "grant_nested env (table_of B) ((p # ps) @ ws) s =
      grant_nested env (take_locks (table_of B) (locks_or_none (l_objs s p))) (ps @ ws) s"
    using Cons.prems(1) by (simp add: grant_nested_Cons [OF inv] Let_def del: grant_nested.simps)
  also have "\<dots> = grant_nested env (table_of (B + mset (locks_or_none (l_objs s p)))) (ps @ ws) s"
    by (simp add: take_locks_table_of)
  also have "\<dots> = grant_nested env (table_of (B + mset (locks_or_none (l_objs s p)) + locks_sum (locks_in s) ps)) ws s"
    using Cons.prems by (intro Cons.IH) auto
  finally show ?case
    by (simp add: locks_or_none_def add.assoc)
qed simp

lemma grant_line_none:
  assumes inv: "lanes_inv s"
    and line: "line_blocked (locks_in s) (held_locks s) (nested_wants s) (l_waiting s)"
  shows "grant_line env s = s"
proof -
  have "line_granted env s = []" "line_dropped env s = []"
    unfolding line_granted_def line_dropped_def using line_blocked_none [OF line] by blast+
  then show ?thesis
    using lanes_invD(7) [OF inv] by (simp add: grant_line_def)
qed

lemma grant_settled_none:
  assumes inv: "lanes_inv s" and settled: "settled s"
  shows "lanes_grant env s = s"
proof -
  have "grant_nested env (table_of {#}) (l_nested s @ []) s =
      grant_nested env (table_of ({#} + locks_sum (locks_in s) (l_nested s))) [] s"
    by (rule grant_nested_skip [OF inv]) (use settled in \<open>auto simp: settled_def nested_settled_def\<close>)
  then have "grant_nested env Map.empty (l_nested s) s = (table_of (nested_wants s), s)"
    by (simp add: nested_wants_def)
  moreover have "grant_line env s = s"
    using grant_line_none [OF inv] settled by (simp add: settled_def)
  ultimately show ?thesis
    using grant_line_eq [OF inv, of env] by (simp add: lanes_grant_def)
qed

text \<open>
  A nested operation or continuation that still waits once it was queued changed nothing for
  the others: what was settled before stays as it was.
\<close>

lemma queued_nested_waits:
  assumes ok: "lanes_ok s" and nested: "inside \<or> ad_continuation ad"
    and waits: "w_state (l_objs (lanes_grant env (queued ad inside s)) (l_next s)) = SWaiting"
  shows "lanes_grant env (queued ad inside s) = queued ad inside s"
proof -
  let ?q = "queued ad inside s" and ?w = "l_next s"
  have inv: "lanes_inv s" and settled: "settled s" using ok by (simp_all add: lanes_ok_def)
  have qinv: "lanes_inv ?q" by (rule queued_inv [OF inv])
  have nq: "l_nested ?q = l_nested s @ [?w]" "l_waiting ?q = l_waiting s" using nested by auto
  have "locks_in ?q v = locks_in s v" if "v \<in> set (l_nested s)" for v
    using that old_ids(2) [OF inv] by (metis queued_old)
  then have old: "\<forall>v\<in>set (l_nested s). \<forall>ls. locks_in ?q v = Some ls \<longrightarrow> \<not> free_of (held_locks ?q) ls"
    using settled by (simp add: settled_def nested_settled_def queued_sums(1) [OF inv])
  have busy: "\<not> free_of (held_locks ?q) ls" if ls: "locks_in ?q ?w = Some ls" for ls
  proof
    assume free: "free_of (held_locks ?q) ls"
    obtain blocked s1 where g: "grant_nested env Map.empty (l_nested ?q) ?q = (blocked, s1)"
      by (cases "grant_nested env Map.empty (l_nested ?q) ?q")
    have qw: "?w < l_next ?q" "w_state (l_objs ?q ?w) = SWaiting" by (simp_all add: queued_new)
    have "grant_nested env (table_of {#}) (l_nested s @ [?w]) ?q =
        grant_nested env (table_of ({#} + locks_sum (locks_in ?q) (l_nested s))) [?w] ?q"
      by (rule grant_nested_skip [OF qinv]) (use old nq in auto)
    then have "grant_nested env (table_of (locks_sum (locks_in ?q) (l_nested s))) [?w] ?q = (blocked, s1)"
      using g [unfolded nq] by (simp del: grant_nested.simps)
    moreover have wq: "?w \<in> set (l_nested ?q)" unfolding nq(1) by simp
    ultimately have "s1 = grant_waiter ?w ?q \<or> (\<exists>d. s1 = end_waiter ?w d ?q)"
      using ls free by (auto simp: grant_nested_Cons [OF qinv wq] Let_def simp del: grant_nested.simps(2)
          queued_fields split: if_splits)
    then have started: "w_state (l_objs s1 ?w) \<noteq> SWaiting"
      by (auto simp: grant_waiter_def end_waiter_def lanes_start_def upd_waiter_def)
    note s1 = lanes_grant_line [OF qinv g]
    have "?w < l_next s1"
      using s1(3) by (simp add: grant_frame_def)
    then show False
      using lanes_le_started [OF grant_frame_le [OF s1(2) grant_line_frame [OF s1(2)]]] started waits
      unfolding s1(1) by blast
  qed
  have "nested_settled ?q"
    using old busy by (auto simp: nested_settled_def nq simp del: queued_fields)
  moreover have "line_blocked (locks_in ?q) (held_locks ?q) (nested_wants ?q) (l_waiting ?q)"
  proof -
    have "line_blocked (locks_in ?q) (held_locks s) (nested_wants s) (l_waiting s)"
      using settled by (simp add: queued_sums(3) [OF inv] settled_def)
    moreover have "nested_wants s \<subseteq># nested_wants ?q"
      using queued_sums(2) [OF inv, of ad inside] by (simp add: nested_wants_def nq)
    ultimately show ?thesis
      unfolding nq queued_sums(1) [OF inv] using line_blocked_mono [OF _ subset_mset.order_refl] by blast
  qed
  ultimately show ?thesis
    using grant_settled_none [OF qinv] by (simp add: settled_def)
qed

text \<open>Turned away as busy: what was ahead of it in its queue has its reasons still.\<close>

lemma end_waiter_settled:
  assumes inv: "lanes_inv s" and w: "w < l_next s" "w_state (l_objs s w) = SWaiting"
    and nested: "nested_settled (end_waiter w d s)"
    and line: "line_blocked (locks_in s) (held_locks s) (nested_wants (end_waiter w d s)) (remove1 w (l_waiting s))"
  shows "settled (end_waiter w d s)"
  using nested line end_waiter_queues [OF inv w, of d] by (simp add: settled_def)

lemma refuse_busy_settled:
  assumes ok: "lanes_ok s"
    and waits: "w_state (l_objs (lanes_grant env (queued ad inside s)) (l_next s)) = SWaiting"
  shows "settled (end_waiter (l_next s) d (lanes_grant env (queued ad inside s)))" (is "settled (end_waiter ?w d ?t)")
proof -
  have inv: "lanes_inv s" and settled: "settled s" using ok by (simp_all add: lanes_ok_def)
  have qinv: "lanes_inv (queued ad inside s)" by (rule queued_inv [OF inv])
  note t = lanes_grant_inv [OF qinv, of env] lanes_grant_settled [OF qinv, of env] lanes_grant_frame [OF qinv, of env]
  have w: "?w < l_next ?t" using t(3) by (simp add: grant_frame_def)
  show ?thesis
  proof (cases "inside \<or> ad_continuation ad")
    case True
    have q: "?t = queued ad inside s" by (rule queued_nested_waits [OF ok True waits])
    have nested: "l_nested (end_waiter ?w d ?t) = l_nested s"
      using end_waiter_queues(1) [OF t(1) w waits, of d] True old_ids(2) [OF inv] by (simp add: q)
    have old: "locks_in ?t v = locks_in s v" if "v \<in> set (l_nested s)" for v
      using that old_ids(2) [OF inv] unfolding q by (metis queued_old)
    have "nested_settled (end_waiter ?w d ?t)"
      using settled old unfolding nested_settled_def nested end_waiter_fields
      by (simp add: q queued_sums(1) [OF inv] settled_def nested_settled_def)
    moreover have "nested_wants (end_waiter ?w d ?t) = nested_wants s"
      unfolding nested_wants_def nested end_waiter_fields by (rule locks_sum_cong) (rule old)
    ultimately show ?thesis
      using settled True old_ids(3) [OF inv] queued_sums [OF inv]
      by (intro end_waiter_settled [OF t(1) w waits]) (simp_all add: q settled_def remove1_idem)
  next
    case False
    have "\<not> w_nested (l_objs ?t ?w)"
      using grant_frame_static [OF t(3), of ?w] False by (simp add: same_static_def queued_new)
    then have mem: "?w \<in> set (l_waiting ?t)" and nmem: "?w \<notin> set (l_nested ?t)"
      using w waits by (simp_all add: lanes_invD(5,6) [OF t(1)])
    have "subseq (l_waiting ?t) (l_waiting s @ [?w])"
      using t(3) False by (simp add: grant_frame_def)
    then obtain vs us where vs: "l_waiting ?t = vs @ us" "subseq vs (l_waiting s)" "subseq us [?w]"
      by (auto simp: subseq_append_iff)
    have "?w \<notin> set vs" using vs(2) old_ids(3) [OF inv] by (metis subseq_order.trans subseq_singleton_left)
    then have "subseq [?w] us" using mem vs(1) by (simp add: subseq_singleton_left)
    with vs(3) have us: "us = [?w]" by (rule subseq_order.antisym)
    have line: "remove1 ?w (l_waiting ?t) = vs"
      using \<open>?w \<notin> set vs\<close> by (simp add: vs(1) us)
    have nested: "l_nested (end_waiter ?w d ?t) = l_nested ?t"
      using end_waiter_queues(1) [OF t(1) w waits, of d] nmem by (simp add: remove1_idem)
    have "nested_settled (end_waiter ?w d ?t)"
      using t(2) unfolding nested_settled_def nested end_waiter_fields by (simp add: settled_def nested_settled_def)
    moreover have "nested_wants (end_waiter ?w d ?t) = nested_wants ?t"
      unfolding nested_wants_def nested by simp
    moreover have "line_blocked (locks_in ?t) (held_locks ?t) (nested_wants ?t) vs"
      using t(2) line_blocked_prefix unfolding settled_def vs(1) by blast
    ultimately show ?thesis
      by (intro end_waiter_settled [OF t(1) w waits]) (simp_all add: line)
  qed
qed

text \<open>What an admission comes to, by its branches.\<close>

lemma lanes_admit_cases:
  obtains (turned_away) e where "lanes_admit env ad inside s = (lanes_reject (l_next s) e (with_waiter ad inside s), l_next s)"
      "\<not> inside" "e = paused_error s (new_waiter ad inside) \<and> l_paused s \<and> \<not> ad_carries_on ad \<or>
        e = lane_error RBusy (l_busy_message s) \<and> l_max_waiting s \<le> waiting_on_their_own (with_waiter ad inside s)"
  | (kept) "lanes_admit env ad inside s = (lanes_grant env (queued ad inside s), l_next s)"
      "inside \<or> \<not> l_paused s \<or> ad_carries_on ad" "inside \<or> waiting_on_their_own (with_waiter ad inside s) < l_max_waiting s"
  | (refused) d where "d \<noteq> Pending"
      "lanes_admit env ad inside s = (end_waiter (l_next s) d (lanes_grant env (queued ad inside s)), l_next s)"
      "w_state (l_objs (lanes_grant env (queued ad inside s)) (l_next s)) = SWaiting"
      "inside \<or> \<not> l_paused s \<or> ad_carries_on ad" "inside \<or> waiting_on_their_own (with_waiter ad inside s) < l_max_waiting s"
proof -
  let ?s0 = "with_waiter ad inside s" and ?t = "lanes_grant env (queued ad inside s)"
  have f: "l_paused ?s0 = l_paused s" "l_max_waiting ?s0 = l_max_waiting s" "l_busy_message ?s0 = l_busy_message s"
    "paused_error ?s0 x = paused_error s x" for x
    by (simp_all add: with_waiter_def paused_error_def)
  have eq: "lanes_admit env ad inside s =
    (if \<not> inside \<and> l_paused s \<and> \<not> ad_carries_on ad
     then (lanes_reject (l_next s) (paused_error s (new_waiter ad inside)) ?s0, l_next s)
     else if \<not> inside \<and> waiting_on_their_own ?s0 \<ge> l_max_waiting s
     then (lanes_reject (l_next s) (lane_error RBusy (l_busy_message s)) ?s0, l_next s)
     else case ad_when_busy ad of
         None \<Rightarrow> (?t, l_next s)
       | Some decide \<Rightarrow>
           if w_state (l_objs ?t (l_next s)) \<noteq> SWaiting then (?t, l_next s)
           else let way = in_the_way (l_next s) (if inside \<or> ad_continuation ad then l_nested ?t else l_waiting ?t) ?t
                in if decide way = Refuse then (refuse_busy (l_next s) way ?t, l_next s) else (?t, l_next s))"
    unfolding lanes_admit_def Let_def with_waiter_def [symmetric] queued_def [symmetric]
    by (simp only: f new_waiter_fields)
  have busy: "\<exists>d. d \<noteq> Pending \<and> refuse_busy (l_next s) way ?t = end_waiter (l_next s) d ?t" for way
    by (auto simp: refuse_busy_def Let_def lanes_reject_remove)
  show thesis
  proof (cases "\<not> inside \<and> (l_paused s \<and> \<not> ad_carries_on ad \<or> l_max_waiting s \<le> waiting_on_their_own ?s0)")
    case True
    show thesis
    proof (cases "l_paused s \<and> \<not> ad_carries_on ad")
      case True
      with \<open>\<not> inside \<and> _\<close> show thesis
        by (intro turned_away [of "paused_error s (new_waiter ad inside)"]; (unfold eq)?; simp)
    next
      case False
      with \<open>\<not> inside \<and> _\<close> show thesis
        by (intro turned_away [of "lane_error RBusy (l_busy_message s)"]; (unfold eq)?; auto)
    qed
  next
    case False
    have "fst (lanes_admit env ad inside s) = ?t \<or> w_state (l_objs ?t (l_next s)) = SWaiting \<and>
        (\<exists>way. fst (lanes_admit env ad inside s) = refuse_busy (l_next s) way ?t)"
    proof -
      define t where "t = ?t"
      define queue where "queue = (if inside \<or> ad_continuation ad then l_nested t else l_waiting t)"
      have "\<not> (\<not> inside \<and> l_paused s \<and> \<not> ad_carries_on ad)"
        and "\<not> (\<not> inside \<and> waiting_on_their_own ?s0 \<ge> l_max_waiting s)"
        using False by auto
      note branch = eq [unfolded if_not_P [OF this(1)] if_not_P [OF this(2)], folded t_def, folded queue_def]
      show ?thesis
        unfolding branch t_def [symmetric]
        by (cases "ad_when_busy ad"; cases "w_state (l_objs t (l_next s)) = SWaiting") (auto simp: Let_def)
    qed
    then consider "fst (lanes_admit env ad inside s) = ?t"
      | d where "d \<noteq> Pending" "w_state (l_objs ?t (l_next s)) = SWaiting" "fst (lanes_admit env ad inside s) = end_waiter (l_next s) d ?t"
      using busy by metis
    moreover have "snd (lanes_admit env ad inside s) = l_next s"
      by (simp add: eq Let_def split: option.split)
    ultimately show thesis
      using False kept refused by (auto simp: prod_eq_iff not_le)
  qed
qed

lemma lanes_admit_ok:
  assumes ok: "lanes_ok s"
  shows "lanes_ok (fst (lanes_admit env ad inside s)) \<and> lanes_le s (fst (lanes_admit env ad inside s))"
proof (cases rule: lanes_admit_cases [of env ad inside s])
  case (turned_away e)
  then show ?thesis by (simp add: turned_away_ok [OF ok] turned_away_le)
next
  case kept
  have q: "lanes_inv (queued ad inside s)" by (rule queued_inv [OF lanes_ok_inv [OF ok]])
  show ?thesis
    unfolding kept fst_conv using lanes_ok_grant [OF q] lanes_le_trans [OF queued_le lanes_grant_le [OF q]] by blast
next
  case (refused d)
  have q: "lanes_inv (queued ad inside s)" by (rule queued_inv [OF lanes_ok_inv [OF ok]])
  note t = lanes_grant_inv [OF q, of env]
  have w: "l_next s < l_next (lanes_grant env (queued ad inside s))"
    using lanes_grant_frame [OF q, of env] by (simp add: grant_frame_def)
  have "lanes_ok (end_waiter (l_next s) d (lanes_grant env (queued ad inside s)))"
    using end_waiter_inv [OF t w refused(3,1)] refuse_busy_settled [OF ok refused(3)] by (simp add: lanes_ok_def)
  then show ?thesis
    unfolding refused(2) fst_conv
    using lanes_le_trans [OF queued_le lanes_le_trans [OF lanes_grant_le [OF q] end_waiter_le [OF t w refused(3)]]] by blast
qed

section \<open>Every step\<close>

lemma settle_lookup_le:
  assumes inv: "lanes_inv s" and w: "w < l_next s"
    and fresh: "w_state (l_objs s w) = SWaiting \<Longrightarrow> locks_in s w = None"
  shows "lanes_le s (settle_lookup env w result s)"
proof (cases "w_state (l_objs s w) = SWaiting")
  case True
  let ?known = "\<lambda>locks. upd_waiter w (\<lambda>x. x\<lparr>w_locks := Some (normalize_locks locks)\<rparr>) s"
  have "lanes_le s (?known locks)" for locks
    using fresh [OF True] by (simp add: lanes_le_def upd_waiter_def waiter_le_def)
  then have known: "lanes_le s (lanes_grant env (?known locks))" for locks
    by (rule lanes_le_trans) (rule lanes_grant_le [OF lookup_known_inv [OF inv w True]])
  have died: "lanes_le s (lanes_grant env (end_waiter w (Died cause) s))" for cause
    using lanes_le_trans [OF end_waiter_le [OF inv w True] lanes_grant_le]
      end_waiter_inv [OF inv w True] by blast
  show ?thesis
    using True known died
    by (simp add: settle_lookup_def flip: end_waiter_def split: sum.split)
next
  case False
  then show ?thesis by (simp add: settle_lookup_def)
qed

lemma lanes_step_ok: "lanes_step s t \<Longrightarrow> lanes_ok s \<Longrightarrow> lanes_ok t"
proof (induction rule: lanes_step.induct)
  case (step_finish w s env)
  then show ?case by (intro lanes_release_ok) simp_all
qed (simp_all add: lanes_admit_ok settle_lookup_ok lanes_begin_ok lanes_cancel_ok set_paused_ok)

lemma lanes_step_le: "lanes_step s t \<Longrightarrow> lanes_ok s \<Longrightarrow> lanes_le s t"
proof (induction rule: lanes_step.induct)
  case (step_settle w s env result)
  then show ?case using settle_lookup_le [OF lanes_ok_inv] by blast
next
  case (step_begin w s r t)
  then show ?case using same_lanes_le lanes_begin_same by blast
next
  case (step_finish w s env)
  then show ?case using lanes_release_inv [OF lanes_ok_inv, of s w env] by simp
next
  case (step_cancel w s env)
  then show ?case using lanes_cancel_le [OF lanes_ok_inv] by blast
qed (simp_all add: lanes_admit_ok set_paused_ok)

interpretation lanes_run: invariant_system "new_lanes opts" lanes_step lanes_ok
proof
  show "lanes_ok (new_lanes opts)"
    by (simp add: lanes_ok_def lanes_inv_new settled_new)
qed (auto intro: lanes_step_ok)

end
