(* ===== verification/Lanes_Props.thy ===== *)
theory Lanes_Props
  imports Lanes_Life
begin

text \<open>
  What the lanes promise, over every reachable state: operations that run together never
  clash, whatever waits has a reason it can name, a withdrawn operation never runs, a pause
  stops what has not started, and the generation of a resource tells whether anything
  replaced it.
\<close>

section \<open>Quiet changes\<close>

text \<open>Every method but an admission and a run's start only shortens the queues.\<close>

definition quiet :: "'p lanes \<Rightarrow> 'p lanes \<Rightarrow> bool" where
  "quiet s t \<longleftrightarrow>
     l_starts t = l_starts s \<and> l_max_waiting t = l_max_waiting s \<and> l_next t = l_next s \<and>
     subseq (l_nested t) (l_nested s) \<and> subseq (l_waiting t) (l_waiting s) \<and>
     (\<forall>v. (w_state (l_objs t v) = SRunning \<longrightarrow> w_state (l_objs s v) = SRunning) \<and>
          w_continuation (l_objs t v) = w_continuation (l_objs s v) \<and>
          w_carries_on (l_objs t v) = w_carries_on (l_objs s v))"

lemma quiet_refl [simp]: "quiet s s"
  by (simp add: quiet_def)

lemma quiet_trans: "quiet s t \<Longrightarrow> quiet t u \<Longrightarrow> quiet s u"
  unfolding quiet_def by (auto intro: subseq_order.trans)

lemma quiet_upd:
  "(\<And>x. (w_state (f x) = SRunning \<longrightarrow> w_state x = SRunning) \<and> w_continuation (f x) = w_continuation x \<and>
     w_carries_on (f x) = w_carries_on x) \<Longrightarrow> quiet s (upd_waiter w f s)"
  by (simp add: quiet_def upd_waiter_def)

lemma quiet_remove: "quiet s (lanes_remove w s)"
  by (simp add: quiet_def lanes_remove_def subseq_remove1)

lemma quiet_reject: "quiet s (lanes_reject w e s)"
  unfolding lanes_reject_def by (rule quiet_upd) simp

lemma quiet_start: "quiet s (lanes_start w s)"
  by (simp add: lanes_start_def quiet_def upd_waiter_def)

lemma quiet_fold: "(\<And>w s. quiet s (f w s)) \<Longrightarrow> quiet s (fold f ws s)"
  by (induction ws arbitrary: s) (auto intro: quiet_trans)

lemma quiet_note_refused: "quiet s (note_refused env w s)"
  unfolding note_refused_def Let_def by (auto intro: quiet_upd)

lemma quiet_reject_dropped: "quiet s (reject_dropped w s)"
  unfolding reject_dropped_def Let_def by (auto intro: quiet_reject split: option.split)

lemma quiet_held: "quiet (s\<lparr>l_held := h\<rparr>) t \<longleftrightarrow> quiet s t"
  by (simp add: quiet_def)

lemma quiet_grant_nested: "grant_nested env b ws s = (b', t) \<Longrightarrow> quiet s t"
proof (induction ws arbitrary: b s)
  case (Cons w ws)
  have nested: "quiet s (s\<lparr>l_nested := remove1 w (l_nested s), l_held := h\<rparr>)" for s :: "'a lanes" and h
    by (simp add: quiet_def subseq_remove1)
  have nested': "quiet s (s\<lparr>l_nested := remove1 w (l_nested s)\<rparr>)" for s :: "'a lanes"
    by (simp add: quiet_def subseq_remove1)
  note steps = quiet_trans [OF nested quiet_start] quiet_trans [OF nested' quiet_reject]
  show ?case
    using Cons.prems quiet_trans [OF steps(1) Cons.IH] quiet_trans [OF steps(2) Cons.IH] Cons.IH
    by (auto simp: Let_def split: option.splits if_splits)
qed simp

lemma quiet_grant: "quiet s (lanes_grant env s)"
proof -
  obtain b s1 where g: "grant_nested env Map.empty (l_nested s) s = (b, s1)"
    by (cases "grant_nested env Map.empty (l_nested s) s")
  obtain r h where r: "select_grants (line_admits env s1) (\<lambda>w. w_locks (l_objs s1 w)) (l_held s1) b (l_waiting s1) = (r, h)"
    by (cases "select_grants (line_admits env s1) (\<lambda>w. w_locks (l_objs s1 w)) (l_held s1) b (l_waiting s1)")
  have "quiet s1 (s1\<lparr>l_held := h\<rparr>)" by (simp add: quiet_def)
  note q = quiet_trans [OF quiet_trans [OF quiet_grant_nested [OF g] this]]
  show ?thesis
    unfolding lanes_grant_def g r Let_def prod.case
    by (rule q, rule quiet_trans [OF quiet_fold [OF quiet_note_refused]], rule quiet_trans [OF quiet_fold [OF quiet_remove]],
        rule quiet_trans [OF quiet_fold [OF quiet_reject_dropped]], rule quiet_fold [OF quiet_start])
qed

lemma quiet_release: "quiet s (lanes_release env w s)"
proof -
  have "quiet s (release_waiter w s)" by (simp add: quiet_def release_waiter_def upd_waiter_def)
  then show ?thesis by (simp add: lanes_release_eq quiet_trans [OF _ quiet_grant])
qed

lemma quiet_end: "quiet s (end_waiter w d s)"
  unfolding end_waiter_def by (rule quiet_trans [OF quiet_remove]) (rule quiet_upd, simp)

lemma quiet_cancel: "quiet s (fst (lanes_cancel env w s))"
  by (simp add: lanes_cancel_def lanes_reject_remove quiet_release quiet_trans [OF quiet_end quiet_grant])

lemma quiet_settle: "quiet s (settle_lookup env w result s)"
proof -
  have "quiet s (upd_waiter w (\<lambda>x. x\<lparr>w_locks := Some (normalize_locks locks)\<rparr>) s)" for locks
    by (rule quiet_upd) simp
  then have known: "quiet s (lanes_grant env (upd_waiter w (\<lambda>x. x\<lparr>w_locks := Some (normalize_locks locks)\<rparr>) s))" for locks
    by (rule quiet_trans) (rule quiet_grant)
  have "quiet s (lanes_grant env (end_waiter w d s))" for d
    by (rule quiet_trans [OF quiet_end quiet_grant])
  with known show ?thesis
    by (simp add: settle_lookup_def flip: end_waiter_def split: sum.split)
qed

lemma quiet_pause_active: "quiet s (pause_active env w s)"
  unfolding pause_active_def Let_def
  by (auto intro!: quiet_trans [OF quiet_upd quiet_release])

lemma quiet_pause: "quiet s (set_paused env b s)"
proof -
  let ?s0 = "s\<lparr>l_paused := b\<rparr>"
  have s0: "quiet s ?s0" by (simp add: quiet_def)
  have "quiet s (withdraw_paused w s)" for w and s :: "'a lanes"
    by (simp add: withdraw_paused_end quiet_end)
  then have 1: "quiet s (fold withdraw_paused ws ?s0)" for ws
    by (intro quiet_trans [OF s0] quiet_fold)
  have 2: "quiet s (fold (pause_active env) vs (fold withdraw_paused ws ?s0))" for vs ws
    by (rule quiet_trans [OF 1]) (rule quiet_fold, rule quiet_pause_active)
  have "quiet s (lanes_grant env (fold (pause_active env) vs (fold withdraw_paused ws ?s0)))" for vs ws
    by (rule quiet_trans [OF 2 quiet_grant])
  with s0 show ?thesis
    by (cases b) (simp_all add: set_paused_eq Let_def, simp add: set_paused_def)
qed

section \<open>How much may wait\<close>

definition waiting_bounded :: "'p lanes \<Rightarrow> bool" where
  "waiting_bounded s \<longleftrightarrow> waiting_on_their_own s \<le> l_max_waiting s"

lemma subseq_filter_length: "subseq xs ys \<Longrightarrow> length (filter P xs) \<le> length (filter P ys)"
  by (rule list_emb_length [OF subseq_filter])

lemma quiet_waiting: "quiet s t \<Longrightarrow> waiting_on_their_own t \<le> waiting_on_their_own s"
  unfolding waiting_on_their_own_def quiet_def
  by (intro add_mono) (auto intro: list_emb_length subseq_filter_length)

lemma quiet_bounded: "quiet s t \<Longrightarrow> waiting_bounded s \<Longrightarrow> waiting_bounded t"
  using quiet_waiting [of s t] by (auto simp: waiting_bounded_def quiet_def)

lemma fresh_waiting:
  assumes inv: "lanes_inv s" and v: "\<And>v. v \<noteq> l_next s \<Longrightarrow> l_objs t v = l_objs s v"
    and q: "l_waiting t = l_waiting s @ ws" "l_nested t = l_nested s @ ns"
  shows "waiting_on_their_own t = waiting_on_their_own s + length ws +
    length (filter (\<lambda>w. w_continuation (l_objs t w)) ns)"
proof -
  have "filter (\<lambda>w. w_continuation (l_objs t w)) (l_nested s) = filter (\<lambda>w. w_continuation (l_objs s w)) (l_nested s)"
    using old_ids(2) [OF inv] by (intro filter_cong) (metis v)+
  then show ?thesis by (simp add: waiting_on_their_own_def q)
qed

lemma admit_bounded:
  assumes ok: "lanes_ok s" and b: "waiting_bounded s"
  shows "waiting_bounded (fst (lanes_admit env ad inside s))"
proof -
  note inv = lanes_ok_inv [OF ok]
  have wth: "waiting_on_their_own (with_waiter ad inside s) = waiting_on_their_own s"
    using fresh_waiting [OF inv, of "with_waiter ad inside s" "[]" "[]"] by (simp add: with_waiter_def)
  have q: "waiting_on_their_own (queued ad inside s) \<le> (if inside then waiting_on_their_own s else Suc (waiting_on_their_own s))"
    using fresh_waiting [OF inv, of "queued ad inside s"] by (auto simp: queued_old queued_new)
  have queued: "waiting_bounded (queued ad inside s)"
    if "inside \<or> waiting_on_their_own (with_waiter ad inside s) < l_max_waiting s"
    using that q b by (auto simp: waiting_bounded_def wth split: if_splits)
  show ?thesis
  proof (cases rule: lanes_admit_cases [of env ad inside s])
    case (turned_away e)
    have "waiting_bounded (with_waiter ad inside s)"
      using b by (simp add: waiting_bounded_def wth) (simp add: with_waiter_def)
    then show ?thesis
      unfolding turned_away fst_conv by (rule quiet_bounded [OF quiet_reject])
  next
    case kept
    then show ?thesis by (simp add: quiet_bounded [OF quiet_grant queued])
  next
    case (refused d)
    then show ?thesis by (simp add: quiet_bounded [OF quiet_trans [OF quiet_grant quiet_end] queued])
  qed
qed

lemma foldl_count_start_max: "l_max_waiting (foldl count_start s ls) = l_max_waiting s"
  by (induction ls arbitrary: s) (simp_all add: count_start_def)

lemma begin_bounded: "lanes_begin w s = Some (r, t) \<Longrightarrow> waiting_bounded s \<Longrightarrow> waiting_bounded t"
proof -
  assume b: "lanes_begin w s = Some (r, t)" and "waiting_bounded s"
  have "waiting_on_their_own t = waiting_on_their_own s"
    using lanes_begin_same [OF b]
    by (simp add: waiting_on_their_own_def same_lanes_def same_waiter_def same_static_def)
  moreover have "l_max_waiting t = l_max_waiting s"
    using b by (auto simp: lanes_begin_def Let_def foldl_count_start_max upd_waiter_def split: deferred.splits if_splits)
  ultimately show ?thesis using \<open>waiting_bounded s\<close> by (simp add: waiting_bounded_def)
qed

lemma step_bounded: "lanes_step s t \<Longrightarrow> lanes_ok s \<Longrightarrow> waiting_bounded s \<Longrightarrow> waiting_bounded t"
proof (induction rule: lanes_step.induct)
  case (step_settle w s env result)
  then show ?case by (blast intro: quiet_bounded quiet_settle)
next
  case (step_finish w s env)
  then show ?case by (blast intro: quiet_bounded quiet_release)
next
  case (step_cancel w s env)
  then show ?case by (blast intro: quiet_bounded quiet_cancel)
next
  case (step_pause s env b)
  then show ?case by (blast intro: quiet_bounded quiet_pause)
qed (simp_all add: admit_bounded begin_bounded)

interpretation lanes_bound: invariant_system "new_lanes opts" lanes_step "\<lambda>s. lanes_ok s \<and> waiting_bounded s"
proof
  show "lanes_ok (new_lanes opts) \<and> waiting_bounded (new_lanes opts)"
    using lanes_run.inv_start by (simp add: waiting_bounded_def waiting_on_their_own_def new_lanes_def)
qed (use lanes_step_ok step_bounded in blast)

section \<open>Starting a run\<close>

interpretation starts: generation_counter exclusive_generation "\<lambda>k s. count_start s (exclusive k)"
  by unfold_locales (simp_all add: exclusive_generation_def count_start_def)

lemma foldl_count_start_generation:
  "exclusive_generation (foldl count_start s ls) k = exclusive_generation s k + count_list ls (exclusive k)"
proof (induction ls arbitrary: s)
  case (Cons l ls)
  show ?case
    by (cases l rule: lane_lock_cases)
      (use Cons.IH [of "count_start s l"] starts.current_advance starts.current_advance_other
        in \<open>auto simp: count_start_def exclusive_generation_def\<close>)
qed simp

lemma compatible_count: "compatible (mset ls) \<Longrightarrow> count_list ls (exclusive k) = (if exclusive k \<in> set ls then 1 else 0)"
proof (induction ls)
  case (Cons l ls)
  then show ?case using compatible_exclusive [of l "mset ls"] by (auto simp: compatible_add)
qed simp

lemma foldl_count_start_objs: "l_objs (foldl count_start s ls) = l_objs s"
  by (induction ls arbitrary: s) (simp_all add: count_start_def)

lemma lanes_begin_started:
  "lanes_begin w s = Some (Inr u, t) \<longleftrightarrow>
     w_granted (l_objs s w) = Resolved \<and> w_state (l_objs s w) = SGranted \<and>
     t = foldl count_start (upd_waiter w (\<lambda>x. x\<lparr>w_state := SRunning\<rparr>) s) (locks_or_none (l_objs s w))"
  by (auto simp: lanes_begin_def Let_def split: deferred.split)

lemma lanes_begin_failed: "lanes_begin w s = Some (Inl e, t) \<Longrightarrow> t = s"
  by (auto simp: lanes_begin_def Let_def split: deferred.splits if_splits)

lemma lanes_begin_effect:
  assumes inv: "lanes_inv s" and w: "w < l_next s" and b: "lanes_begin w s = Some (Inr u, t)"
  shows "exclusive_generation t k =
      exclusive_generation s k + (if exclusive k \<in> set (locks_or_none (l_objs s w)) then 1 else 0)"
    and "w_state (l_objs t v) = (if v = w then SRunning else w_state (l_objs s v))"
proof -
  have c: "compatible (mset (locks_or_none (l_objs s w)))"
    using lanes_inv_locks [OF inv w] by (simp add: locks_or_none_def split: option.split)
  have t: "t = foldl count_start (upd_waiter w (\<lambda>x. x\<lparr>w_state := SRunning\<rparr>) s) (locks_or_none (l_objs s w))"
    using b by (simp add: lanes_begin_started)
  show "exclusive_generation t k =
      exclusive_generation s k + (if exclusive k \<in> set (locks_or_none (l_objs s w)) then 1 else 0)"
    unfolding t foldl_count_start_generation compatible_count [OF c]
    by (simp add: exclusive_generation_def upd_waiter_def)
  show "w_state (l_objs t v) = (if v = w then SRunning else w_state (l_objs s v))"
    unfolding t foldl_count_start_objs by (simp add: upd_waiter_def)
qed

definition starts_holding :: "'p lanes \<Rightarrow> 'p lanes \<Rightarrow> string \<Rightarrow> nat \<Rightarrow> bool" where
  "starts_holding s t k w \<longleftrightarrow> w_state (l_objs s w) \<noteq> SRunning \<and> w_state (l_objs t w) = SRunning \<and>
     exclusive k \<in> set (locks_or_none (l_objs s w))"

definition nothing_started :: "'p lanes \<Rightarrow> 'p lanes \<Rightarrow> string \<Rightarrow> bool" where
  "nothing_started s t k \<longleftrightarrow>
     exclusive_generation t k = exclusive_generation s k \<and> (\<nexists>w. starts_holding s t k w)"

lemma quiet_nothing_started:
  assumes "quiet u t" and "l_starts u = l_starts s"
    and "\<And>v. w_state (l_objs u v) = SRunning \<Longrightarrow> w_state (l_objs s v) = SRunning"
  shows "nothing_started s t k"
  using assms by (auto simp: quiet_def exclusive_generation_def starts_holding_def nothing_started_def)

lemma queued_state:
  "w_state (l_objs (queued ad inside s) v) = (if v = l_next s then SWaiting else w_state (l_objs s v))"
  by (simp add: queued_new queued_old)

lemma quiet_generation: "quiet s t \<Longrightarrow> nothing_started s t k"
  by (rule quiet_nothing_started) simp_all

lemma admit_generation: "nothing_started s (fst (lanes_admit env ad inside s)) k"
proof (cases rule: lanes_admit_cases [of env ad inside s])
  case (turned_away e)
  show ?thesis
    unfolding turned_away fst_conv
    by (rule quiet_nothing_started [OF quiet_reject]) (auto simp: with_waiter_def split: if_splits)
next
  case kept
  show ?thesis
    unfolding kept fst_conv
    by (rule quiet_nothing_started [OF quiet_grant]) (simp_all add: queued_state split: if_splits)
next
  case (refused d)
  show ?thesis
    unfolding refused fst_conv
    by (rule quiet_nothing_started [OF quiet_trans [OF quiet_grant quiet_end]]) (simp_all add: queued_state split: if_splits)
qed

lemma generation_same:
  "nothing_started s t k \<Longrightarrow>
   exclusive_generation t k = exclusive_generation s k + (if \<exists>w. starts_holding s t k w then 1 else 0)"
  by (simp add: nothing_started_def)

lemma step_generation:
  "lanes_step s t \<Longrightarrow> lanes_ok s \<Longrightarrow>
   exclusive_generation t k = exclusive_generation s k + (if \<exists>w. starts_holding s t k w then 1 else 0)"
proof (induction rule: lanes_step.induct)
  case (step_begin w s r t)
  show ?case
  proof (cases r)
    case (Inl e)
    with step_begin show ?thesis
      using lanes_begin_failed [of w s e t] by (simp add: starts_holding_def)
  next
    case (Inr u)
    note e = lanes_begin_effect [OF lanes_ok_inv [OF step_begin.prems] step_begin.hyps(1) step_begin.hyps(2) [unfolded Inr]]
    have "w_state (l_objs s w) = SGranted"
      using step_begin.hyps(2) Inr by (simp add: lanes_begin_started)
    then have "(\<exists>v. starts_holding s t k v) \<longleftrightarrow> exclusive k \<in> set (locks_or_none (l_objs s w))"
      by (auto simp: starts_holding_def e(2) split: if_splits)
    with e(1) show ?thesis by simp
  qed
qed (simp_all add: generation_same quiet_generation quiet_settle quiet_release quiet_cancel quiet_pause
      admit_generation)

section \<open>After a pause\<close>

definition pause_exempt :: "'p waiter \<Rightarrow> bool" where
  "pause_exempt x \<longleftrightarrow> (w_nested x \<and> \<not> w_continuation x) \<or> w_carries_on x"

definition unstarted :: "'p waiter \<Rightarrow> bool" where
  "unstarted x \<longleftrightarrow> w_state x = SWaiting \<or> w_state x = SGranted"

text \<open>Of the operations not started yet, only exempt ones and those listed are left.\<close>

definition only_exempt :: "nat list \<Rightarrow> 'p lanes \<Rightarrow> bool" where
  "only_exempt ws s \<longleftrightarrow> (\<forall>v<l_next s. unstarted (l_objs s v) \<longrightarrow> pause_exempt (l_objs s v) \<or> v \<in> set ws)"

lemma unstarted_le:
  assumes "lanes_le s t" "v < l_next s" "unstarted (l_objs t v)"
  shows "unstarted (l_objs s v) \<and> pause_exempt (l_objs t v) = pause_exempt (l_objs s v)"
proof -
  have le: "waiter_le (l_objs s v) (l_objs t v)" using assms by (simp add: lanes_le_def)
  then have "unstarted (l_objs s v)"
    using assms(3) by (cases "w_state (l_objs s v)") (auto simp: waiter_le_def unstarted_def)
  with le show ?thesis by (simp add: waiter_le_def pause_exempt_def)
qed

lemma only_exempt_le: "lanes_le s t \<Longrightarrow> l_next t = l_next s \<Longrightarrow> only_exempt ws s \<Longrightarrow> only_exempt ws t"
  unfolding only_exempt_def using unstarted_le by metis

lemma quiet_next: "quiet s t \<Longrightarrow> l_next t = l_next s"
  by (simp add: quiet_def)

lemma pause_active_exempt:
  assumes inv: "lanes_inv s" and w: "w < l_next s" "w_state (l_objs s w) \<noteq> SWaiting"
    and ex: "only_exempt (w # ws) s"
  shows "only_exempt ws (pause_active env w s)"
proof (cases "pause_spares (l_objs s w)")
  case True
  then have "\<not> unstarted (l_objs s w) \<or> pause_exempt (l_objs s w)"
    using w by (auto simp: pause_spares_def unstarted_def pause_exempt_def)
  with ex True show ?thesis by (auto simp: only_exempt_def pause_active_def)
next
  case False
  let ?u = "upd_waiter w (\<lambda>x. x\<lparr>w_refusal := Some (paused_error s x)\<rparr>) s"
  have u: "lanes_inv ?u" by (rule same_lanes_inv [OF note_refusal_same inv])
  have g: "w_state (l_objs ?u w) = SGranted" using False by (simp add: pause_spares_def upd_waiter_def)
  have mem: "w \<in> set (l_active ?u)" using w g by (simp add: lanes_invD(4) [OF u]) (simp add: upd_waiter_def)
  let ?r = "release_waiter w ?u"
  have t: "pause_active env w s = lanes_grant env ?r"
    using False g by (simp add: pause_active_def lanes_release_eq Let_def)
  have r: "lanes_inv ?r" by (rule release_waiter_inv [OF u mem])
  have "only_exempt ws ?r"
    using ex by (auto simp: only_exempt_def release_waiter_def upd_waiter_def unstarted_def pause_exempt_def)
  then show ?thesis
    unfolding t by (rule only_exempt_le [OF lanes_grant_le [OF r] quiet_next [OF quiet_grant]])
qed

lemma fold_pause_active_exempt:
  "lanes_inv s \<Longrightarrow> \<forall>w\<in>set ws. w < l_next s \<and> w_state (l_objs s w) \<noteq> SWaiting \<Longrightarrow> only_exempt ws s \<Longrightarrow>
   only_exempt [] (fold (pause_active env) ws s)"
proof (induction ws arbitrary: s)
  case (Cons w ws)
  let ?t = "pause_active env w s"
  have w: "w < l_next s" "w_state (l_objs s w) \<noteq> SWaiting" using Cons.prems(2) by auto
  have t: "lanes_inv ?t" "lanes_le s ?t"
    using pause_active_inv [OF Cons.prems(1) w] by auto
  have "\<forall>v\<in>set ws. v < l_next ?t \<and> w_state (l_objs ?t v) \<noteq> SWaiting"
    using Cons.prems(2) lanes_le_started [OF t(2)] by simp
  then show ?case
    using Cons.IH [OF t(1)] pause_active_exempt [OF Cons.prems(1) w Cons.prems(3)] by simp
qed simp

lemma fold_withdraw_ends:
  "lanes_inv s \<Longrightarrow> distinct ws \<Longrightarrow> \<forall>w\<in>set ws. w < l_next s \<and> w_state (l_objs s w) = SWaiting \<Longrightarrow>
   (\<forall>v. l_objs (fold withdraw_paused ws s) v =
      (if v \<in> set ws then (l_objs s v)\<lparr>w_state := SDone,
         w_granted := deferred_done (w_granted (l_objs s v)) (Rejected (paused_error s (l_objs s v)))\<rparr> else l_objs s v))"
proof (induction ws arbitrary: s)
  case (Cons w ws)
  let ?t = "withdraw_paused w s"
  have w: "w < l_next s" "w_state (l_objs s w) = SWaiting" using Cons.prems by auto
  have t: "lanes_inv ?t" "l_next ?t = l_next s"
    unfolding withdraw_paused_end using end_waiter_inv [OF Cons.prems(1) w] by auto
  have obj: "l_objs ?t v = (if v = w then (l_objs s v)\<lparr>w_state := SDone,
      w_granted := deferred_done (w_granted (l_objs s v)) (Rejected (paused_error s (l_objs s v)))\<rparr> else l_objs s v)" for v
    by (simp add: withdraw_paused_end end_waiter_def upd_waiter_def lanes_remove_def)
  have err: "paused_error ?t = paused_error s"
    by (rule ext) (simp add: paused_error_def withdraw_paused_end end_waiter_def upd_waiter_def lanes_remove_def)
  have "\<forall>v\<in>set ws. v < l_next ?t \<and> w_state (l_objs ?t v) = SWaiting"
    using Cons.prems(2,3) by (auto simp: obj t(2))
  then show ?case
    using Cons.IH [OF t(1)] Cons.prems(2) by (auto simp: obj err)
qed simp

lemma set_paused_exempt:
  assumes inv: "lanes_inv s"
  shows "only_exempt [] (set_paused env True s)"
proof -
  let ?s0 = "s\<lparr>l_paused := True\<rparr>"
  let ?s1 = "fold withdraw_paused (pause_withdraws ?s0) ?s0"
  let ?s2 = "fold (pause_active env) (l_active ?s1) ?s1"
  note mid = set_paused_mid(1,2) [OF inv] set_paused_mid(3) [OF inv, of env]
  have next1: "l_next ?s1 = l_next ?s0"
    by (rule quiet_next) (rule quiet_fold, simp add: withdraw_paused_end quiet_end)
  have "only_exempt (l_active ?s1) ?s1"
    unfolding only_exempt_def
  proof (intro allI impI)
    fix v assume v: "v < l_next ?s1" "unstarted (l_objs ?s1 v)"
    have obj: "l_objs ?s1 v = (if v \<in> set (pause_withdraws ?s0) then (l_objs ?s0 v)\<lparr>w_state := SDone,
         w_granted := deferred_done (w_granted (l_objs ?s0 v)) (Rejected (paused_error ?s0 (l_objs ?s0 v)))\<rparr>
       else l_objs ?s0 v)"
      using fold_withdraw_ends [OF mid(1) pause_withdraws_waiting [OF mid(1)]] by blast
    with v(2) have kept: "v \<notin> set (pause_withdraws ?s0)" and same: "l_objs ?s1 v = l_objs ?s0 v"
      by (auto simp: unstarted_def split: if_splits)
    show "pause_exempt (l_objs ?s1 v) \<or> v \<in> set (l_active ?s1)"
    proof (cases "w_state (l_objs ?s1 v) = SWaiting")
      case True
      then have "v \<in> set (l_waiting ?s0) \<or> v \<in> set (l_nested ?s0)"
        using v(1) lanes_invD(5,6) [OF mid(1), of v] by (auto simp: same next1)
      with kept have "pause_exempt (l_objs ?s0 v)"
        using lanes_invD(5) [OF mid(1), of v]
        by (auto simp: pause_withdraws_def pause_exempt_def)
      then show ?thesis unfolding same ..
    next
      case False
      with v show ?thesis by (simp add: lanes_invD(4) [OF mid(2)] unstarted_def)
    qed
  qed
  moreover have "\<forall>w\<in>set (l_active ?s1). w < l_next ?s1 \<and> w_state (l_objs ?s1 w) \<noteq> SWaiting"
    by (auto simp: lanes_invD(4) [OF mid(2)])
  ultimately have "only_exempt [] ?s2"
    using fold_pause_active_exempt [OF mid(2)] by blast
  then have "only_exempt [] (lanes_grant env ?s2)"
    by (rule only_exempt_le [OF lanes_grant_le [OF mid(3)] quiet_next [OF quiet_grant]])
  then show ?thesis by (simp add: set_paused_eq Let_def)
qed

lemma running_grant:
  "lanes_inv s \<Longrightarrow> w_state (l_objs s v) = SRunning \<Longrightarrow> w_state (l_objs (lanes_grant env s) v) = SRunning"
proof -
  assume inv: "lanes_inv s" and v: "w_state (l_objs s v) = SRunning"
  have "waiter_granted_or_ended env (l_objs s v) (l_objs (lanes_grant env s) v)"
    using lanes_grant_frame [OF inv, of env] by (simp add: grant_frame_def)
  with v show ?thesis by (auto simp: waiter_granted_or_ended_def)
qed

lemma running_pause_active:
  assumes inv: "lanes_inv s" and w: "w < l_next s" "w_state (l_objs s w) \<noteq> SWaiting"
    and v: "w_state (l_objs s v) = SRunning"
  shows "w_state (l_objs (pause_active env w s) v) = SRunning"
proof (cases "pause_spares (l_objs s w)")
  case True
  with v show ?thesis by (simp add: pause_active_def)
next
  case False
  let ?u = "upd_waiter w (\<lambda>x. x\<lparr>w_refusal := Some (paused_error s x)\<rparr>) s"
  have u: "lanes_inv ?u" by (rule same_lanes_inv [OF note_refusal_same inv])
  have g: "w_state (l_objs s w) = SGranted" using False by (simp add: pause_spares_def)
  have mem: "w \<in> set (l_active ?u)" using w g by (simp add: lanes_invD(4) [OF u]) (simp add: upd_waiter_def)
  have "w_state (l_objs (release_waiter w ?u) v) = SRunning"
    using v g by (auto simp: release_waiter_def upd_waiter_def)
  then show ?thesis
    using False g running_grant [OF release_waiter_inv [OF u mem]]
    by (simp add: pause_active_def lanes_release_eq Let_def upd_waiter_def)
qed

lemma running_fold_pause_active:
  "lanes_inv s \<Longrightarrow> \<forall>w\<in>set ws. w < l_next s \<and> w_state (l_objs s w) \<noteq> SWaiting \<Longrightarrow>
   w_state (l_objs s v) = SRunning \<Longrightarrow> w_state (l_objs (fold (pause_active env) ws s) v) = SRunning"
proof (induction ws arbitrary: s)
  case (Cons w ws)
  let ?t = "pause_active env w s"
  have w: "w < l_next s" "w_state (l_objs s w) \<noteq> SWaiting" using Cons.prems(2) by auto
  have t: "lanes_inv ?t" "lanes_le s ?t"
    using pause_active_inv [OF Cons.prems(1) w] by auto
  have "\<forall>v\<in>set ws. v < l_next ?t \<and> w_state (l_objs ?t v) \<noteq> SWaiting"
    using Cons.prems(2) lanes_le_started [OF t(2)] by simp
  then show ?case
    using Cons.IH [OF t(1)] running_pause_active [OF Cons.prems(1) w Cons.prems(3)] by simp
qed simp

lemma running_set_paused:
  assumes inv: "lanes_inv s" and v: "w_state (l_objs s v) = SRunning"
  shows "w_state (l_objs (set_paused env True s) v) = SRunning"
proof -
  let ?s0 = "s\<lparr>l_paused := True\<rparr>"
  let ?s1 = "fold withdraw_paused (pause_withdraws ?s0) ?s0"
  note mid = set_paused_mid(1,2) [OF inv] set_paused_mid(3) [OF inv, of env]
  have "w_state (l_objs ?s1 v) = SRunning"
    using fold_withdraw_ends [OF mid(1) pause_withdraws_waiting [OF mid(1)]] v
      pause_withdraws_waiting(2) [OF mid(1)] by auto
  moreover have "\<forall>w\<in>set (l_active ?s1). w < l_next ?s1 \<and> w_state (l_objs ?s1 w) \<noteq> SWaiting"
    by (auto simp: lanes_invD(4) [OF mid(2)])
  ultimately show ?thesis
    using running_grant [OF mid(3) running_fold_pause_active [OF mid(2)]] by (simp add: set_paused_eq Let_def)
qed

lemma set_paused_flag: "l_paused (lanes_grant env s) = l_paused s" if "lanes_inv s" for s :: "'p lanes"
  using lanes_grant_frame [OF that] by (simp add: grant_frame_def)

lemma fold_pause_active_flag:
  "lanes_inv s \<Longrightarrow> \<forall>w\<in>set ws. w < l_next s \<and> w_state (l_objs s w) \<noteq> SWaiting \<Longrightarrow>
   l_paused (fold (pause_active env) ws s) = l_paused s"
proof (induction ws arbitrary: s)
  case (Cons w ws)
  let ?t = "pause_active env w s" and ?u = "upd_waiter w (\<lambda>x. x\<lparr>w_refusal := Some (paused_error s x)\<rparr>) s"
  have w: "w < l_next s" "w_state (l_objs s w) \<noteq> SWaiting" using Cons.prems(2) by auto
  have t: "lanes_inv ?t" "lanes_le s ?t"
    using pause_active_inv [OF Cons.prems(1) w] by auto
  have u: "lanes_inv ?u" by (rule same_lanes_inv [OF note_refusal_same Cons.prems(1)])
  have mem: "w \<in> set (l_active ?u)" if "w_state (l_objs s w) = SGranted"
    using w that by (simp add: lanes_invD(4) [OF u]) (simp add: upd_waiter_def)
  have "l_paused ?t = l_paused s"
    using set_paused_flag [OF release_waiter_inv [OF u mem]]
    by (auto simp: pause_active_def Let_def lanes_release_eq pause_spares_def release_waiter_def upd_waiter_def)
  moreover have "\<forall>v\<in>set ws. v < l_next ?t \<and> w_state (l_objs ?t v) \<noteq> SWaiting"
    using Cons.prems(2) lanes_le_started [OF t(2)] by simp
  ultimately show ?case
    using Cons.IH [OF t(1)] by simp
qed simp

lemma set_paused_sets:
  assumes inv: "lanes_inv s"
  shows "l_paused (set_paused env b s) = b"
proof -
  let ?s0 = "s\<lparr>l_paused := True\<rparr>"
  let ?s1 = "fold withdraw_paused (pause_withdraws ?s0) ?s0"
  note mid = set_paused_mid(1,2) [OF inv] set_paused_mid(3) [OF inv, of env]
  have "l_paused (fold withdraw_paused ws s) = l_paused s" for ws and s :: "'a lanes"
    by (induction ws arbitrary: s) (simp_all add: withdraw_paused_end)
  moreover have "\<forall>w\<in>set (l_active ?s1). w < l_next ?s1 \<and> w_state (l_objs ?s1 w) \<noteq> SWaiting"
    by (auto simp: lanes_invD(4) [OF mid(2)])
  ultimately have "l_paused (lanes_grant env (fold (pause_active env) (l_active ?s1) ?s1)) = True"
    using set_paused_flag [OF mid(3)] fold_pause_active_flag [OF mid(2)] by simp
  then show ?thesis
    by (cases b) (simp_all add: set_paused_eq Let_def, simp add: set_paused_def)
qed

section \<open>Why an operation waits\<close>

lemma not_free_locks_sum:
  assumes "\<not> free_of (locks_sum (locks_in s) ws) ls"
  shows "\<exists>v\<in>set ws. clashes ls (oc_locks (occupant s v))"
proof -
  obtain l v vs l' where "l \<in> set ls" "v \<in> set ws" "locks_in s v = Some vs" "l' \<in> set vs" "clash l l'"
    using assms by (auto simp: free_of_def in_locks_sum)
  then show ?thesis
    by (intro bexI [of _ v]) (auto simp: clashes_def occupant_def locks_or_none_def)
qed

lemma waits_on_something:
  assumes ok: "lanes_ok s" and i: "i < length (l_nested s @ l_waiting s)"
    and ls: "locks_in s ((l_nested s @ l_waiting s) ! i) = Some ls"
  shows "explain_wait ls (map (occupant s) (l_active s)) (map (occupant s) (take i (l_nested s @ l_waiting s))) \<noteq> [] \<or>
    (\<exists>j<i. locks_in s ((l_nested s @ l_waiting s) ! j) = None)"
proof -
  have settled: "settled s" using ok by (simp add: lanes_ok_def)
  let ?q = "l_nested s @ l_waiting s"
  have why: "explain_wait ls (map (occupant s) (l_active s)) (map (occupant s) (take i ?q)) \<noteq> []"
    if "\<not> free_of (locks_sum (locks_in s) (l_active s @ take i ?q)) ls"
    using not_free_locks_sum [OF that] by (auto simp: explain_wait_Nil_iff)
  show ?thesis
  proof (cases "i < length (l_nested s)")
    case True
    then have "\<not> free_of (held_locks s) ls"
      using settled ls by (auto simp: settled_def nested_settled_def nth_append)
    then have "\<not> free_of (locks_sum (locks_in s) (l_active s @ take i ?q)) ls"
      by (rule contrapos_nn) (erule free_of_mono, simp add: held_locks_def)
    with why show ?thesis by blast
  next
    case False
    let ?i = "i - length (l_nested s)"
    have nth: "?q ! i = l_waiting s ! ?i" "?i < length (l_waiting s)"
      using False i by (simp_all add: nth_append)
    have line: "line_blocked (locks_in s) (held_locks s) (nested_wants s) (l_waiting s)"
      using settled by (simp add: settled_def)
    have "(\<exists>j<?i. locks_in s (l_waiting s ! j) = None) \<or>
        \<not> free_of (held_locks s + nested_wants s + locks_sum (locks_in s) (take ?i (l_waiting s))) ls"
      using line_blocked_nth [OF line nth(2)] ls nth(1) by simp
    then show ?thesis
    proof
      assume "\<exists>j<?i. locks_in s (l_waiting s ! j) = None"
      then obtain j where "j < ?i" "locks_in s (l_waiting s ! j) = None" by blast
      then have "length (l_nested s) + j < i" "locks_in s (?q ! (length (l_nested s) + j)) = None"
        by (auto simp: nth_append)
      then show ?thesis by blast
    next
      assume "\<not> free_of (held_locks s + nested_wants s + locks_sum (locks_in s) (take ?i (l_waiting s))) ls"
      then show ?thesis
        using why False by (simp add: held_locks_def nested_wants_def add.assoc)
    qed
  qed
qed

section \<open>After a withdrawal\<close>

lemma cancel_ends:
  assumes inv: "lanes_inv s" and w: "w < l_next s" and c: "snd (lanes_cancel env w s)"
  shows "w_state (l_objs (fst (lanes_cancel env w s)) w) = SDone"
proof -
  have stays: "w_state (l_objs (lanes_grant env t) w) = SDone"
    if "lanes_inv t" "w < l_next t" "w_state (l_objs t w) = SDone" for t
  proof -
    have "waiter_le (l_objs t w) (l_objs (lanes_grant env t) w)"
      using lanes_grant_le [OF that(1)] that(2) by (simp add: lanes_le_def)
    then show ?thesis
      using that(3) by (cases "w_state (l_objs (lanes_grant env t) w)") (auto simp: waiter_le_def)
  qed
  consider "w_state (l_objs s w) = SWaiting" | "w_state (l_objs s w) = SGranted"
    using c by (auto simp: lanes_cancel_def split: if_splits)
  then show ?thesis
  proof cases
    case 1
    let ?d = "Rejected (lane_error RCancelled (w_label (l_objs s w) @ '' was withdrawn before it started''))"
    have "lanes_inv (end_waiter w ?d s)" by (rule end_waiter_inv [OF inv w 1]) simp
    from stays [OF this] w 1 show ?thesis
      by (simp add: lanes_cancel_def lanes_reject_remove) (simp add: end_waiter_def upd_waiter_def)
  next
    case 2
    have "w \<in> set (l_active s)" using w 2 by (simp add: lanes_invD(4) [OF inv])
    from stays [OF release_waiter_inv [OF inv this]] w 2 show ?thesis
      by (simp add: lanes_cancel_def lanes_release_eq) (simp add: release_waiter_def upd_waiter_def)
  qed
qed

lemma begin_done_fails:
  assumes inv: "lanes_inv s" and w: "w < l_next s" and st: "w_state (l_objs s w) = SDone"
  shows "\<exists>e. lanes_begin w s = Some (Inl e, s)"
proof -
  have "w_granted (l_objs s w) \<noteq> Pending"
    using inv w st by (simp add: lanes_inv_def waiters_ok_def Let_def)
  with st show ?thesis
    by (cases "w_granted (l_objs s w)") (auto simp: lanes_begin_def Let_def)
qed

end
