(* ===== verification/Lane_Claims.thy ===== *)
theory Lane_Claims
  imports Lanes_Props
begin

text \<open>
  The properties of \<open>packages/operations\<close> (locks, the lane rule and the lanes), each with
  a concrete run of the lanes where its hypotheses hold.
\<close>

section \<open>A concrete run\<close>

definition demo_env :: "unit lane_env" where
  "demo_env = \<lparr>env_refuse = (\<lambda>_ _. None), env_holds = (\<lambda>_. True)\<rparr>"

definition demo_admission :: "string \<Rightarrow> lane_lock list \<Rightarrow> unit lane_admission" where
  "demo_admission label locks = \<lparr>ad_label = label, ad_locks = Some locks, ad_precondition = None,
     ad_continuation = False, ad_when_busy = None, ad_carries_on = False\<rparr>"

definition demo_start :: "unit lanes" where
  "demo_start = new_lanes \<lparr>opt_max_waiting = None, opt_busy = None, opt_paused = None\<rparr>"

text \<open>Two reads of a server run together; a delete of it waits for both, a third read for the delete.\<close>

definition demo_busy :: "unit lanes" where
  "demo_busy =
     fst (lanes_admit demo_env (demo_admission ''read 3'' [shared ''server'']) False
       (fst (lanes_admit demo_env (demo_admission ''delete'' [exclusive ''server'']) False
         (fst (lanes_admit demo_env (demo_admission ''read 2'' [shared ''server'', shared ''node'']) False
           (fst (lanes_admit demo_env (demo_admission ''read 1'' [shared ''server'']) False demo_start)))))))"

lemma reach_admit: "reach s0 lanes_step s \<Longrightarrow> reach s0 lanes_step (fst (lanes_admit env ad inside s))"
  by (erule reach_step) (rule step_admit)

lemma demo_busy_reach: "reach (new_lanes \<lparr>opt_max_waiting = None, opt_busy = None, opt_paused = None\<rparr>) lanes_step demo_busy"
  unfolding demo_busy_def
  by (intro reach_admit) (simp add: demo_start_def reach_init)

lemma demo_busy_queues:
  "l_active demo_busy = [0, 1]" "l_waiting demo_busy = [2, 3]" "l_nested demo_busy = []"
  "l_next demo_busy = 4"
  "locks_in demo_busy 0 = Some [shared ''server'']"
  "locks_in demo_busy 1 = Some [shared ''node'', shared ''server'']"
  "w_state (l_objs demo_busy 0) = SGranted" "w_state (l_objs demo_busy 2) = SWaiting"
  by code_simp+

lemma demo_busy_kind:
  "\<not> w_carries_on (l_objs demo_busy 0)" "\<not> w_nested (l_objs demo_busy 0)" "l_max_waiting demo_busy = 512"
  by code_simp+

lemmas demo_busy_max = demo_busy_kind(3)

lemma demo_describe:
  "length (snd (describe demo_busy)) = 2" "\<forall>d\<in>set (snd (describe demo_busy)). dw_locks d \<noteq> None"
  by code_simp+

section \<open>Locks and the lane rule\<close>

text \<open>\<open>normalizeLocks\<close> answers one lock per key in the order of the keys, at the
  strongest mode asked for, and it clashes with exactly what the locks given to it clash with.\<close>

lemma normalize_locks_correct:
  "sorted (map lkey (normalize_locks ls)) \<and> distinct (map lkey (normalize_locks ls)) \<and>
   (exclusive k \<in> set (normalize_locks ls) \<longleftrightarrow> exclusive k \<in> set ls) \<and>
   (shared k \<in> set (normalize_locks ls) \<longleftrightarrow> shared k \<in> set ls \<and> exclusive k \<notin> set ls) \<and>
   (clashes (normalize_locks ls) others \<longleftrightarrow> clashes ls others)"
  using sorted_keys_normalize_locks distinct_keys_normalize_locks clashes_normalize_locks
  by (auto simp: set_normalize_locks strongest_def)

text \<open>A lock table implements the multiset of locks held: asking it for a conflict is asking
  whether a held lock clashes, taking adds the locks and releasing removes them.\<close>

lemma lock_table_refines:
  assumes "compatible (L + mset ls)"
  shows "(conflicts (table_of L) l \<longleftrightarrow> (\<exists>l'\<in>#L. clash l l')) \<and>
    take_locks (table_of L) ls = table_of (L + mset ls) \<and>
    release_locks (table_of (L + mset ls)) ls = table_of L"
  using conflicts_table_of take_locks_table_of release_locks_table_of [OF assms] by blast

lemma lock_table_refines_example:
  "release_locks (table_of ({#shared ''a''#} + mset [shared ''a'', exclusive ''b''])) [shared ''a'', exclusive ''b''] =
     table_of {#shared ''a''#}"
  using lock_table_refines [of "{#shared ''a''#}" "[shared ''a'', exclusive ''b'']"] by (simp add: compatible_add)

text \<open>C3: \<open>selectGrants\<close> over lock tables is the lane rule over pairwise clashes of locks, and
  returns the table of what is held once the granted operations hold theirs.\<close>

theorem select_grants_is_rule:
  "select_grants admit locks_of (table_of H) (table_of B) line =
     (\<lparr>gs_granted = rule_granted admit locks_of H B line, gs_dropped = rule_dropped admit locks_of H B line\<rparr>,
      table_of (H + locks_sum locks_of (rule_granted admit locks_of H B line)))"
  by (rule select_grants_rule)

text \<open>C4: No overtaking: an operation starts from behind one that stays in line only where both
  know their locks and the two do not clash.\<close>

theorem select_grants_no_overtaking:
  assumes "distinct (us @ v # vs)" and "w \<in> set vs"
    and "select_grants admit locks_of (table_of H) (table_of B) (us @ v # vs) = (r, T)"
    and "w \<in> set (gs_granted r)" and "v \<notin> set (gs_granted r)" "v \<notin> set (gs_dropped r)"
  shows "\<exists>lv lw. locks_of v = Some lv \<and> locks_of w = Some lw \<and> \<not> clashes lv lw"
proof -
  have r: "gs_granted r = rule_granted admit locks_of H B (us @ v # vs)"
    "gs_dropped r = rule_dropped admit locks_of H B (us @ v # vs)"
    using assms(3) by (auto simp: select_grants_rule)
  show ?thesis
    by (rule rule_no_overtaking [OF assms(4) [unfolded r] assms(2,1) assms(5,6) [unfolded r]])
qed

theorem select_grants_no_overtaking_witness:
  "\<exists>lv lw. (\<lambda>w::nat. Some (if w = 2 then [exclusive ''b''] else [exclusive ''a''])) 1 = Some lv \<and>
     (\<lambda>w::nat. Some (if w = 2 then [exclusive ''b''] else [exclusive ''a''])) 2 = Some lw \<and> \<not> clashes lv lw"
  by (rule select_grants_no_overtaking [where us = "[0]" and v = 1 and vs = "[2]" and w = 2 and H = "{#}" and B = "{#}"
        and admit = "\<lambda>_. True", OF _ _ select_grants_rule])
    (simp_all add: free_of_def)

section \<open>The lanes\<close>

text \<open>C1: Mutual exclusion: in every reachable state, no two operations that hold locks hold
  locks that clash, and the table of held locks is exactly that of the operations' locks.\<close>

theorem lanes_mutual_exclusion:
  assumes "reach (new_lanes opts) lanes_step s"
    and "v \<in> set (l_active s)" "w \<in> set (l_active s)" "v \<noteq> w"
  shows "\<not> clashes (locks_or_none (l_objs s v)) (locks_or_none (l_objs s w)) \<and>
    l_held s = table_of (locks_sum (locks_in s) (l_active s))"
proof -
  have inv: "lanes_inv s" using lanes_run.inv_reach [OF assms(1)] by (rule lanes_ok_inv)
  have w: "w \<in> set (remove1 v (l_active s))"
    using assms(3,4) by (simp add: in_set_remove1)
  have split: "held_locks s = locks_sum (locks_in s) (remove1 v (l_active s)) + mset (locks_or_none (l_objs s v))"
    unfolding held_locks_def locks_or_none_def by (rule locks_sum_remove1 [OF assms(2)])
  have "compatible (locks_sum (locks_in s) (remove1 v (l_active s)) + mset (locks_or_none (l_objs s v)))"
    using lanes_invD(8) [OF inv] by (simp add: split)
  then have "free_of (locks_sum (locks_in s) (remove1 v (l_active s))) (locks_or_none (l_objs s v))"
    by (simp add: compatible_free)
  moreover have "b \<in># locks_sum (locks_in s) (remove1 v (l_active s))" if "b \<in> set (locks_or_none (l_objs s w))" for b
    unfolding in_locks_sum by (rule bexI [OF _ w], cases "locks_in s w") (use that in \<open>auto simp: locks_or_none_def\<close>)
  ultimately show ?thesis
    using lanes_invD(7) [OF inv] by (auto simp: free_of_def clashes_def held_locks_def)
qed

theorem lanes_mutual_exclusion_witness:
  "\<not> clashes (locks_or_none (l_objs demo_busy 0)) (locks_or_none (l_objs demo_busy 1)) \<and>
    l_held demo_busy = table_of (locks_sum (locks_in demo_busy) (l_active demo_busy))"
  by (rule lanes_mutual_exclusion [OF demo_busy_reach]) (simp_all add: demo_busy_queues)

text \<open>C2: No stall: \<open>describe\<close> always names something each waiting operation waits on, unless
  its own locks, or those of one ahead of it, are still looked up; so when nothing holds a
  lock and every lookup is done, nothing waits.\<close>

theorem lanes_no_stall:
  assumes "reach (new_lanes opts) lanes_step s"
  shows "(\<forall>i<length (snd (describe s)). dw_waiting_on (snd (describe s) ! i) = [] \<longrightarrow>
        (\<exists>j\<le>i. dw_locks (snd (describe s) ! j) = None)) \<and>
    (l_active s = [] \<longrightarrow> (\<forall>d\<in>set (snd (describe s)). dw_locks d \<noteq> None) \<longrightarrow> snd (pending s) = 0)"
proof -
  have ok: "lanes_ok s" by (rule lanes_run.inv_reach [OF assms])
  let ?q = "l_nested s @ l_waiting s"
  let ?why = "\<lambda>i ls. explain_wait ls (map (occupant s) (l_active s)) (map (occupant s) (take i ?q))"
  have entry: "snd (describe s) ! i = describe_waiting s ?q i" if "i < length ?q" for i
    using that by (simp add: describe_def Let_def nth_append)
  have len: "length (snd (describe s)) = length ?q" by (simp add: describe_def)
  have named: "?why i ls \<noteq> [] \<or> (\<exists>j<i. locks_in s (?q ! j) = None)"
    if "i < length ?q" "locks_in s (?q ! i) = Some ls" for i ls
    by (rule waits_on_something [OF ok that])
  have first: "\<exists>j\<le>i. dw_locks (snd (describe s) ! j) = None"
    if i: "i < length ?q" and none: "dw_waiting_on (snd (describe s) ! i) = []" for i
  proof (cases "locks_in s (?q ! i)")
    case None
    then show ?thesis using i by (intro exI [of _ i]) (simp add: entry describe_waiting_def Let_def)
  next
    case (Some ls)
    with none i have "?why i ls = []" by (simp add: entry describe_waiting_def Let_def)
    with named [OF i Some] obtain j where "j < i" "locks_in s (?q ! j) = None" by blast
    then show ?thesis using i by (intro exI [of _ j]) (simp add: entry describe_waiting_def Let_def)
  qed
  have "snd (pending s) = 0"
    if a: "l_active s = []" and known: "\<forall>d\<in>set (snd (describe s)). dw_locks d \<noteq> None"
  proof (rule ccontr)
    assume "snd (pending s) \<noteq> 0"
    then have q: "0 < length ?q" by (auto simp: pending_def)
    then have "dw_waiting_on (snd (describe s) ! 0) = []"
      by (simp add: entry describe_waiting_def Let_def a explain_wait_Nil_iff split: option.split)
    with first [OF q] have "dw_locks (snd (describe s) ! 0) = None" by simp
    with known q show False by (metis len nth_mem)
  qed
  with first show ?thesis by (simp add: len)
qed

theorem lanes_no_stall_witness:
  "dw_waiting_on (snd (describe demo_busy) ! 1) \<noteq> []"
proof
  assume "dw_waiting_on (snd (describe demo_busy) ! 1) = []"
  then obtain j where "j \<le> 1" "dw_locks (snd (describe demo_busy) ! j) = None"
    using lanes_no_stall [OF demo_busy_reach, THEN conjunct1, THEN spec, of 1] demo_describe(1) by auto
  then show False using demo_describe by (metis One_nat_def Suc_1 le_imp_less_Suc nth_mem)
qed

text \<open>C5: An operation only moves forward: waiting, granted, running, done. Its deferred settles
  once, its locks stay as they were known, and its label, kind and precondition never change.\<close>

theorem lanes_life_cycle:
  assumes "reach (new_lanes opts) lanes_step s" and "lanes_step s t" and "w < l_next s"
  shows "w < l_next t \<and>
    state_rank (w_state (l_objs s w)) \<le> state_rank (w_state (l_objs t w)) \<and>
    (w_granted (l_objs s w) \<noteq> Pending \<longrightarrow> w_granted (l_objs t w) = w_granted (l_objs s w)) \<and>
    (locks_in s w \<noteq> None \<longrightarrow> locks_in t w = locks_in s w) \<and>
    w_label (l_objs t w) = w_label (l_objs s w) \<and> w_nested (l_objs t w) = w_nested (l_objs s w) \<and>
    w_precondition (l_objs t w) = w_precondition (l_objs s w)"
proof -
  have "lanes_le s t"
    by (rule lanes_step_le [OF assms(2) lanes_run.inv_reach [OF assms(1)]])
  with assms(3) show ?thesis by (simp add: lanes_le_def waiter_le_def)
qed

theorem lanes_life_cycle_witness:
  "w_state (l_objs demo_busy 0) = SGranted \<and>
   locks_in (fst (lanes_cancel demo_env 0 demo_busy)) 0 = Some [shared ''server'']"
  using lanes_life_cycle [OF demo_busy_reach step_cancel, of 0 0 demo_env] by (simp add: demo_busy_queues)

text \<open>An operation's run starts its effect exactly when the operation is granted, so at most
  once; it waits exactly while the operation waits, and otherwise it fails and changes nothing.\<close>

lemma lanes_begin_correct:
  assumes "reach (new_lanes opts) lanes_step s" and "w < l_next s"
  shows "(lanes_begin w s = None \<longleftrightarrow> w_state (l_objs s w) = SWaiting) \<and>
    ((\<exists>t. lanes_begin w s = Some (Inr (), t) \<and> w_state (l_objs t w) = SRunning) \<longleftrightarrow> w_state (l_objs s w) = SGranted) \<and>
    (w_state (l_objs s w) \<in> {SRunning, SDone} \<longrightarrow> (\<exists>e. lanes_begin w s = Some (Inl e, s)))"
proof -
  have inv: "lanes_inv s" using lanes_run.inv_reach [OF assms(1)] by (rule lanes_ok_inv)
  have g: "w_granted (l_objs s w) = Pending \<longleftrightarrow> w_state (l_objs s w) = SWaiting"
    "w_state (l_objs s w) = SGranted \<Longrightarrow> w_granted (l_objs s w) = Resolved"
    using inv assms(2) by (simp_all add: lanes_inv_def waiters_ok_def Let_def)
  have start: "(\<exists>t. lanes_begin w s = Some (Inr (), t) \<and> w_state (l_objs t w) = SRunning) \<longleftrightarrow>
      w_state (l_objs s w) = SGranted"
    using g(2) lanes_begin_effect(2) [OF inv assms(2)] by (auto simp: lanes_begin_started)
  have none: "lanes_begin w s = None \<longleftrightarrow> w_granted (l_objs s w) = Pending"
    by (simp add: lanes_begin_def Let_def split: deferred.split)
  have fail: "\<exists>e. lanes_begin w s = Some (Inl e, s)" if "w_state (l_objs s w) \<in> {SRunning, SDone}"
    using that g(1) by (cases "w_granted (l_objs s w)") (auto simp: lanes_begin_def Let_def)
  show ?thesis using start none g(1) fail by simp
qed

lemma lanes_begin_correct_example:
  "lanes_begin 2 demo_busy = None \<and> (\<exists>t. lanes_begin 0 demo_busy = Some (Inr (), t) \<and> w_state (l_objs t 0) = SRunning)"
  using lanes_begin_correct [OF demo_busy_reach, of 2] lanes_begin_correct [OF demo_busy_reach, of 0]
  by (simp add: demo_busy_queues)

text \<open>C7: Withdrawing an operation tells whether it had not started: then it is done and its run
  can only fail, otherwise nothing changes.\<close>

theorem lanes_cancel_correct:
  assumes "reach (new_lanes opts) lanes_step s" and "w < l_next s"
  shows "(snd (lanes_cancel env w s) \<longleftrightarrow> w_state (l_objs s w) \<in> {SWaiting, SGranted}) \<and>
    (snd (lanes_cancel env w s) \<longrightarrow>
       w_state (l_objs (fst (lanes_cancel env w s)) w) = SDone \<and>
       (\<exists>e. lanes_begin w (fst (lanes_cancel env w s)) = Some (Inl e, fst (lanes_cancel env w s)))) \<and>
    (\<not> snd (lanes_cancel env w s) \<longrightarrow> fst (lanes_cancel env w s) = s)"
proof -
  let ?t = "fst (lanes_cancel env w s)"
  have ok: "lanes_ok s" by (rule lanes_run.inv_reach [OF assms(1)])
  have cancelled: "snd (lanes_cancel env w s) \<longleftrightarrow> w_state (l_objs s w) \<in> {SWaiting, SGranted}"
    by (simp add: lanes_cancel_def)
  have ended: "w_state (l_objs ?t w) = SDone" if "snd (lanes_cancel env w s)"
    by (rule cancel_ends [OF lanes_ok_inv [OF ok] assms(2) that])
  have t: "reach (new_lanes opts) lanes_step ?t"
    by (rule reach_step [OF assms(1) step_cancel]) (rule assms(2))
  have "w < l_next ?t"
    using lanes_cancel_le [OF lanes_ok_inv [OF ok] assms(2)] assms(2) by (simp add: lanes_le_def order_less_le_trans)
  then have "\<exists>e. lanes_begin w ?t = Some (Inl e, ?t)" if "snd (lanes_cancel env w s)"
    using begin_done_fails [OF lanes_ok_inv [OF lanes_run.inv_reach [OF t]]] ended [OF that] by blast
  moreover have "?t = s" if "\<not> snd (lanes_cancel env w s)"
    using that by (auto simp: lanes_cancel_def split: if_splits)
  ultimately show ?thesis using cancelled ended by blast
qed

theorem lanes_cancel_correct_witness:
  "snd (lanes_cancel demo_env 0 demo_busy) \<and> w_state (l_objs (fst (lanes_cancel demo_env 0 demo_busy)) 0) = SDone"
  using lanes_cancel_correct [OF demo_busy_reach, of 0 demo_env] by (simp add: demo_busy_queues)

text \<open>A pause leaves nothing that could still start but work nested in a running operation
  and upkeep, and lets what runs finish; from then on, work that arrives on its own is refused
  as paused until the pause ends.\<close>

lemma set_paused_correct:
  assumes "reach (new_lanes opts) lanes_step s"
  shows "l_paused (set_paused env True s) \<and>
    (\<forall>w<l_next s. w_state (l_objs (set_paused env True s) w) \<in> {SWaiting, SGranted} \<longrightarrow>
       w_carries_on (l_objs s w) \<or> w_nested (l_objs s w) \<and> \<not> w_continuation (l_objs s w)) \<and>
    (\<forall>w. w_state (l_objs s w) = SRunning \<longrightarrow> w_state (l_objs (set_paused env True s) w) = SRunning) \<and>
    (\<not> ad_carries_on ad \<longrightarrow>
       (let r = lanes_admit env2 ad False (set_paused env True s)
        in w_granted (l_objs (fst r) (snd r)) =
             Rejected (lane_error RPaused (l_paused_message (set_paused env True s) (ad_label ad))) \<and>
           l_active (fst r) = l_active (set_paused env True s)))"
proof -
  let ?t = "set_paused env True s"
  have ok: "lanes_ok s" by (rule lanes_run.inv_reach [OF assms(1)])
  have inv: "lanes_inv s" by (rule lanes_ok_inv [OF ok])
  have flag: "l_paused ?t" using set_paused_sets [OF inv, of env True] by simp
  have ex: "only_exempt [] ?t" by (rule set_paused_exempt [OF inv])
  have le: "lanes_le s ?t" using set_paused_ok [OF ok] by blast
  have unstarted: "w_carries_on (l_objs s w) \<or> w_nested (l_objs s w) \<and> \<not> w_continuation (l_objs s w)"
    if "w < l_next s" "w_state (l_objs ?t w) \<in> {SWaiting, SGranted}" for w
    using that ex le unfolding only_exempt_def lanes_le_def
    by (auto simp: unstarted_def pause_exempt_def waiter_le_def dest!: spec [of _ w])
  have refused: "w_granted (l_objs (fst (lanes_admit env2 ad False ?t)) (snd (lanes_admit env2 ad False ?t))) =
      Rejected (lane_error RPaused (l_paused_message ?t (ad_label ad))) \<and>
      l_active (fst (lanes_admit env2 ad False ?t)) = l_active ?t" if "\<not> ad_carries_on ad"
    using that flag by (simp add: lanes_admit_def Let_def lanes_reject_def upd_waiter_def deferred_done_def paused_error_def)
  show ?thesis
    using flag unstarted running_set_paused [OF inv] refused by (simp add: Let_def)
qed

lemma set_paused_correct_example:
  "w_state (l_objs (set_paused demo_env True demo_busy) 0) \<notin> {SWaiting, SGranted}"
  using set_paused_correct [OF demo_busy_reach, of demo_env, THEN conjunct2, THEN conjunct1, THEN spec, of 0]
  by (simp add: demo_busy_queues demo_busy_kind)

text \<open>No more operations wait on their own than the lanes allow, continuations included.\<close>

lemma lanes_waiting_bound:
  assumes "reach (new_lanes opts) lanes_step s"
  shows "waiting_on_their_own s \<le> l_max_waiting s"
  using lanes_bound.inv_reach [OF assms] by (simp add: waiting_bounded_def)

lemma lanes_waiting_bound_example: "waiting_on_their_own demo_busy \<le> 512"
  using lanes_waiting_bound [OF demo_busy_reach] demo_busy_max by simp

text \<open>The exclusive generation of a key goes up by one exactly in a step where an operation
  that holds the key exclusively starts to run, and by nothing else; who notes it learns
  later whether the resource may have been replaced.\<close>

lemma exclusive_generation_counts_starts:
  assumes "reach (new_lanes opts) lanes_step s" and "lanes_step s t"
  shows "exclusive_generation t k = exclusive_generation s k +
    (if \<exists>w. w_state (l_objs s w) \<noteq> SRunning \<and> w_state (l_objs t w) = SRunning \<and>
          exclusive k \<in> set (locks_or_none (l_objs s w)) then 1 else 0)"
  using step_generation [OF assms(2) lanes_run.inv_reach [OF assms(1)]] by (simp add: starts_holding_def)

lemma exclusive_generation_counts_starts_example:
  "exclusive_generation (fst (lanes_cancel demo_env 0 demo_busy)) ''server'' = exclusive_generation demo_busy ''server''"
  using exclusive_generation_counts_starts [OF demo_busy_reach step_cancel, of 0 demo_env "''server''"]
    quiet_cancel [of demo_busy demo_env 0] by (auto simp: demo_busy_queues quiet_def)


lemma demo_queued:
  "lanes_inv (queued (demo_admission ''read'' [shared ''server'']) False demo_start)"
  by (rule queued_inv) (simp add: demo_start_def lanes_inv_new)

lemma demo_queued_granted:
  "w_state (l_objs (queued (demo_admission ''read'' [shared ''server'']) False demo_start) 0) = SWaiting"
  "w_state (l_objs (lanes_grant demo_env (queued (demo_admission ''read'' [shared ''server'']) False demo_start)) 0) = SGranted"
  by code_simp+


end
