(* ===== verification/App_Keys.thy ===== *)
theory App_Keys
  imports Prelude
begin

text \<open>
  \<open>packages/contracts/src/app-keys.ts\<close>: the identifiers that take the place of a server's ID,
  file roots and Tailscale members. Each regular expression is a recognizer over the
  characters it names; \<open>exec\<close> with groups returns the groups.
\<close>

section \<open>Character classes\<close>

definition is_hex :: "char \<Rightarrow> bool" where
  "is_hex c \<longleftrightarrow> c \<in> set ''0123456789abcdef''"

definition is_alnum :: "char \<Rightarrow> bool" where
  "is_alnum c \<longleftrightarrow> c \<in> set ''ABCDEFGHIJKLMNOPQRSTUVWXYZabcdefghijklmnopqrstuvwxyz0123456789''"

definition is_name_char :: "char \<Rightarrow> bool" where
  "is_name_char c \<longleftrightarrow> is_alnum c \<or> c \<in> set ''_.-''"

definition is_base64url :: "char \<Rightarrow> bool" where
  "is_base64url c \<longleftrightarrow> is_alnum c \<or> c \<in> set ''_-''"

text \<open>\<open>[a-f0-9]{40}\<close>, and a name of at most \<open>n + 1\<close> characters.\<close>

definition resource_id :: "string \<Rightarrow> bool" where
  "resource_id s \<longleftrightarrow> length s = 40 \<and> list_all is_hex s"

definition is_name :: "nat \<Rightarrow> string \<Rightarrow> bool" where
  "is_name n s \<longleftrightarrow> s \<noteq> [] \<and> is_alnum (hd s) \<and> list_all is_name_char s \<and> length s \<le> Suc n"

definition is_relay_file_root :: "string \<Rightarrow> bool" where
  "is_relay_file_root s \<longleftrightarrow> length s = 43 \<and> list_all is_base64url s"

text \<open>Taking a literal prefix off, as a pattern's start does.\<close>

fun after_prefix :: "string \<Rightarrow> string \<Rightarrow> string option" where
  "after_prefix [] s = Some s"
| "after_prefix (p # ps) [] = None"
| "after_prefix (p # ps) (c # cs) = (if p = c then after_prefix ps cs else None)"

text \<open>\<open>[a-f0-9]{40}\<close> at the start of a pattern: the match and the rest.\<close>

definition take_resource_id :: "string \<Rightarrow> (string \<times> string) option" where
  "take_resource_id s = (if resource_id (take 40 s) then Some (take 40 s, drop 40 s) else None)"

text \<open>The part of a volume's root after \<open>:volume:\<close>: an ID, and the name an App-owned one has.\<close>

definition root_volume :: "string \<Rightarrow> bool" where
  "root_volume s \<longleftrightarrow>
     (case take_resource_id s of
        None \<Rightarrow> False
      | Some (_, rest) \<Rightarrow>
          (case rest of [] \<Rightarrow> True | c # name \<Rightarrow> c = CHR '':'' \<and> is_name 127 name))"

section \<open>File roots\<close>

text \<open>\<open>String.replace\<close> of one character by another: the first occurrence only.\<close>

fun replace_first :: "char \<Rightarrow> char \<Rightarrow> string \<Rightarrow> string" where
  "replace_first a b [] = []"
| "replace_first a b (c # cs) = (if c = a then b # cs else c # replace_first a b cs)"

definition app_file_root_id :: "string \<Rightarrow> string" where
  "app_file_root_id app = ''app:'' @ app"

definition app_volume_file_root_id :: "string \<Rightarrow> string \<Rightarrow> string" where
  "app_volume_file_root_id app vol = ''app:'' @ app @ '':volume:'' @ replace_first (CHR ''/'') (CHR '':'') vol"

definition app_volume_from_file_root :: "string \<Rightarrow> (string \<times> string) option" where
  "app_volume_from_file_root s =
     (case after_prefix ''app:'' s of
        None \<Rightarrow> None
      | Some r \<Rightarrow>
          (case take_resource_id r of
             None \<Rightarrow> None
           | Some (app, r') \<Rightarrow>
               (case after_prefix '':volume:'' r' of
                  None \<Rightarrow> None
                | Some vol \<Rightarrow>
                    if root_volume vol then Some (app, replace_first (CHR '':'') (CHR ''/'') vol) else None)))"

definition app_id_from_file_root :: "string \<Rightarrow> string option" where
  "app_id_from_file_root s =
     (case after_prefix ''app:'' s of
        None \<Rightarrow> None
      | Some app \<Rightarrow>
          (case app_volume_from_file_root s of
             Some (a, _) \<Rightarrow> Some a
           | None \<Rightarrow> if resource_id app then Some app else None))"

definition database_file_root_id :: "string \<Rightarrow> string" where
  "database_file_root_id db = ''database:'' @ db"

definition database_id_from_file_root :: "string \<Rightarrow> string option" where
  "database_id_from_file_root s =
     (case after_prefix ''database:'' s of
        None \<Rightarrow> None
      | Some db \<Rightarrow> if resource_id db then Some db else None)"

definition is_server_file_root :: "string \<Rightarrow> bool" where
  "is_server_file_root s \<longleftrightarrow>
     app_id_from_file_root s = None \<and> database_id_from_file_root s = None \<and> \<not> is_relay_file_root s"

text \<open>\<open>fileRootIdSchema\<close>.\<close>

definition file_root_id_schema :: "string \<Rightarrow> bool" where
  "file_root_id_schema s \<longleftrightarrow>
     resource_id s \<or>
     (case after_prefix ''app:'' s of
        None \<Rightarrow> False
      | Some r \<Rightarrow> resource_id r \<or>
          (case take_resource_id r of
             None \<Rightarrow> False
           | Some (_, r') \<Rightarrow> (case after_prefix '':volume:'' r' of None \<Rightarrow> False | Some vol \<Rightarrow> root_volume vol))) \<or>
     is_relay_file_root s"

section \<open>Tailscale members\<close>

definition instance_tailscale_member_id :: "string \<Rightarrow> string" where
  "instance_tailscale_member_id i = ''instance:'' @ i"

definition database_tailscale_member_id :: "string \<Rightarrow> string" where
  "database_tailscale_member_id db = ''database:'' @ db"

definition app_tailscale_member_id :: "string \<Rightarrow> string \<Rightarrow> string" where
  "app_tailscale_member_id app service = ''app:'' @ app @ '':'' @ service"

definition database_tailscale_member :: "string \<Rightarrow> string option" where
  "database_tailscale_member s =
     (case after_prefix ''database:'' s of
        None \<Rightarrow> None
      | Some db \<Rightarrow> if resource_id db then Some db else None)"

definition instance_tailscale_member :: "string \<Rightarrow> string option" where
  "instance_tailscale_member s =
     (case after_prefix ''instance:'' s of
        None \<Rightarrow> None
      | Some i \<Rightarrow> if resource_id i then Some i else None)"

text \<open>\<open>appServiceNameSchema\<close>.\<close>

definition app_service_name :: "string \<Rightarrow> bool" where
  "app_service_name s = is_name 62 s"

definition app_tailscale_member :: "string \<Rightarrow> (string \<times> string) option" where
  "app_tailscale_member s =
     (case after_prefix ''app:'' s of
        None \<Rightarrow> None
      | Some r \<Rightarrow>
          (case take_resource_id r of
             None \<Rightarrow> None
           | Some (app, r') \<Rightarrow>
               (case after_prefix '':'' r' of
                  None \<Rightarrow> None
                | Some service \<Rightarrow> if app_service_name service then Some (app, service) else None)))"

text \<open>\<open>tailscaleMemberIdSchema\<close>.\<close>

definition tailscale_member_id_schema :: "string \<Rightarrow> bool" where
  "tailscale_member_id_schema s \<longleftrightarrow>
     instance_tailscale_member s \<noteq> None \<or> database_tailscale_member s \<noteq> None \<or> app_tailscale_member s \<noteq> None"

definition legacy_tailscale_member_id :: "string \<Rightarrow> string option" where
  "legacy_tailscale_member_id s =
     (if resource_id s then Some (instance_tailscale_member_id s)
      else if tailscale_member_id_schema s then Some s else None)"

section \<open>Recognizers\<close>

lemma after_prefix_Some: "after_prefix p s = Some r \<longleftrightarrow> s = p @ r"
  by (induction p s rule: after_prefix.induct) auto

lemma after_prefix_append [simp]: "after_prefix p (p @ r) = Some r"
  by (simp add: after_prefix_Some)

lemma after_prefix_None: "after_prefix p s = None \<longleftrightarrow> (\<nexists>r. s = p @ r)"
  by (metis after_prefix_Some option.exhaust option.simps(3))

lemma take_resource_id_Some:
  "take_resource_id s = Some (i, r) \<longleftrightarrow> resource_id i \<and> s = i @ r"
proof
  assume "take_resource_id s = Some (i, r)"
  then show "resource_id i \<and> s = i @ r"
    by (auto simp: take_resource_id_def split: if_splits)
next
  assume a: "resource_id i \<and> s = i @ r"
  then have "length i = 40" by (simp add: resource_id_def)
  with a show "take_resource_id s = Some (i, r)" by (simp add: take_resource_id_def)
qed

lemma take_resource_id_append [simp]: "resource_id i \<Longrightarrow> take_resource_id (i @ r) = Some (i, r)"
  by (simp add: take_resource_id_Some)

lemma replace_first_notin: "a \<notin> set s \<Longrightarrow> replace_first a b s = s"
  by (induction s) auto

lemma replace_first_append: "a \<notin> set s \<Longrightarrow> replace_first a b (s @ t) = s @ replace_first a b t"
  by (induction s) auto

lemma resource_id_chars: "resource_id s \<Longrightarrow> c \<in> set s \<Longrightarrow> is_hex c"
  by (simp add: resource_id_def list_all_iff)

lemma resource_id_notin [simp]:
  "resource_id s \<Longrightarrow> CHR '':'' \<notin> set s" "resource_id s \<Longrightarrow> CHR ''/'' \<notin> set s"
  using resource_id_chars [of s] by (auto simp: is_hex_def)

lemma not_name_char: "\<not> is_name_char (CHR '':'')" "\<not> is_name_char (CHR ''/'')"
  by code_simp+

lemma is_name_notin [simp]:
  "is_name n s \<Longrightarrow> CHR '':'' \<notin> set s" "is_name n s \<Longrightarrow> CHR ''/'' \<notin> set s"
  using not_name_char by (auto simp: is_name_def list_all_iff)

text \<open>A volume of Docker's, or one an App owns, written with a slash.\<close>

definition volume_id :: "string \<Rightarrow> bool" where
  "volume_id v \<longleftrightarrow> resource_id v \<or> (\<exists>a name. resource_id a \<and> is_name 127 name \<and> v = a @ ''/'' @ name)"

lemma root_volume_iff:
  "root_volume s \<longleftrightarrow> resource_id s \<or> (\<exists>a name. resource_id a \<and> is_name 127 name \<and> s = a @ '':'' @ name)"
proof
  assume "root_volume s"
  then obtain a r where s: "s = a @ r" "resource_id a"
    and r: "case r of [] \<Rightarrow> True | c # name \<Rightarrow> c = CHR '':'' \<and> is_name 127 name"
    by (auto simp: root_volume_def take_resource_id_Some split: option.splits)
  then show "resource_id s \<or> (\<exists>a name. resource_id a \<and> is_name 127 name \<and> s = a @ '':'' @ name)"
    by (cases r) auto
next
  assume "resource_id s \<or> (\<exists>a name. resource_id a \<and> is_name 127 name \<and> s = a @ '':'' @ name)"
  then show "root_volume s"
  proof
    assume "resource_id s"
    then show ?thesis using take_resource_id_append [of s "[]"] by (simp add: root_volume_def)
  qed (auto simp: root_volume_def)
qed

lemma root_volume_of_volume: "volume_id v \<Longrightarrow> root_volume (replace_first (CHR ''/'') (CHR '':'') v)"
  by (auto simp: volume_id_def root_volume_iff replace_first_notin replace_first_append)

lemma replace_first_volume:
  "volume_id v \<Longrightarrow> replace_first (CHR '':'') (CHR ''/'') (replace_first (CHR ''/'') (CHR '':'') v) = v"
  by (auto simp: volume_id_def replace_first_notin replace_first_append)

lemma app_volume_from_file_root_Some:
  "app_volume_from_file_root s = Some (a, v) \<longleftrightarrow>
     (\<exists>r. s = ''app:'' @ a @ '':volume:'' @ r \<and> resource_id a \<and> root_volume r \<and>
        v = replace_first (CHR '':'') (CHR ''/'') r)"
proof
  assume "app_volume_from_file_root s = Some (a, v)"
  then show "\<exists>r. s = ''app:'' @ a @ '':volume:'' @ r \<and> resource_id a \<and> root_volume r \<and>
      v = replace_first (CHR '':'') (CHR ''/'') r"
    unfolding app_volume_from_file_root_def
    by (auto simp: after_prefix_Some take_resource_id_Some simp del: append_Cons append_Nil
        split: option.splits if_splits)
next
  assume "\<exists>r. s = ''app:'' @ a @ '':volume:'' @ r \<and> resource_id a \<and> root_volume r \<and>
      v = replace_first (CHR '':'') (CHR ''/'') r"
  then show "app_volume_from_file_root s = Some (a, v)"
    unfolding app_volume_from_file_root_def
    by (auto simp del: append_Cons append_Nil after_prefix.simps)
qed

lemma app_volume_from_own_root:
  "resource_id a \<Longrightarrow> volume_id v \<Longrightarrow>
   app_volume_from_file_root (app_volume_file_root_id a v) = Some (a, v)"
  using root_volume_of_volume replace_first_volume
  by (auto simp: app_volume_from_file_root_Some app_volume_file_root_id_def)

lemma app_id_from_own_root [simp]: "resource_id a \<Longrightarrow> app_id_from_file_root (app_file_root_id a) = Some a"
proof -
  assume a: "resource_id a"
  have "app_volume_from_file_root (''app:'' @ a) = None"
  proof (cases "app_volume_from_file_root (''app:'' @ a)")
    case (Some p)
    then obtain b v r where "a = b @ '':volume:'' @ r" "resource_id b"
      by (cases p) (auto simp: app_volume_from_file_root_Some)
    with a resource_id_notin(1) [OF a] show ?thesis by simp
  qed simp
  with a show ?thesis
    by (simp add: app_id_from_file_root_def app_file_root_id_def del: after_prefix.simps append_Cons append_Nil)
qed

lemma relay_root_chars: "is_relay_file_root s \<Longrightarrow> CHR '':'' \<notin> set s \<and> length s = 43"
proof -
  have "\<not> is_base64url (CHR '':'')" by code_simp
  then show "is_relay_file_root s \<Longrightarrow> CHR '':'' \<notin> set s \<and> length s = 43"
    by (auto simp: is_relay_file_root_def list_all_iff)
qed

lemma app_prefix_None: "CHR '':'' \<notin> set s \<Longrightarrow> app_id_from_file_root s = None"
  by (auto simp: app_id_from_file_root_def after_prefix_Some split: option.split)

lemma database_prefix_None: "CHR '':'' \<notin> set s \<Longrightarrow> database_id_from_file_root s = None"
  by (auto simp: database_id_from_file_root_def after_prefix_Some split: option.split)

lemma app_root_is_app:
  assumes "file_root_id_schema s" and "\<exists>r. s = ''app:'' @ r"
  shows "app_id_from_file_root s \<noteq> None"
proof -
  obtain r where s: "s = ''app:'' @ r" using assms(2) by blast
  have no: "\<not> resource_id s" "\<not> is_relay_file_root s"
    using resource_id_notin(1) [of s] relay_root_chars [of s] by (auto simp: s)
  show ?thesis
  proof (cases "resource_id r")
    case True
    then show ?thesis using app_id_from_own_root [OF True] by (simp add: s app_file_root_id_def)
  next
    case False
    with assms(1) no obtain a vol where "r = a @ '':volume:'' @ vol" "resource_id a" "root_volume vol"
      by (auto simp: file_root_id_schema_def s after_prefix_Some take_resource_id_Some
          simp del: append_Cons append_Nil after_prefix.simps split: option.splits)
    then have "app_volume_from_file_root s = Some (a, replace_first (CHR '':'') (CHR ''/'') vol)"
      by (auto simp: app_volume_from_file_root_Some s)
    then show ?thesis by (simp add: app_id_from_file_root_def s)
  qed
qed

section \<open>Properties\<close>

text \<open>A root made for an App's volume reads back as that App and that volume, belongs to the
  App, is accepted as a file root and is no server's, so it takes the App's permissions.\<close>

lemma app_volume_root_roundtrip:
  assumes "resource_id a" and "volume_id v"
  shows "app_volume_from_file_root (app_volume_file_root_id a v) = Some (a, v) \<and>
    app_id_from_file_root (app_volume_file_root_id a v) = Some a \<and>
    file_root_id_schema (app_volume_file_root_id a v) \<and> \<not> is_server_file_root (app_volume_file_root_id a v)"
proof -
  have r: "app_volume_file_root_id a v = ''app:'' @ a @ '':volume:'' @ replace_first (CHR ''/'') (CHR '':'') v"
    by (simp add: app_volume_file_root_id_def)
  have 1: "app_volume_from_file_root (app_volume_file_root_id a v) = Some (a, v)"
    by (rule app_volume_from_own_root [OF assms])
  have 2: "app_id_from_file_root (app_volume_file_root_id a v) = Some a"
    unfolding app_id_from_file_root_def 1 by (simp add: r)
  have 3: "file_root_id_schema (app_volume_file_root_id a v)"
    unfolding file_root_id_schema_def r
    using assms root_volume_of_volume [OF assms(2)]
    by (simp del: append_Cons append_Nil after_prefix.simps)
  show ?thesis using 1 2 3 by (simp add: is_server_file_root_def)
qed

lemma app_volume_root_roundtrip_example:
  "app_volume_from_file_root (app_volume_file_root_id (replicate 40 CHR ''a'') (replicate 40 CHR ''b'' @ ''/data'')) =
     Some (replicate 40 CHR ''a'', replicate 40 CHR ''b'' @ ''/data'')"
proof -
  have "resource_id (replicate 40 CHR ''a'')" "resource_id (replicate 40 CHR ''b'')" "is_name 127 ''data''"
    by code_simp+
  then show ?thesis
    using app_volume_root_roundtrip [of "replicate 40 CHR ''a''" "replicate 40 CHR ''b'' @ ''/data''"]
    by (auto simp: volume_id_def)
qed

text \<open>Every accepted file root is exactly one of an App's, a server's or a Relay host's, and a
  server's is a bare resource ID.\<close>

lemma file_roots_disjoint:
  assumes "file_root_id_schema s"
  shows "(is_server_file_root s \<longleftrightarrow> resource_id s) \<and>
    (app_id_from_file_root s \<noteq> None \<longleftrightarrow> \<not> resource_id s \<and> \<not> is_relay_file_root s) \<and>
    \<not> (resource_id s \<and> is_relay_file_root s) \<and> database_id_from_file_root s = None"
proof -
  have both: "\<not> (resource_id s \<and> is_relay_file_root s)"
    by (auto simp: resource_id_def is_relay_file_root_def)
  show ?thesis
  proof (cases "\<exists>r. s = ''app:'' @ r")
    case True
    then have "CHR '':'' \<in> set s" by auto
    then have "\<not> resource_id s" "\<not> is_relay_file_root s"
      using resource_id_notin(1) [of s] relay_root_chars [of s] by auto
    moreover have "database_id_from_file_root s = None"
      using True by (auto simp: database_id_from_file_root_def)
    ultimately show ?thesis
      using app_root_is_app [OF assms True] by (simp add: is_server_file_root_def)
  next
    case False
    then have n: "after_prefix ''app:'' s = None" by (simp add: after_prefix_None)
    with assms have "resource_id s \<or> is_relay_file_root s" by (simp add: file_root_id_schema_def)
    moreover from this have "CHR '':'' \<notin> set s"
      using resource_id_notin(1) [of s] relay_root_chars [of s] by auto
    ultimately show ?thesis
      using both app_prefix_None [of s] database_prefix_None [of s] by (auto simp: is_server_file_root_def)
  qed
qed

lemma file_roots_disjoint_example: "is_server_file_root (replicate 40 CHR ''c'')"
proof -
  have "resource_id (replicate 40 CHR ''c'')" by code_simp
  then show ?thesis
    using file_roots_disjoint [of "replicate 40 CHR ''c''"] by (simp add: file_root_id_schema_def)
qed

text \<open>A Tailscale member ID reads back as the one it was made for and as no other kind.\<close>

lemma tailscale_member_roundtrip:
  assumes "resource_id i" and "app_service_name service"
  shows "instance_tailscale_member (instance_tailscale_member_id i) = Some i \<and>
    database_tailscale_member (database_tailscale_member_id i) = Some i \<and>
    app_tailscale_member (app_tailscale_member_id i service) = Some (i, service) \<and>
    instance_tailscale_member (database_tailscale_member_id i) = None \<and>
    instance_tailscale_member (app_tailscale_member_id i service) = None \<and>
    database_tailscale_member (instance_tailscale_member_id i) = None \<and>
    database_tailscale_member (app_tailscale_member_id i service) = None \<and>
    app_tailscale_member (instance_tailscale_member_id i) = None \<and>
    app_tailscale_member (database_tailscale_member_id i) = None \<and>
    legacy_tailscale_member_id i = Some (instance_tailscale_member_id i)"
proof -
  have "app_tailscale_member (app_tailscale_member_id i service) = Some (i, service)"
    unfolding app_tailscale_member_def app_tailscale_member_id_def after_prefix_append option.case
      take_resource_id_append [OF assms(1)] prod.case using assms(2) by simp
  moreover have "instance_tailscale_member (instance_tailscale_member_id i) = Some i"
    "database_tailscale_member (database_tailscale_member_id i) = Some i"
    unfolding instance_tailscale_member_def instance_tailscale_member_id_def
      database_tailscale_member_def database_tailscale_member_id_def after_prefix_append option.case
    using assms(1) by simp_all
  ultimately show ?thesis
    using assms(1)
    by (simp add: instance_tailscale_member_def instance_tailscale_member_id_def
      database_tailscale_member_def database_tailscale_member_id_def app_tailscale_member_def
      app_tailscale_member_id_def legacy_tailscale_member_id_def)
qed

lemma tailscale_member_roundtrip_example:
  "app_tailscale_member (app_tailscale_member_id (replicate 40 CHR ''a'') ''web'') = Some (replicate 40 CHR ''a'', ''web'')"
proof -
  have "resource_id (replicate 40 CHR ''a'')" "app_service_name ''web''" by code_simp+
  then show ?thesis using tailscale_member_roundtrip by blast
qed

end
