(* ===== verification/Lane_Keys.thy ===== *)
theory Lane_Keys
  imports Lanes
begin

text \<open>
  \<open>apps/relay/src/operation-lanes.ts\<close>: the keys of the Relay's lanes and the refusals it
  checks as an operation's turn comes. What refuses is an interface (\<open>lane_refusal\<close>): the
  freezes of resources being deleted and the fences of unfinished restores provide it, the
  Relay's lanes use it.
\<close>

section \<open>Lane keys\<close>

definition key_app :: "string \<Rightarrow> string" where
  "key_app i = ''app:'' @ i"

definition key_app_files :: "string \<Rightarrow> string" where
  "key_app_files i = ''app:'' @ i @ ''/files''"

definition key_app_lifecycle :: "string \<Rightarrow> string" where
  "key_app_lifecycle i = ''app:'' @ i @ ''/lifecycle''"

definition key_app_volumes :: "string \<Rightarrow> string" where
  "key_app_volumes i = ''app:'' @ i @ ''/volumes''"

definition key_database :: "string \<Rightarrow> string" where
  "key_database i = ''database:'' @ i"

definition key_database_connections :: "string \<Rightarrow> string" where
  "key_database_connections i = ''database:'' @ i @ ''/connections''"

definition key_database_lifecycle :: "string \<Rightarrow> string" where
  "key_database_lifecycle i = ''database:'' @ i @ ''/lifecycle''"

definition key_host_files :: string where
  "key_host_files = ''relay:host-files''"

definition key_host_packages :: string where
  "key_host_packages = ''relay:host-packages''"

definition key_instance :: "string \<Rightarrow> string" where
  "key_instance i = ''instance:'' @ i"

definition key_instance_files :: "string \<Rightarrow> string" where
  "key_instance_files i = ''instance:'' @ i @ ''/files''"

definition key_instance_lifecycle :: "string \<Rightarrow> string" where
  "key_instance_lifecycle i = ''instance:'' @ i @ ''/lifecycle''"

definition key_instance_metadata :: "string \<Rightarrow> string" where
  "key_instance_metadata i = ''instance:'' @ i @ ''/metadata''"

definition key_routes :: string where
  "key_routes = ''relay:routes''"

definition key_allocations :: string where
  "key_allocations = ''relay:allocations''"

definition key_tailscale :: string where
  "key_tailscale = ''relay:tailscale''"

definition key_platform :: string where
  "key_platform = ''relay:platform''"

definition key_volume :: "string \<Rightarrow> string" where
  "key_volume i = ''volume:'' @ i"

definition key_volume_files :: "string \<Rightarrow> string" where
  "key_volume_files i = ''volume:'' @ i @ ''/files''"

definition key_docker_cleanup :: string where
  "key_docker_cleanup = ''relay:docker-cleanup''"

definition key_desktop :: string where
  "key_desktop = ''relay:desktop''"

definition key_desktop_image :: string where
  "key_desktop_image = ''relay:desktop-image''"

lemmas lane_key_defs =
  key_app_def key_app_files_def key_app_lifecycle_def key_app_volumes_def
  key_database_def key_database_connections_def key_database_lifecycle_def key_host_files_def
  key_host_packages_def key_instance_def key_instance_files_def key_instance_lifecycle_def
  key_instance_metadata_def key_routes_def key_allocations_def key_tailscale_def
  key_platform_def key_volume_def key_volume_files_def key_docker_cleanup_def
  key_desktop_def key_desktop_image_def

text \<open>Keys with an ID end in what part of the resource they name.\<close>

lemma append_eq_rev: "x @ a = y @ b \<longleftrightarrow> rev a @ rev x = rev b @ rev y"
  by (metis rev_append rev_rev_ident)

section \<open>Refusals\<close>

type_synonym lane_refusal_fn = "string \<Rightarrow> lane_lock list \<Rightarrow> string option"

fun first_refusal :: "lane_refusal_fn list \<Rightarrow> lane_refusal_fn" where
  "first_refusal [] label locks = None"
| "first_refusal (refusal # refusals) label locks =
     (if truthy (refusal label locks) then refusal label locks else first_refusal refusals label locks)"

record frozen_resources =
  fr_has :: "string \<Rightarrow> string \<Rightarrow> bool"
  fr_refusal :: lane_refusal_fn

text \<open>The Relay's lanes: the lanes of \<open>packages/operations\<close> with what refuses an operation.\<close>

record 'p relay_lanes =
  rl_lanes :: "'p lanes"
  rl_frozen :: "frozen_resources option"
  rl_refusals :: "lane_refusal_fn list"

definition new_relay_lanes :: "nat option \<Rightarrow> frozen_resources option \<Rightarrow> 'p relay_lanes" where
  "new_relay_lanes max_waiting frozen =
     \<lparr>rl_lanes = new_lanes \<lparr>opt_max_waiting = max_waiting, opt_busy = Some ''The Relay is busy; try again shortly'',
        opt_paused = Some (\<lambda>label. label @ '' didn't run: this Relay is paused'')\<rparr>,
      rl_frozen = frozen,
      rl_refusals = (case frozen of None \<Rightarrow> [] | Some f \<Rightarrow> [fr_refusal f])\<rparr>"

definition add_refusal :: "lane_refusal_fn \<Rightarrow> 'p relay_lanes \<Rightarrow> 'p relay_lanes" where
  "add_refusal refusal r = r\<lparr>rl_refusals := rl_refusals r @ [refusal]\<rparr>"

definition refusal_for :: "'p relay_lanes \<Rightarrow> lane_refusal_fn" where
  "refusal_for r label locks = first_refusal (rl_refusals r) label locks"

definition relay_is_frozen :: "'p relay_lanes \<Rightarrow> string \<Rightarrow> string \<Rightarrow> bool" where
  "relay_is_frozen r kind i = (case rl_frozen r of None \<Rightarrow> False | Some f \<Rightarrow> fr_has f kind i)"

text \<open>What a step of the Relay's lanes sees: its refusals as they are then.\<close>

definition relay_env :: "'p relay_lanes \<Rightarrow> ('p \<Rightarrow> bool) \<Rightarrow> 'p lane_env" where
  "relay_env r holds = \<lparr>env_refuse = first_refusal (rl_refusals r), env_holds = holds\<rparr>"

section \<open>The interface of a refusal\<close>

text \<open>
  A provider guards single locks against labels, more so the stronger the lock, and refuses
  an operation exactly when it guards one of its locks.
\<close>

locale lane_refusal =
  fixes refusal :: "'s \<Rightarrow> lane_refusal_fn"
    and guards :: "'s \<Rightarrow> string \<Rightarrow> lane_lock \<Rightarrow> bool"
    and wf :: "'s \<Rightarrow> bool"
  assumes refuses_iff: "wf s \<Longrightarrow> truthy (refusal s label locks) \<longleftrightarrow> (\<exists>l\<in>set locks. guards s label l)"
    and guards_mono: "guards s label l \<Longrightarrow> lkey l' = lkey l \<Longrightarrow> lmode l \<le> lmode l' \<Longrightarrow> guards s label l'"
begin

lemma refuses_more:
  "wf s \<Longrightarrow> truthy (refusal s label locks) \<Longrightarrow> set locks \<subseteq> set locks' \<Longrightarrow> truthy (refusal s label locks')"
  by (auto simp: refuses_iff)

lemma refuses_normalized:
  assumes wf: "wf s"
  shows "truthy (refusal s label (normalize_locks locks)) \<longleftrightarrow> truthy (refusal s label locks)"
proof
  assume "truthy (refusal s label (normalize_locks locks))"
  then obtain l where l: "l \<in> set (normalize_locks locks)" "guards s label l" using wf by (auto simp: refuses_iff)
  have "l \<in> set locks"
    using l(1) by (cases l rule: lane_lock_cases) (auto simp: set_normalize_locks strongest_def split: if_splits)
  with l(2) wf show "truthy (refusal s label locks)" by (auto simp: refuses_iff)
next
  assume "truthy (refusal s label locks)"
  then obtain l where l: "l \<in> set locks" "guards s label l" using wf by (auto simp: refuses_iff)
  obtain m where m: "strongest locks (lkey l) = Some m" "lmode l \<le> m"
    using strongest_ge [OF l(1)] by blast
  have "guards s label \<lparr>lkey = lkey l, lmode = m\<rparr>" by (rule guards_mono [OF l(2)]) (simp_all add: m(2))
  with m(1) wf show "truthy (refusal s label (normalize_locks locks))"
    by (auto simp: refuses_iff set_normalize_locks intro!: exI [of _ "\<lparr>lkey = lkey l, lmode = m\<rparr>"])
qed

lemma not_refused: "wf s \<Longrightarrow> \<not> truthy (refusal s label locks) \<Longrightarrow> l \<in> set locks \<Longrightarrow> \<not> guards s label l"
  by (auto simp: refuses_iff)

end

lemma first_refusal_truthy:
  "truthy (first_refusal refusals label locks) \<longleftrightarrow> (\<exists>r\<in>set refusals. truthy (r label locks))"
  by (induction refusals) auto

end
