(* ===== verification/Freezes.thy ===== *)
theory Freezes
  imports Lane_Keys
begin

text \<open>
  \<open>apps/relay/src/resource-freezes.ts\<close> with the table of \<open>effect/state.ts\<close> it keeps in step
  with: resources frozen for their deletion. A method awaits the table and then changes the
  map; the operation that calls it holds the resource's lock, so the two are one step here.
  The callbacks that quiet and restore a resource are given by what they record and whether
  they fail.
\<close>

section \<open>State\<close>

record restart_policy =
  maximum_retry_count :: int
  policy_name :: string

type_synonym freeze_undo = "string \<rightharpoonup> restart_policy"

record freeze_record =
  fz_deletion :: string
  fz_id :: string
  fz_kind :: string

record frozen =
  fr_deletion :: string
  fr_undo :: freeze_undo

record stored_freeze =
  sf_kind :: string
  sf_id :: string
  sf_deletion :: string
  sf_undo :: freeze_undo

text \<open>The table's primary key is the kind and the ID.\<close>

type_synonym freeze_table = "stored_freeze list"

record freezes =
  fs_frozen :: "(string \<times> frozen) list"
  fs_table :: freeze_table

definition freeze_key :: "string \<Rightarrow> string \<Rightarrow> string" where
  "freeze_key kind i = kind @ '':'' @ i"

section \<open>The table\<close>

definition row_of :: "string \<Rightarrow> string \<Rightarrow> stored_freeze \<Rightarrow> bool" where
  "row_of kind i r \<longleftrightarrow> sf_kind r = kind \<and> sf_id r = i"

definition list_resource_freezes :: "freeze_table \<Rightarrow> stored_freeze list" where
  "list_resource_freezes t = t"

definition set_resource_freeze_undo :: "freeze_record \<Rightarrow> freeze_undo \<Rightarrow> freeze_table \<Rightarrow> freeze_table" where
  "set_resource_freeze_undo f undo t =
     map (\<lambda>r. if row_of (fz_kind f) (fz_id f) r \<and> sf_deletion r = fz_deletion f then r\<lparr>sf_undo := undo\<rparr> else r) t"

definition freeze_resource :: "freeze_record \<Rightarrow> freeze_table \<Rightarrow> string \<times> freeze_table" where
  "freeze_resource f t =
     (let t' = (if \<exists>r\<in>set t. row_of (fz_kind f) (fz_id f) r then t
                else t @ [\<lparr>sf_kind = fz_kind f, sf_id = fz_id f, sf_deletion = fz_deletion f, sf_undo = Map.empty\<rparr>])
      in (case find (row_of (fz_kind f) (fz_id f)) t' of None \<Rightarrow> fz_deletion f | Some r \<Rightarrow> sf_deletion r, t'))"

definition unfreeze_resource :: "freeze_record \<Rightarrow> freeze_table \<Rightarrow> freeze_table" where
  "unfreeze_resource f t =
     filter (\<lambda>r. \<not> (row_of (fz_kind f) (fz_id f) r \<and> sf_deletion r = fz_deletion f)) t"

definition forget_resource_freeze :: "string \<Rightarrow> string \<Rightarrow> freeze_table \<Rightarrow> freeze_table" where
  "forget_resource_freeze kind i t = filter (\<lambda>r. \<not> row_of kind i r) t"

section \<open>The freezes\<close>

definition load_freezes :: "freeze_table \<Rightarrow> freezes" where
  "load_freezes t =
     \<lparr>fs_frozen = foldl (\<lambda>m r. AList.update (freeze_key (sf_kind r) (sf_id r))
          \<lparr>fr_deletion = sf_deletion r, fr_undo = sf_undo r\<rparr> m) [] (list_resource_freezes t),
      fs_table = t\<rparr>"

text \<open>
  \<open>record\<close>: each change is recorded before it's made, and what was recorded first wins. The
  entry it changes is the one in the map under \<open>resource\<close>, an object they share.
\<close>

definition record_undo :: "string \<Rightarrow> freeze_record \<Rightarrow> freeze_undo \<Rightarrow> freezes \<Rightarrow> freezes" where
  "record_undo resource f changed s =
     (case map_of (fs_frozen s) resource of
        None \<Rightarrow> s
      | Some frozen \<Rightarrow>
          let undo = changed ++ fr_undo frozen in
          s\<lparr>fs_frozen := AList.update resource (frozen\<lparr>fr_undo := undo\<rparr>) (fs_frozen s),
            fs_table := set_resource_freeze_undo f undo (fs_table s)\<rparr>)"

text \<open>What \<open>apply\<close> does: the changes it records, in order, and how it fails, if it does.\<close>

type_synonym quiet_outcome = "freeze_undo list \<times> string option"

definition apply_quiet :: "string \<Rightarrow> freeze_record \<Rightarrow> quiet_outcome \<Rightarrow> freezes \<Rightarrow> (string + unit) \<times> freezes" where
  "apply_quiet resource f outcome s =
     (case snd outcome of None \<Rightarrow> Inr () | Some e \<Rightarrow> Inl e,
      fold (record_undo resource f) (fst outcome) s)"

definition freeze :: "freeze_record \<Rightarrow> quiet_outcome \<Rightarrow> freezes \<Rightarrow> (string + unit) \<times> freezes" where
  "freeze f outcome s =
     (case freeze_resource f (fs_table s) of
        (holder, t) \<Rightarrow>
          if holder \<noteq> fz_deletion f
          then (Inl ''Another deletion of it is already under way'', s\<lparr>fs_table := t\<rparr>)
          else
            let k = freeze_key (fz_kind f) (fz_id f);
                frozen = (case map_of (fs_frozen s) k of
                   None \<Rightarrow> \<lparr>fr_deletion = fz_deletion f, fr_undo = Map.empty\<rparr> | Some x \<Rightarrow> x)
            in apply_quiet k f outcome (s\<lparr>fs_table := t, fs_frozen := AList.update k frozen (fs_frozen s)\<rparr>))"

text \<open>\<open>resource.split(":")\<close>, of which the first two parts are read.\<close>

fun split_colon :: "string \<Rightarrow> string list" where
  "split_colon [] = [[]]"
| "split_colon (c # cs) =
     (if c = CHR '':'' then [] # split_colon cs
      else case split_colon cs of [] \<Rightarrow> [[c]] | p # ps \<Rightarrow> (c # p) # ps)"

fun reapply :: "(freeze_record \<Rightarrow> quiet_outcome) \<Rightarrow> (string \<times> frozen) list \<Rightarrow> freezes \<Rightarrow> (string + unit) \<times> freezes" where
  "reapply apply [] s = (Inr (), s)"
| "reapply apply ((resource, frozen) # rest) s =
     (let parts = split_colon resource;
          f = \<lparr>fz_deletion = fr_deletion frozen, fz_id = (if length parts > 1 then parts ! 1 else []),
               fz_kind = hd parts\<rparr>
      in case apply_quiet resource f (apply f) s of
           (Inl e, s') \<Rightarrow> (Inl e, s')
         | (Inr _, s') \<Rightarrow> reapply apply rest s')"

definition reapply_all :: "(freeze_record \<Rightarrow> quiet_outcome) \<Rightarrow> freezes \<Rightarrow> (string + unit) \<times> freezes" where
  "reapply_all apply s = reapply apply (fs_frozen s) s"

text \<open>\<open>restore\<close> gets what freezing changed and may fail, which leaves the resource frozen.\<close>

definition unfreeze :: "freeze_record \<Rightarrow> (freeze_undo \<Rightarrow> string option) \<Rightarrow> freezes \<Rightarrow> (string + unit) \<times> freezes" where
  "unfreeze f restore s =
     (let k = freeze_key (fz_kind f) (fz_id f) in
      case map_of (fs_frozen s) k of
        None \<Rightarrow> (Inr (), s)
      | Some frozen \<Rightarrow>
          if fr_deletion frozen \<noteq> fz_deletion f then (Inr (), s)
          else case restore (fr_undo frozen) of
            Some e \<Rightarrow> (Inl e, s)
          | None \<Rightarrow> (Inr (), s\<lparr>fs_table := unfreeze_resource f (fs_table s), fs_frozen := AList.delete k (fs_frozen s)\<rparr>))"

definition forget_freeze :: "string \<Rightarrow> string \<Rightarrow> freezes \<Rightarrow> freezes" where
  "forget_freeze kind i s =
     s\<lparr>fs_table := forget_resource_freeze kind i (fs_table s), fs_frozen := AList.delete (freeze_key kind i) (fs_frozen s)\<rparr>"

definition freezes_has :: "freezes \<Rightarrow> string \<Rightarrow> string \<Rightarrow> bool" where
  "freezes_has s kind i \<longleftrightarrow> map_of (fs_frozen s) (freeze_key kind i) \<noteq> None"

section \<open>What a freeze refuses\<close>

definition freeze_allowed :: "string \<Rightarrow> string list" where
  "freeze_allowed kind =
     (if kind = ''app'' then [''app.delete'']
      else if kind = ''database'' then [''database.delete'']
      else if kind = ''instance'' then [''instance.delete'']
      else if kind = ''volume'' then [''relay.volumes.delete'']
      else [])"

definition freeze_allowed_for_every :: "string list" where
  "freeze_allowed_for_every = [''backup.create'', ''resource.freeze'', ''resource.unfreeze'']"

definition freeze_refusals :: "string \<Rightarrow> string option" where
  "freeze_refusals kind =
     (if kind = ''app'' then Some ''This App is being deleted''
      else if kind = ''database'' then Some ''This database is being deleted''
      else if kind = ''instance'' then Some ''This game server is being deleted''
      else if kind = ''volume'' then Some ''This volume is being deleted''
      else None)"

definition member_nouns :: "string \<Rightarrow> string" where
  "member_nouns kind =
     (if kind = ''app'' then ''App''
      else if kind = ''database'' then ''Database''
      else if kind = ''instance'' then ''Game server''
      else if kind = ''volume'' then ''Volume''
      else ''undefined'')"

text \<open>The resource a lock key names, and its kind and ID around the first colon.\<close>

definition lock_resource :: "lane_lock \<Rightarrow> string" where
  "lock_resource l = takeWhile (\<lambda>c. c \<noteq> CHR ''/'') (lkey l)"

definition resource_kind :: "string \<Rightarrow> string" where
  "resource_kind r = takeWhile (\<lambda>c. c \<noteq> CHR '':'') r"

definition resource_short_id :: "string \<Rightarrow> string" where
  "resource_short_id r = take 8 (drop (Suc (length (resource_kind r))) r)"

definition starts_with :: "string \<Rightarrow> string \<Rightarrow> bool" where
  "starts_with p s \<longleftrightarrow> take (length p) s = p"

fun freeze_refusal_of :: "freezes \<Rightarrow> string \<Rightarrow> lane_lock list \<Rightarrow> string option" where
  "freeze_refusal_of s label [] = None"
| "freeze_refusal_of s label (l # ls) =
     (let resource = lock_resource l; kind = resource_kind resource in
      if map_of (fs_frozen s) resource = None then freeze_refusal_of s label ls
      else if label \<in> set (freeze_allowed kind) then freeze_refusal_of s label ls
      else if starts_with ''relay.tailscale.stack.'' label
      then Some (member_nouns kind @ '' '' @ resource_short_id resource @ '' on this network is being deleted'')
      else freeze_refusals kind)"

definition freezes_refusal :: "freezes \<Rightarrow> lane_refusal_fn" where
  "freezes_refusal s label locks =
     (if fs_frozen s = [] \<or> label \<in> set freeze_allowed_for_every then None
      else freeze_refusal_of s label locks)"

text \<open>The freezes as the lanes see them.\<close>

definition frozen_resources_of :: "freezes \<Rightarrow> frozen_resources" where
  "frozen_resources_of s = \<lparr>fr_has = freezes_has s, fr_refusal = freezes_refusal s\<rparr>"

section \<open>The map and the table agree\<close>

definition freeze_kind :: "string \<Rightarrow> bool" where
  "freeze_kind kind \<longleftrightarrow> kind \<in> {''app'', ''database'', ''instance'', ''volume''}"

definition freezes_wf :: "freezes \<Rightarrow> bool" where
  "freezes_wf s \<longleftrightarrow> distinct (map fst (fs_frozen s)) \<and> (\<forall>k. map_of (fs_frozen s) k \<noteq> None \<longrightarrow>
     (\<exists>kind i. freeze_kind kind \<and> CHR '':'' \<notin> set i \<and> k = freeze_key kind i))"

definition table_wf :: "freeze_table \<Rightarrow> bool" where
  "table_wf t \<longleftrightarrow> distinct (map (\<lambda>r. (sf_kind r, sf_id r)) t) \<and> (\<forall>r\<in>set t. freeze_kind (sf_kind r) \<and> CHR '':'' \<notin> set (sf_id r))"

definition entry_of :: "stored_freeze \<Rightarrow> frozen" where
  "entry_of r = \<lparr>fr_deletion = sf_deletion r, fr_undo = sf_undo r\<rparr>"

definition lookup_row :: "freeze_table \<Rightarrow> string \<Rightarrow> string \<Rightarrow> stored_freeze option" where
  "lookup_row t kind i = find (row_of kind i) t"

text \<open>In step: the map holds exactly the table's rows, under their keys.\<close>

definition freezes_inv :: "freezes \<Rightarrow> bool" where
  "freezes_inv s \<longleftrightarrow> freezes_wf s \<and> table_wf (fs_table s) \<and>
     (\<forall>kind i. freeze_kind kind \<longrightarrow>
        map_of (fs_frozen s) (freeze_key kind i) = map_option entry_of (lookup_row (fs_table s) kind i))"

lemma freeze_kind_no_colon: "freeze_kind kind \<Longrightarrow> CHR '':'' \<notin> set kind"
  by (auto simp: freeze_kind_def)

lemma takeWhile_upto: "c \<notin> set xs \<Longrightarrow> takeWhile (\<lambda>x. x \<noteq> c) (xs @ c # ys) = xs"
  by (induction xs) auto

lemma freeze_key_inj:
  assumes "freeze_kind k" "freeze_kind k'"
  shows "freeze_key k i = freeze_key k' i' \<longleftrightarrow> k = k' \<and> i = i'"
proof
  assume eq: "freeze_key k i = freeze_key k' i'"
  then have "takeWhile (\<lambda>c. c \<noteq> CHR '':'') (k @ CHR '':'' # i) = takeWhile (\<lambda>c. c \<noteq> CHR '':'') (k' @ CHR '':'' # i')"
    by (simp add: freeze_key_def)
  then have "k = k'"
    using freeze_kind_no_colon [OF assms(1)] freeze_kind_no_colon [OF assms(2)] by (simp add: takeWhile_upto)
  with eq show "k = k' \<and> i = i'" by (simp add: freeze_key_def)
qed simp

lemma table_wf_Nil [simp]: "table_wf []"
  by (simp add: table_wf_def)

lemma lookup_row_Some: "lookup_row t kind i = Some r \<Longrightarrow> r \<in> set t \<and> sf_kind r = kind \<and> sf_id r = i"
  unfolding lookup_row_def by (induction t) (auto simp: row_of_def split: if_splits)

lemma lookup_row_append:
  "lookup_row (t @ u) kind i = (case lookup_row t kind i of None \<Rightarrow> lookup_row u kind i | Some r \<Rightarrow> Some r)"
  unfolding lookup_row_def by (induction t) auto

lemma lookup_row_None: "lookup_row t kind i = None \<longleftrightarrow> (\<forall>r\<in>set t. \<not> row_of kind i r)"
  unfolding lookup_row_def by (induction t) auto

lemma row_unique:
  "distinct (map (\<lambda>r. (sf_kind r, sf_id r)) t) \<Longrightarrow> r \<in> set t \<Longrightarrow> r' \<in> set t \<Longrightarrow>
   row_of kind i r \<Longrightarrow> row_of kind i r' \<Longrightarrow> r = r'"
  by (auto simp: distinct_map inj_on_def row_of_def)

lemma lookup_row_iff:
  assumes d: "distinct (map (\<lambda>r. (sf_kind r, sf_id r)) t)"
  shows "lookup_row t kind i = Some r \<longleftrightarrow> r \<in> set t \<and> row_of kind i r"
proof
  assume "lookup_row t kind i = Some r"
  then show "r \<in> set t \<and> row_of kind i r" by (auto dest: lookup_row_Some simp: row_of_def)
next
  assume r: "r \<in> set t \<and> row_of kind i r"
  then obtain r' where r': "lookup_row t kind i = Some r'"
    by (cases "lookup_row t kind i") (auto simp: lookup_row_None)
  then have "r' \<in> set t" "row_of kind i r'" by (auto dest: lookup_row_Some simp: row_of_def)
  with row_unique [OF d] r r' show "lookup_row t kind i = Some r" by metis
qed

lemma lookup_row_filter:
  assumes d: "distinct (map (\<lambda>r. (sf_kind r, sf_id r)) t)"
  shows "lookup_row (filter P t) kind i =
     (case lookup_row t kind i of None \<Rightarrow> None | Some r \<Rightarrow> if P r then Some r else None)" (is "_ = ?rhs")
proof (rule option_eqI)
  fix r
  have d': "distinct (map (\<lambda>r. (sf_kind r, sf_id r)) (filter P t))"
    using d by (rule distinct_map_filter)
  show "lookup_row (filter P t) kind i = Some r \<longleftrightarrow> ?rhs = Some r"
  proof (cases "lookup_row t kind i")
    case None
    moreover from None have "\<forall>r\<in>set t. \<not> row_of kind i r" by (simp only: lookup_row_None)
    ultimately show ?thesis unfolding lookup_row_iff [OF d'] by auto
  next
    case (Some q)
    then have "q \<in> set t" "row_of kind i q" by (simp_all add: lookup_row_iff [OF d])
    then have "r \<in> set t \<and> row_of kind i r \<longleftrightarrow> r = q" using row_unique [OF d] by blast
    with Some show ?thesis
      unfolding lookup_row_iff [OF d'] by auto
  qed
qed

lemma lookup_row_map:
  "(\<And>r. sf_kind (g r) = sf_kind r \<and> sf_id (g r) = sf_id r) \<Longrightarrow>
   lookup_row (map g t) kind i = map_option g (lookup_row t kind i)"
  unfolding lookup_row_def by (induction t) (auto simp: row_of_def)

lemma load_freezes_map:
  assumes "table_wf t" and "freeze_kind kind"
  shows "map_of (fs_frozen (load_freezes t)) (freeze_key kind i) = map_option entry_of (lookup_row t kind i)"
proof -
  let ?add = "\<lambda>m r. AList.update (freeze_key (sf_kind r) (sf_id r)) (entry_of r) m"
  have "map_of (foldl ?add m u) (freeze_key kind i) =
      (case lookup_row u kind i of None \<Rightarrow> map_of m (freeze_key kind i) | Some r \<Rightarrow> Some (entry_of r))"
    if "table_wf u" for m u
    using that
  proof (induction u arbitrary: m)
    case (Cons r u)
    have u: "table_wf u" and r: "freeze_kind (sf_kind r)" using Cons.prems by (auto simp: table_wf_def)
    have key: "freeze_key (sf_kind r) (sf_id r) = freeze_key kind i \<longleftrightarrow> row_of kind i r"
      using freeze_key_inj [OF r assms(2)] by (auto simp: row_of_def)
    have "lookup_row u kind i = None" if "row_of kind i r"
      using Cons.prems that by (auto simp: lookup_row_None table_wf_def row_of_def image_iff)
    then show ?case
      using Cons.IH [OF u] key by (auto simp: lookup_row_def split: option.split)
  qed (simp add: lookup_row_def)
  from this [OF assms(1), of "[]"] show ?thesis
    by (simp add: load_freezes_def list_resource_freezes_def map_option_case flip: entry_of_def split: option.split)
qed

lemma dom_load:
  "dom (map_of (foldl (\<lambda>m r. AList.update (freeze_key (sf_kind r) (sf_id r)) (g r) m) m u)) =
     dom (map_of m) \<union> (\<lambda>r. freeze_key (sf_kind r) (sf_id r)) ` set u"
  by (induction u arbitrary: m) auto

lemma distinct_load:
  "distinct (map fst m) \<Longrightarrow>
   distinct (map fst (foldl (\<lambda>m r. AList.update (freeze_key (sf_kind r) (sf_id r)) (g r) m) m u))"
  by (induction u arbitrary: m) (auto simp: distinct_update)

lemma load_freezes_keys:
  "map_of (fs_frozen (load_freezes t)) k = Some x \<Longrightarrow> \<exists>r\<in>set t. k = freeze_key (sf_kind r) (sf_id r)"
proof -
  assume "map_of (fs_frozen (load_freezes t)) k = Some x"
  then have "k \<in> dom (map_of (fs_frozen (load_freezes t)))" by blast
  then show ?thesis
    unfolding load_freezes_def list_resource_freezes_def freezes.simps dom_load by auto
qed

lemma load_freezes_inv:
  assumes t: "table_wf t"
  shows "freezes_inv (load_freezes t)"
proof -
  have "fs_table (load_freezes t) = t" by (simp add: load_freezes_def)
  moreover have "distinct (map fst (fs_frozen (load_freezes t)))"
    unfolding load_freezes_def freezes.simps by (rule distinct_load) simp
  then have "freezes_wf (load_freezes t)"
    using t load_freezes_keys [of t] unfolding freezes_wf_def table_wf_def by blast
  ultimately show ?thesis
    using t load_freezes_map [OF t] by (simp add: freezes_inv_def)
qed

section \<open>Every method keeps them in step\<close>

lemma set_undo_row:
  "lookup_row (set_resource_freeze_undo f undo t) kind i =
     map_option (\<lambda>r. if row_of (fz_kind f) (fz_id f) r \<and> sf_deletion r = fz_deletion f then r\<lparr>sf_undo := undo\<rparr> else r)
       (lookup_row t kind i)"
  unfolding set_resource_freeze_undo_def by (rule lookup_row_map) simp

lemma table_wf_keys:
  "table_wf t \<longleftrightarrow> distinct (map (\<lambda>r. (sf_kind r, sf_id r)) t) \<and>
     list_all (\<lambda>p. freeze_kind (fst p) \<and> CHR '':'' \<notin> set (snd p)) (map (\<lambda>r. (sf_kind r, sf_id r)) t)"
  by (simp add: table_wf_def list_all_iff)

lemma set_undo_wf: "table_wf t \<Longrightarrow> table_wf (set_resource_freeze_undo f undo t)"
proof -
  have "map (\<lambda>r. (sf_kind r, sf_id r)) (set_resource_freeze_undo f undo t) = map (\<lambda>r. (sf_kind r, sf_id r)) t"
    by (simp add: set_resource_freeze_undo_def)
  then show "table_wf t \<Longrightarrow> table_wf (set_resource_freeze_undo f undo t)"
    by (simp only: table_wf_keys)
qed

text \<open>A freeze of a known kind, its ID with no colon, whose entry the map holds.\<close>

definition freeze_ok :: "freeze_record \<Rightarrow> bool" where
  "freeze_ok f \<longleftrightarrow> freeze_kind (fz_kind f) \<and> CHR '':'' \<notin> set (fz_id f)"

abbreviation key_of :: "freeze_record \<Rightarrow> string" where
  "key_of f \<equiv> freeze_key (fz_kind f) (fz_id f)"

definition holds_freeze :: "freezes \<Rightarrow> freeze_record \<Rightarrow> bool" where
  "holds_freeze s f \<longleftrightarrow> (\<exists>x. map_of (fs_frozen s) (key_of f) = Some x \<and> fr_deletion x = fz_deletion f)"

text \<open>Two states agree but for one resource; that one is in step on its own.\<close>

lemma freezes_inv_at:
  assumes inv: "freezes_inv s" and f: "freeze_ok f"
    and wf: "table_wf (fs_table t)" and keys: "distinct (map fst (fs_frozen t))"
    and at: "map_of (fs_frozen t) (key_of f) = map_option entry_of (lookup_row (fs_table t) (fz_kind f) (fz_id f))"
    and mem: "\<And>k. k \<noteq> key_of f \<Longrightarrow> map_of (fs_frozen t) k = map_of (fs_frozen s) k"
    and tab: "\<And>kind i. (kind, i) \<noteq> (fz_kind f, fz_id f) \<Longrightarrow> lookup_row (fs_table t) kind i = lookup_row (fs_table s) kind i"
  shows "freezes_inv t"
proof -
  have kind: "freeze_kind (fz_kind f)" using f by (simp add: freeze_ok_def)
  have "freezes_wf t"
    unfolding freezes_wf_def
  proof (intro conjI allI impI keys)
    fix k assume k: "map_of (fs_frozen t) k \<noteq> None"
    show "\<exists>kind i. freeze_kind kind \<and> CHR '':'' \<notin> set i \<and> k = freeze_key kind i"
    proof (cases "k = key_of f")
      case True
      then show ?thesis using f by (auto simp: freeze_ok_def)
    next
      case False
      then show ?thesis using k inv mem by (auto simp: freezes_inv_def freezes_wf_def)
    qed
  qed
  moreover have "map_of (fs_frozen t) (freeze_key kind' i) = map_option entry_of (lookup_row (fs_table t) kind' i)"
    if k': "freeze_kind kind'" for kind' i
  proof (cases "kind' = fz_kind f \<and> i = fz_id f")
    case True
    with at show ?thesis by simp
  next
    case False
    then have "freeze_key kind' i \<noteq> key_of f" using freeze_key_inj [OF k' kind] by simp
    with False show ?thesis
      using mem tab inv k' by (auto simp: freezes_inv_def)
  qed
  ultimately show ?thesis using wf by (simp add: freezes_inv_def)
qed

lemma record_undo_inv:
  assumes inv: "freezes_inv s" and f: "freeze_ok f" and held: "holds_freeze s f"
  shows "freezes_inv (record_undo (key_of f) f changed s) \<and> holds_freeze (record_undo (key_of f) f changed s) f"
proof -
  obtain x where x: "map_of (fs_frozen s) (key_of f) = Some x" "fr_deletion x = fz_deletion f"
    using held by (auto simp: holds_freeze_def)
  then obtain r where r: "lookup_row (fs_table s) (fz_kind f) (fz_id f) = Some r" "x = entry_of r"
    using inv f by (auto simp: freezes_inv_def freeze_ok_def)
  have rd: "sf_deletion r = fz_deletion f" using x(2) r(2) by (simp add: entry_of_def)
  have rr: "row_of (fz_kind f) (fz_id f) r" using lookup_row_Some [OF r(1)] by (simp add: row_of_def)
  let ?undo = "changed ++ fr_undo x"
  have t: "record_undo (key_of f) f changed s = s\<lparr>fs_frozen := AList.update (key_of f) (x\<lparr>fr_undo := ?undo\<rparr>) (fs_frozen s),
      fs_table := set_resource_freeze_undo f ?undo (fs_table s)\<rparr>"
    by (simp add: record_undo_def x(1) Let_def)
  have other: "lookup_row (set_resource_freeze_undo f ?undo (fs_table s)) kind' i = lookup_row (fs_table s) kind' i"
    if "(kind', i) \<noteq> (fz_kind f, fz_id f)" for kind' i
    using that lookup_row_Some [of "fs_table s" kind' i]
    by (cases "lookup_row (fs_table s) kind' i") (auto simp: set_undo_row row_of_def)
  have "freezes_inv (record_undo (key_of f) f changed s)"
    by (rule freezes_inv_at [OF inv f])
      (use inv rr rd other in \<open>auto simp: t set_undo_wf freezes_inv_def freezes_wf_def set_undo_row r entry_of_def distinct_update\<close>)
  moreover have "holds_freeze (record_undo (key_of f) f changed s) f"
    using x(2) by (simp add: holds_freeze_def t)
  ultimately show ?thesis by blast
qed

lemma fold_record_undo_inv:
  "freezes_inv s \<Longrightarrow> freeze_ok f \<Longrightarrow> holds_freeze s f \<Longrightarrow>
   freezes_inv (fold (record_undo (key_of f) f) us s) \<and> holds_freeze (fold (record_undo (key_of f) f) us s) f"
  by (induction us arbitrary: s) (simp_all add: record_undo_inv)

lemma freeze_resource_cases:
  assumes "table_wf t" and f: "freeze_ok f"
  shows "(case lookup_row t (fz_kind f) (fz_id f) of
      Some r \<Rightarrow> freeze_resource f t = (sf_deletion r, t)
    | None \<Rightarrow> freeze_resource f t = (fz_deletion f,
        t @ [\<lparr>sf_kind = fz_kind f, sf_id = fz_id f, sf_deletion = fz_deletion f, sf_undo = Map.empty\<rparr>]))"
proof (cases "lookup_row t (fz_kind f) (fz_id f)")
  case None
  moreover from None have "\<not> (\<exists>r\<in>set t. row_of (fz_kind f) (fz_id f) r)" by (simp add: lookup_row_None)
  moreover have "find (row_of (fz_kind f) (fz_id f))
      (t @ [\<lparr>sf_kind = fz_kind f, sf_id = fz_id f, sf_deletion = fz_deletion f, sf_undo = Map.empty\<rparr>]) =
      Some \<lparr>sf_kind = fz_kind f, sf_id = fz_id f, sf_deletion = fz_deletion f, sf_undo = Map.empty\<rparr>"
    using None lookup_row_append [of t _ "fz_kind f" "fz_id f"] by (simp add: lookup_row_def row_of_def)
  ultimately show ?thesis by (simp add: freeze_resource_def Let_def)
next
  case (Some r)
  then have "r \<in> set t \<and> row_of (fz_kind f) (fz_id f) r" by (auto dest: lookup_row_Some simp: row_of_def)
  with Some show ?thesis by (auto simp: freeze_resource_def Let_def lookup_row_def)
qed

lemma table_wf_append:
  "table_wf t \<Longrightarrow> freeze_ok f \<Longrightarrow> lookup_row t (fz_kind f) (fz_id f) = None \<Longrightarrow>
   table_wf (t @ [\<lparr>sf_kind = fz_kind f, sf_id = fz_id f, sf_deletion = d, sf_undo = u\<rparr>])"
  by (auto simp: table_wf_def lookup_row_None row_of_def freeze_ok_def)

text \<open>The state as the resource is noted, before \<open>apply\<close>; and when another deletion holds it.\<close>

lemma freeze_inv:
  assumes inv: "freezes_inv s" and f: "freeze_ok f"
  shows "freezes_inv (snd (freeze f outcome s))"
proof -
  have wf: "table_wf (fs_table s)" using inv by (simp add: freezes_inv_def)
  have mem: "map_of (fs_frozen s) (key_of f) = map_option entry_of (lookup_row (fs_table s) (fz_kind f) (fz_id f))"
    using inv f by (simp add: freezes_inv_def freeze_ok_def)
  note cases = freeze_resource_cases [OF wf f]
  show ?thesis
  proof (cases "lookup_row (fs_table s) (fz_kind f) (fz_id f)")
    case None
    let ?r = "\<lparr>sf_kind = fz_kind f, sf_id = fz_id f, sf_deletion = fz_deletion f, sf_undo = Map.empty\<rparr>"
    let ?s = "s\<lparr>fs_table := fs_table s @ [?r],
      fs_frozen := AList.update (key_of f) \<lparr>fr_deletion = fz_deletion f, fr_undo = Map.empty\<rparr> (fs_frozen s)\<rparr>"
    have new: "lookup_row [?r] kind i = (if (kind, i) = (fz_kind f, fz_id f) then Some ?r else None)" for kind i
      by (auto simp: lookup_row_def row_of_def)
    have "freezes_inv ?s"
      by (rule freezes_inv_at [OF inv f])
        (use inv table_wf_append [OF wf f None] None in
          \<open>auto simp: lookup_row_append new entry_of_def freezes_inv_def freezes_wf_def distinct_update split: option.split\<close>)
    moreover have "holds_freeze ?s f" by (simp add: holds_freeze_def)
    ultimately show ?thesis
      using None cases mem fold_record_undo_inv [OF _ f] by (simp add: freeze_def apply_quiet_def Let_def)
  next
    case (Some r)
    then have fr: "freeze_resource f (fs_table s) = (sf_deletion r, fs_table s)" using cases by simp
    have m: "map_of (fs_frozen s) (key_of f) = Some (entry_of r)" using mem Some by simp
    show ?thesis
    proof (cases "sf_deletion r = fz_deletion f")
      case True
      let ?s = "s\<lparr>fs_frozen := AList.update (key_of f) (entry_of r) (fs_frozen s)\<rparr>"
      have "freezes_inv ?s"
        by (rule freezes_inv_at [OF inv f]) (use inv wf Some in \<open>auto simp: freezes_inv_def freezes_wf_def distinct_update\<close>)
      moreover have "holds_freeze ?s f" using True by (simp add: holds_freeze_def entry_of_def)
      ultimately show ?thesis
        using True m fr fold_record_undo_inv [OF _ f] by (simp add: freeze_def apply_quiet_def Let_def)
    next
      case False
      with fr inv show ?thesis by (simp add: freeze_def)
    qed
  qed
qed

lemma table_wf_filter: "table_wf t \<Longrightarrow> table_wf (filter P t)"
  by (auto simp: table_wf_def intro: distinct_map_filter)

lemma unfreeze_inv:
  assumes inv: "freezes_inv s" and f: "freeze_ok f"
  shows "freezes_inv (snd (unfreeze f restore s))"
proof -
  have wf: "table_wf (fs_table s)" using inv by (simp add: freezes_inv_def)
  have mem: "map_of (fs_frozen s) (key_of f) = map_option entry_of (lookup_row (fs_table s) (fz_kind f) (fz_id f))"
    using inv f by (simp add: freezes_inv_def freeze_ok_def)
  show ?thesis
  proof (cases "\<exists>x. map_of (fs_frozen s) (key_of f) = Some x \<and> fr_deletion x = fz_deletion f \<and> restore (fr_undo x) = None")
    case True
    then obtain x where x: "map_of (fs_frozen s) (key_of f) = Some x" "fr_deletion x = fz_deletion f" "restore (fr_undo x) = None"
      by blast
    then obtain r where r: "lookup_row (fs_table s) (fz_kind f) (fz_id f) = Some r" "x = entry_of r" using mem by auto
    let ?t = "s\<lparr>fs_table := unfreeze_resource f (fs_table s), fs_frozen := AList.delete (key_of f) (fs_frozen s)\<rparr>"
    have d: "distinct (map (\<lambda>r. (sf_kind r, sf_id r)) (fs_table s))" using wf by (simp add: table_wf_def)
    have look: "lookup_row (unfreeze_resource f (fs_table s)) kind i =
        (case lookup_row (fs_table s) kind i of None \<Rightarrow> None
         | Some q \<Rightarrow> if row_of (fz_kind f) (fz_id f) q \<and> sf_deletion q = fz_deletion f then None else Some q)" for kind i
      unfolding unfreeze_resource_def lookup_row_filter [OF d] by (simp split: option.split)
    have wf': "table_wf (unfreeze_resource f (fs_table s))" by (simp add: unfreeze_resource_def table_wf_filter wf)
    have "sf_deletion r = fz_deletion f" using x(2) r(2) by (simp add: entry_of_def)
    moreover have "row_of (fz_kind f) (fz_id f) r" using lookup_row_Some [OF r(1)] by (simp add: row_of_def)
    moreover have "\<not> row_of (fz_kind f) (fz_id f) q"
      if "lookup_row (fs_table s) kind i = Some q" "(kind, i) \<noteq> (fz_kind f, fz_id f)" for kind i q
      using lookup_row_Some [OF that(1)] that(2) by (auto simp: row_of_def)
    ultimately have "freezes_inv ?t"
      by (intro freezes_inv_at [OF inv f])
        (use inv wf' in \<open>auto simp: look r(1) freezes_inv_def freezes_wf_def distinct_delete split: option.split\<close>)
    with x show ?thesis by (simp add: unfreeze_def Let_def)
  next
    case False
    then have "snd (unfreeze f restore s) = s"
      by (auto simp: unfreeze_def Let_def split: option.split)
    with inv show ?thesis by simp
  qed
qed

lemma forget_freeze_inv:
  assumes inv: "freezes_inv s" and f: "freeze_kind kind" "CHR '':'' \<notin> set i"
  shows "freezes_inv (forget_freeze kind i s)"
proof -
  have wf: "table_wf (fs_table s)" using inv by (simp add: freezes_inv_def)
  have d: "distinct (map (\<lambda>r. (sf_kind r, sf_id r)) (fs_table s))" using wf by (simp add: table_wf_def)
  have look: "lookup_row (forget_resource_freeze kind i (fs_table s)) k j =
      (case lookup_row (fs_table s) k j of None \<Rightarrow> None | Some q \<Rightarrow> if row_of kind i q then None else Some q)" for k j
    unfolding forget_resource_freeze_def lookup_row_filter [OF d] by (simp split: option.split)
  have row: "lookup_row (fs_table s) k j = Some q \<Longrightarrow> row_of kind i q \<longleftrightarrow> (k, j) = (kind, i)" for k j q
    by (drule lookup_row_Some) (auto simp: row_of_def)
  let ?f = "\<lparr>fz_deletion = [], fz_id = i, fz_kind = kind\<rparr>"
  have wf': "table_wf (forget_resource_freeze kind i (fs_table s))" by (simp add: forget_resource_freeze_def table_wf_filter wf)
  have ok: "freeze_ok ?f" using f by (simp add: freeze_ok_def)
  have keys: "distinct (map fst (AList.delete (freeze_key kind i) (fs_frozen s)))"
    using inv by (simp add: freezes_inv_def freezes_wf_def distinct_delete)
  show ?thesis
    by (rule freezes_inv_at [OF inv ok])
      (use wf' row keys in \<open>auto simp: forget_freeze_def look split: option.split\<close>)
qed

lemma split_colon_plain: "CHR '':'' \<notin> set s \<Longrightarrow> split_colon s = [s]"
  by (induction s) auto

lemma split_colon_key: "CHR '':'' \<notin> set k \<Longrightarrow> CHR '':'' \<notin> set i \<Longrightarrow> split_colon (freeze_key k i) = [k, i]"
  unfolding freeze_key_def by (induction k) (auto simp: split_colon_plain)

text \<open>Reading a key back as the Relay starts names the freeze it holds.\<close>

lemma fold_record_undo_other:
  "k' \<noteq> k \<Longrightarrow> map_of (fs_frozen (fold (record_undo k f) us s)) k' = map_of (fs_frozen s) k'"
proof (induction us arbitrary: s)
  case (Cons u us)
  then show ?case
    by (simp add: record_undo_def Let_def split: option.split)
qed simp

lemma reapply_inv:
  "freezes_inv s \<Longrightarrow> distinct (map fst rest) \<Longrightarrow>
   (\<And>k x. (k, x) \<in> set rest \<Longrightarrow> map_of (fs_frozen s) k = Some x) \<Longrightarrow>
   freezes_inv (snd (reapply apply rest s))"
proof (induction rest arbitrary: s)
  case (Cons e rest)
  obtain k x where e: "e = (k, x)" by (cases e)
  have k: "map_of (fs_frozen s) k = Some x" using Cons.prems(3) e by simp
  have "\<exists>kind i. freeze_kind kind \<and> CHR '':'' \<notin> set i \<and> k = freeze_key kind i"
    using Cons.prems(1) k unfolding freezes_inv_def freezes_wf_def by blast
  then obtain kind i where ki: "freeze_kind kind" "CHR '':'' \<notin> set i" "k = freeze_key kind i"
    by blast
  let ?f = "\<lparr>fz_deletion = fr_deletion x, fz_id = i, fz_kind = kind\<rparr>"
  let ?s = "fold (record_undo k ?f) (fst (apply ?f)) s"
  have parts: "split_colon k = [kind, i]"
    using ki freeze_kind_no_colon by (simp add: split_colon_key)
  have f: "freeze_ok ?f" "holds_freeze s ?f" using ki k by (simp_all add: freeze_ok_def holds_freeze_def)
  have inv: "freezes_inv ?s"
    using fold_record_undo_inv [OF Cons.prems(1) f] ki(3) by simp
  have "map_of (fs_frozen ?s) k' = Some x'" if "(k', x') \<in> set rest" for k' x'
  proof -
    have "k' \<noteq> k" using that Cons.prems(2) e by (auto simp: rev_image_eqI)
    then show ?thesis using Cons.prems(3) [of k' x'] that by (simp add: fold_record_undo_other)
  qed
  then show ?case
    using inv Cons.IH [OF inv] Cons.prems(2) e
    by (simp add: parts apply_quiet_def Let_def split: option.split)
qed simp

section \<open>What a freeze guards\<close>

definition freeze_guards :: "freezes \<Rightarrow> string \<Rightarrow> lane_lock \<Rightarrow> bool" where
  "freeze_guards s label l \<longleftrightarrow>
     label \<notin> set freeze_allowed_for_every \<and> map_of (fs_frozen s) (lock_resource l) \<noteq> None \<and>
     label \<notin> set (freeze_allowed (resource_kind (lock_resource l)))"

lemma resource_kind_key: "freeze_kind kind \<Longrightarrow> resource_kind (freeze_key kind i) = kind"
  using freeze_kind_no_colon by (simp add: resource_kind_def freeze_key_def takeWhile_upto)

lemma member_nouns_nonempty: "member_nouns kind \<noteq> []"
  by (simp add: member_nouns_def)

lemma freeze_refusal_of_truthy:
  assumes wf: "freezes_wf s"
  shows "truthy (freeze_refusal_of s label ls) \<longleftrightarrow>
     (\<exists>l\<in>set ls. map_of (fs_frozen s) (lock_resource l) \<noteq> None \<and>
        label \<notin> set (freeze_allowed (resource_kind (lock_resource l))))"
proof (induction ls)
  case (Cons l ls)
  have "truthy (freeze_refusals (resource_kind (lock_resource l)))"
    if "map_of (fs_frozen s) (lock_resource l) \<noteq> None"
  proof -
    have "\<exists>kind i. freeze_kind kind \<and> lock_resource l = freeze_key kind i"
      using that wf unfolding freezes_wf_def by blast
    then obtain kind i where ki: "freeze_kind kind" "lock_resource l = freeze_key kind i"
      by blast
    then show ?thesis
      unfolding ki(2) resource_kind_key [OF ki(1)] by (auto simp: freeze_kind_def freeze_refusals_def)
  qed
  with Cons show ?case
    using member_nouns_nonempty by (auto simp: Let_def)
qed simp

interpretation freezing: lane_refusal freezes_refusal freeze_guards freezes_wf
proof
  fix s :: freezes and label :: string and locks
  assume "freezes_wf s"
  then show "truthy (freezes_refusal s label locks) \<longleftrightarrow> (\<exists>l\<in>set locks. freeze_guards s label l)"
    by (auto simp: freezes_refusal_def freeze_guards_def freeze_refusal_of_truthy)
next
  fix s :: freezes and label and l l' :: lane_lock
  assume "freeze_guards s label l" "lkey l' = lkey l"
  then show "freeze_guards s label l'" by (simp add: freeze_guards_def lock_resource_def)
qed

section \<open>A run of the freezes\<close>

inductive freezes_step :: "freezes \<Rightarrow> freezes \<Rightarrow> bool" where
  step_freeze: "freeze_ok f \<Longrightarrow> freezes_step s (snd (freeze f outcome s))"
| step_unfreeze: "freeze_ok f \<Longrightarrow> freezes_step s (snd (unfreeze f restore s))"
| step_forget: "freeze_kind kind \<Longrightarrow> CHR '':'' \<notin> set i \<Longrightarrow> freezes_step s (forget_freeze kind i s)"
| step_reapply: "freezes_step s (snd (reapply_all apply s))"
| step_restart: "freezes_step s (load_freezes (fs_table s))"

lemma freezes_step_inv: "freezes_step s t \<Longrightarrow> freezes_inv s \<Longrightarrow> freezes_inv t"
proof (induction rule: freezes_step.induct)
  case (step_reapply s ap)
  then show ?case
    unfolding reapply_all_def
    by (intro reapply_inv) (auto simp: freezes_inv_def freezes_wf_def)
next
  case (step_restart s)
  then have "table_wf (fs_table s)" by (simp add: freezes_inv_def)
  then show ?case by (rule load_freezes_inv)
qed (simp_all add: freeze_inv unfreeze_inv forget_freeze_inv)

interpretation freezes_run: invariant_system "load_freezes []" freezes_step freezes_inv
proof
  show "freezes_inv (load_freezes [])" by (rule load_freezes_inv) simp
qed (auto intro: freezes_step_inv)

lemma fold_record_undo_at:
  "map_of (fs_frozen s) k = Some x \<Longrightarrow>
   map_of (fs_frozen (fold (record_undo k f) us s)) k = Some (x\<lparr>fr_undo := fold (\<lambda>u old. u ++ old) us (fr_undo x)\<rparr>)"
proof (induction us arbitrary: s x)
  case (Cons u us)
  have "map_of (fs_frozen (record_undo k f u s)) k = Some (x\<lparr>fr_undo := u ++ fr_undo x\<rparr>)"
    using Cons.prems by (simp add: record_undo_def Let_def)
  from Cons.IH [OF this] show ?case by simp
qed simp

lemma fold_undo_keeps: "old c = Some p \<Longrightarrow> fold (\<lambda>u old. u ++ old) us old c = Some p"
  by (induction us arbitrary: old) (auto simp: map_add_def)

section \<open>Properties\<close>

definition demo_freeze :: freeze_record where
  "demo_freeze = \<lparr>fz_deletion = ''d1'', fz_id = ''a1'', fz_kind = ''instance''\<rparr>"

definition demo_frozen :: freezes where
  "demo_frozen = snd (freeze demo_freeze ([], None) (load_freezes []))"

lemma demo_frozen_reach: "reach (load_freezes []) freezes_step demo_frozen"
  unfolding demo_frozen_def
  by (rule reach_step, rule reach_init, rule step_freeze) (simp add: freeze_ok_def demo_freeze_def freeze_kind_def)

lemma demo_frozen_keys: "map fst (fs_frozen demo_frozen) = [''instance:a1'']" "length (fs_table demo_frozen) = 1"
  by code_simp+



text \<open>C12: A freeze succeeds only for the deletion that holds the resource: while another's row
  holds it, freezing fails and changes nothing, and another deletion's unfreeze changes nothing.\<close>

theorem freeze_one_deletion:
  assumes "reach (load_freezes []) freezes_step s" and "freeze_ok f"
    and "r \<in> set (fs_table s)" "sf_kind r = fz_kind f" "sf_id r = fz_id f" "sf_deletion r \<noteq> fz_deletion f"
  shows "freeze f outcome s = (Inl ''Another deletion of it is already under way'', s) \<and>
    unfreeze f restore s = (Inr (), s)"
proof -
  have inv: "freezes_inv s" by (rule freezes_run.inv_reach [OF assms(1)])
  then have wf: "table_wf (fs_table s)" by (simp add: freezes_inv_def)
  then have d: "distinct (map (\<lambda>r. (sf_kind r, sf_id r)) (fs_table s))" by (simp add: table_wf_def)
  have row: "lookup_row (fs_table s) (fz_kind f) (fz_id f) = Some r"
    using assms(3-5) by (simp add: lookup_row_iff [OF d] row_of_def)
  moreover have "map_of (fs_frozen s) (key_of f) = Some (entry_of r)"
    using inv assms(2) row by (simp add: freezes_inv_def freeze_ok_def)
  ultimately show ?thesis
    using freeze_resource_cases [OF wf assms(2)] assms(6)
    by (simp add: freeze_def unfreeze_def Let_def entry_of_def)
qed

theorem freeze_one_deletion_witness:
  "freeze \<lparr>fz_deletion = ''d2'', fz_id = ''a1'', fz_kind = ''instance''\<rparr> ([], None) demo_frozen =
     (Inl ''Another deletion of it is already under way'', demo_frozen)"
proof -
  let ?r = "\<lparr>sf_kind = ''instance'', sf_id = ''a1'', sf_deletion = ''d1'', sf_undo = Map.empty\<rparr>"
  have "fs_table demo_frozen = [?r]"
    by (simp add: demo_frozen_def demo_freeze_def freeze_def freeze_resource_def load_freezes_def row_of_def
        list_resource_freezes_def apply_quiet_def Let_def)
  then show ?thesis
    using freeze_one_deletion [OF demo_frozen_reach, of "\<lparr>fz_deletion = ''d2'', fz_id = ''a1'', fz_kind = ''instance''\<rparr>" ?r "([], None)"]
    by (simp add: freeze_ok_def freeze_kind_def)
qed

text \<open>What a freeze recorded first wins: however often it is applied again, a container's
  restart policy to put back stays the one recorded before the first change to it.\<close>

lemma freeze_undo_first_wins:
  assumes "map_of (fs_frozen s) (freeze_key (fz_kind f) (fz_id f)) = Some x" and "fr_undo x c = Some p"
    and "freeze f (changes, failure) s = (result, t)" and "freezes_has t (fz_kind f) (fz_id f)"
  shows "\<exists>y. map_of (fs_frozen t) (freeze_key (fz_kind f) (fz_id f)) = Some y \<and> fr_undo y c = Some p"
proof (cases "fst (freeze_resource f (fs_table s)) = fz_deletion f")
  case True
  let ?s = "s\<lparr>fs_table := snd (freeze_resource f (fs_table s)), fs_frozen := AList.update (key_of f) x (fs_frozen s)\<rparr>"
  have t: "t = fold (record_undo (key_of f) f) changes ?s"
    using assms(1,3) True by (auto simp: freeze_def apply_quiet_def Let_def split: prod.splits)
  have "map_of (fs_frozen ?s) (key_of f) = Some x" by simp
  from fold_record_undo_at [OF this] show ?thesis
    using fold_undo_keeps [of "fr_undo x" c p, OF assms(2)] by (simp add: t)
next
  case False
  then have "fs_frozen t = fs_frozen s"
    using assms(3) by (auto simp: freeze_def split: prod.splits)
  with assms(1,2) show ?thesis by simp
qed

lemma freeze_undo_first_wins_example:
  "\<exists>y. map_of (fs_frozen (snd (freeze demo_freeze ([[''c'' \<mapsto> \<lparr>maximum_retry_count = 0, policy_name = ''no''\<rparr>]], None)
       (snd (freeze demo_freeze ([[''c'' \<mapsto> \<lparr>maximum_retry_count = 3, policy_name = ''always''\<rparr>]], None) (load_freezes []))))))
     ''instance:a1'' = Some y \<and> fr_undo y ''c'' = Some \<lparr>maximum_retry_count = 3, policy_name = ''always''\<rparr>"
proof -
  let ?s = "snd (freeze demo_freeze ([[''c'' \<mapsto> \<lparr>maximum_retry_count = 3, policy_name = ''always''\<rparr>]], None) (load_freezes []))"
  have s: "map_of (fs_frozen ?s) ''instance:a1'' = Some \<lparr>fr_deletion = ''d1'',
      fr_undo = [''c'' \<mapsto> \<lparr>maximum_retry_count = 3, policy_name = ''always''\<rparr>]\<rparr>"
    by (simp add: demo_freeze_def freeze_def freeze_resource_def load_freezes_def row_of_def
        list_resource_freezes_def apply_quiet_def record_undo_def freeze_key_def Let_def)
  let ?o = "([[''c'' \<mapsto> \<lparr>maximum_retry_count = 0, policy_name = ''no''\<rparr>]], None)"
  have "freezes_has (snd (freeze demo_freeze ?o ?s)) ''instance'' ''a1''"
    by (simp add: demo_freeze_def freeze_def freeze_resource_def load_freezes_def row_of_def freezes_has_def
        list_resource_freezes_def apply_quiet_def record_undo_def freeze_key_def set_resource_freeze_undo_def Let_def)
  then show ?thesis
    using freeze_undo_first_wins [of ?s demo_freeze _ "''c''" "\<lparr>maximum_retry_count = 3, policy_name = ''always''\<rparr>"
        _ _ "fst (freeze demo_freeze ?o ?s)" "snd (freeze demo_freeze ?o ?s)"] s
    by (simp add: demo_freeze_def freeze_key_def)
qed

end
