(* ===== verification/Tar_Restores.thy ===== *)
theory Tar_Restores
  imports Lane_Keys
begin

text \<open>
  \<open>apps/relay/src/backups/tar-restore-journal.ts\<close> and \<open>tar-restore-steps.ts\<close>: the journals of
  restores that swap files, the fences they put on their targets, and the steps of the swap.
  A directory is an association list of names in the order \<open>readdir\<close> answers. Decoding a
  journal (effect's Schema over \<open>JSON.parse\<close>) and encoding it are parameters.
\<close>

section \<open>Journals\<close>

datatype tar_source = TarVolume string | TarBind string

datatype tar_phase = Staging | Clearing | Installing

datatype tar_target_kind = TApp | TVolume

record tar_restore_root =
  tr_gid :: int
  tr_mode :: int
  tr_uid :: int
  tr_xattrs :: "(string \<times> string) list option"

record tar_journal =
  tj_consumers :: "string list"
  tj_phase :: tar_phase
  tj_root :: "tar_restore_root option"
  tj_source :: tar_source
  tj_target_id :: string
  tj_target_kind :: tar_target_kind
  tj_task_id :: string

type_synonym journal_files = "(string \<times> string) list"

definition ends_with :: "string \<Rightarrow> string \<Rightarrow> bool" where
  "ends_with p s \<longleftrightarrow> length p \<le> length s \<and> drop (length s - length p) s = p"

definition journal_name :: "string \<Rightarrow> string" where
  "journal_name task = task @ ''.json''"

text \<open>The loop over the sorted names: what isn't a journal of its own name is removed.\<close>

fun read_journals ::
  "(string \<Rightarrow> tar_journal option) \<Rightarrow> string list \<Rightarrow> journal_files \<Rightarrow> tar_journal list \<times> journal_files" where
  "read_journals decode [] files = ([], files)"
| "read_journals decode (name # names) files =
     (if \<not> ends_with ''.json'' name then read_journals decode names files
      else case map_of files name of
        None \<Rightarrow> read_journals decode names files
      | Some content \<Rightarrow>
          (case decode content of
             None \<Rightarrow> read_journals decode names (AList.delete name files)
           | Some j \<Rightarrow>
               if journal_name (tj_task_id j) \<noteq> name then read_journals decode names (AList.delete name files)
               else (case read_journals decode names files of (js, files') \<Rightarrow> (j # js, files'))))"

definition read_tar_restore_journals ::
  "(string \<Rightarrow> tar_journal option) \<Rightarrow> journal_files \<Rightarrow> tar_journal list \<times> journal_files" where
  "read_tar_restore_journals decode files = read_journals decode (sort (map fst files)) files"

definition read_tar_restore_journal ::
  "(string \<Rightarrow> tar_journal option) \<Rightarrow> journal_files \<Rightarrow> string \<Rightarrow> string + tar_journal option" where
  "read_tar_restore_journal decode files task =
     (case map_of files (journal_name task) of
        None \<Rightarrow> Inr None
      | Some content \<Rightarrow>
          (case decode content of
             None \<Rightarrow> Inl ''The restore journal is invalid''
           | Some j \<Rightarrow> if tj_task_id j \<noteq> task then Inl ''The restore journal is invalid'' else Inr (Some j)))"

definition write_tar_restore_journal :: "(tar_journal \<Rightarrow> string) \<Rightarrow> tar_journal \<Rightarrow> journal_files \<Rightarrow> journal_files" where
  "write_tar_restore_journal encode j files = AList.update (journal_name (tj_task_id j)) (encode j @ [CHR 0x0A]) files"

definition remove_tar_restore_journal :: "string \<Rightarrow> journal_files \<Rightarrow> journal_files" where
  "remove_tar_restore_journal task files = AList.delete (journal_name task) files"

section \<open>Fences\<close>

type_synonym fences = "(string \<times> tar_journal) list"

definition TAR_RESTORE_RECOVERY_LABEL :: string where
  "TAR_RESTORE_RECOVERY_LABEL = ''backup.restore.recover''"

definition target_key :: "tar_target_kind \<Rightarrow> string \<Rightarrow> string" where
  "target_key kind i = (case kind of TApp \<Rightarrow> key_app i | TVolume \<Rightarrow> key_volume i)"

definition fence :: "tar_journal \<Rightarrow> fences \<Rightarrow> fences" where
  "fence j fs = AList.update (target_key (tj_target_kind j) (tj_target_id j)) j fs"

definition load_fences :: "(string \<Rightarrow> tar_journal option) \<Rightarrow> journal_files \<Rightarrow> fences" where
  "load_fences decode files =
     fold (\<lambda>j fs. if tj_phase j \<noteq> Staging then fence j fs else fs) (fst (read_tar_restore_journals decode files)) []"

definition lift_fence :: "string \<Rightarrow> fences \<Rightarrow> fences" where
  "lift_fence task fs = filter (\<lambda>(k, j). tj_task_id j \<noteq> task) fs"

definition list_fences :: "fences \<Rightarrow> tar_journal list" where
  "list_fences fs = map snd fs"

definition find_fence :: "tar_target_kind \<Rightarrow> string \<Rightarrow> fences \<Rightarrow> tar_journal option" where
  "find_fence kind i fs = map_of fs (target_key kind i)"

definition refusal_message :: "tar_journal \<Rightarrow> string" where
  "refusal_message j =
     (case tj_target_kind j of
        TApp \<Rightarrow> ''This App's folder is partway through a restore that didn't finish; the restore must finish first''
      | TVolume \<Rightarrow> ''This volume is partway through a restore that didn't finish; the restore must finish first'')"

definition under_key :: "string \<Rightarrow> lane_lock \<Rightarrow> bool" where
  "under_key k l \<longleftrightarrow> lkey l = k \<or> take (length k + 1) (lkey l) = k @ ''/''"

definition starts_consumer :: "tar_journal \<Rightarrow> lane_lock \<Rightarrow> bool" where
  "starts_consumer j l \<longleftrightarrow> tj_target_kind j = TVolume \<and>
     (\<exists>app\<in>set (tj_consumers j). lkey l = key_app_lifecycle app \<or> (lkey l = key_app app \<and> lmode l = Exclusive))"

fun fences_refusal_of :: "fences \<Rightarrow> lane_lock list \<Rightarrow> string option" where
  "fences_refusal_of fs [] = None"
| "fences_refusal_of fs (l # ls) =
     (case find (\<lambda>(k, j). under_key k l) fs of
        Some (k, j) \<Rightarrow> Some (refusal_message j)
      | None \<Rightarrow>
          if \<exists>(k, j)\<in>set fs. starts_consumer j l
          then Some ''An App that uses a volume whose restore didn't finish can't start until the restore finishes''
          else fences_refusal_of fs ls)"

definition fences_refusal :: "fences \<Rightarrow> lane_refusal_fn" where
  "fences_refusal fs label locks =
     (if fs = [] \<or> label = TAR_RESTORE_RECOVERY_LABEL then None else fences_refusal_of fs locks)"

definition fence_guards :: "fences \<Rightarrow> string \<Rightarrow> lane_lock \<Rightarrow> bool" where
  "fence_guards fs label l \<longleftrightarrow> label \<noteq> TAR_RESTORE_RECOVERY_LABEL \<and>
     (\<exists>(k, j)\<in>set fs. under_key k l \<or> starts_consumer j l)"

lemma fences_refusal_of_truthy:
  "truthy (fences_refusal_of fs ls) \<longleftrightarrow> (\<exists>l\<in>set ls. \<exists>(k, j)\<in>set fs. under_key k l \<or> starts_consumer j l)"
proof (induction ls)
  case (Cons l ls)
  have message: "refusal_message j \<noteq> []" for j
    by (simp add: refusal_message_def split: tar_target_kind.split)
  have found: "find (\<lambda>(k, j). under_key k l) fs = Some e \<Longrightarrow> \<exists>(k, j)\<in>set fs. under_key k l" for e
    by (induction fs) (auto split: if_splits)
  have split: "(\<exists>(k, j)\<in>set fs. under_key k l \<or> starts_consumer j l) \<longleftrightarrow>
      (\<exists>(k, j)\<in>set fs. under_key k l) \<or> (\<exists>(k, j)\<in>set fs. starts_consumer j l)"
    by auto
  show ?case
  proof (cases "find (\<lambda>(k, j). under_key k l) fs")
    case None
    then have "\<not> (\<exists>(k, j)\<in>set fs. under_key k l)" by (auto simp: find_None_iff)
    with Cons None split show ?thesis by simp
  next
    case (Some e)
    with found [OF Some] message split show ?thesis by (cases e) simp
  qed
qed simp

interpretation fencing: lane_refusal fences_refusal fence_guards "\<lambda>_. True"
proof
  show "truthy (fences_refusal fs label locks) \<longleftrightarrow> (\<exists>l\<in>set locks. fence_guards fs label l)" for fs label locks
    using fences_refusal_of_truthy [of fs locks] by (auto simp: fences_refusal_def fence_guards_def)
  show "fence_guards fs label l'"
    if "fence_guards fs label l" "lkey l' = lkey l" "lmode l \<le> lmode l'" for fs label and l l' :: lane_lock
  proof -
    have "starts_consumer j l'" if "starts_consumer j l" for j
      using that \<open>lkey l' = lkey l\<close> \<open>lmode l \<le> lmode l'\<close>
      by (auto simp: starts_consumer_def less_eq_lane_mode_def)
    moreover have "under_key k l' = under_key k l" for k
      using \<open>lkey l' = lkey l\<close> by (simp add: under_key_def)
    ultimately show ?thesis
      using that(1) by (fastforce simp: fence_guards_def)
  qed
qed

section \<open>The steps of a swap\<close>

datatype node = FFile string | FDir "(string \<times> node) list"

record dir =
  fd_entries :: "(string \<times> node) list"
  fd_owner :: "int \<times> int"
  fd_mode :: int

datatype tar_step = StClear | StDiscard | StInstall | StReserve

definition STAGING_PREFIX :: string where
  "STAGING_PREFIX = ''.kiln-restore-''"

definition staging_name :: "string \<Rightarrow> string" where
  "staging_name task = STAGING_PREFIX @ task"

definition is_hex_char :: "char \<Rightarrow> bool" where
  "is_hex_char c \<longleftrightarrow> c \<in> set ''0123456789abcdef''"

text \<open>A lower-case UUID, as the pattern reads it: hexadecimal groups of 8, 4, 4, 4 and 12.\<close>

definition is_uuid :: "string \<Rightarrow> bool" where
  "is_uuid s \<longleftrightarrow> length s = 36 \<and>
     (\<forall>i\<in>set [0..<36]. if i \<in> {8, 13, 18, 23} then s ! i = CHR ''-'' else is_hex_char (s ! i))"

definition is_staging_name :: "string \<Rightarrow> bool" where
  "is_staging_name s \<longleftrightarrow> take (length STAGING_PREFIX) s = STAGING_PREFIX \<and> is_uuid (drop (length STAGING_PREFIX) s)"

fun optional_entries :: "node option \<Rightarrow> string + (string \<times> node) list option" where
  "optional_entries None = Inr None"
| "optional_entries (Some (FFile _)) = Inl ''The restore isn't staged''"
| "optional_entries (Some (FDir es)) = Inr (Some es)"

fun require_staging_folder :: "node option \<Rightarrow> string option" where
  "require_staging_folder None = Some ''ENOENT''"
| "require_staging_folder (Some (FFile _)) = Some ''The restore isn't staged''"
| "require_staging_folder (Some (FDir _)) = None"

text \<open>\<open>rm(target)\<close>, then \<open>rename(staging/name, target)\<close>.\<close>

definition move_entry :: "string \<Rightarrow> string \<Rightarrow> (string \<times> node) list \<Rightarrow> (string \<times> node) list" where
  "move_entry staging name es =
     (case map_of es staging of
        Some (FDir inner) \<Rightarrow>
          (case map_of inner name of
             None \<Rightarrow> es
           | Some x \<Rightarrow> AList.update name x (AList.delete name (AList.update staging (FDir (AList.delete name inner)) es)))
      | _ \<Rightarrow> es)"

fun install_entries :: "string \<Rightarrow> string list \<Rightarrow> (string \<times> node) list \<Rightarrow> string option \<times> (string \<times> node) list" where
  "install_entries staging [] es = (None, es)"
| "install_entries staging (name # names) es =
     (if take (length STAGING_PREFIX) name = STAGING_PREFIX
      then (Some ''The restore holds a staging folder's name'', es)
      else install_entries staging names (move_entry staging name es))"

definition give_owner :: "tar_restore_root option \<Rightarrow> dir \<Rightarrow> dir" where
  "give_owner owner d =
     (case owner of None \<Rightarrow> d
      | Some o' \<Rightarrow> d\<lparr>fd_owner := (tr_uid o', tr_gid o'), fd_mode := tr_mode o' mod 4096\<rparr>)"

definition run_tar_restore_step ::
  "tar_step \<Rightarrow> string \<Rightarrow> tar_restore_root option \<Rightarrow> dir \<Rightarrow> (string + unit) \<times> dir" where
  "run_tar_restore_step step staging owner d =
     (if \<not> is_staging_name staging then (Inl ''Invalid staging folder'', d)
      else let es = fd_entries d in
        case step of
          StReserve \<Rightarrow>
            if map_of es staging \<noteq> None then (Inl ''EEXIST'', d)
            else (Inr (), d\<lparr>fd_entries := es @ [(staging, FDir [])]\<rparr>)
        | StDiscard \<Rightarrow> (Inr (), d\<lparr>fd_entries := AList.delete staging es\<rparr>)
        | StClear \<Rightarrow>
            (case require_staging_folder (map_of es staging) of
               Some e \<Rightarrow> (Inl e, d)
             | None \<Rightarrow>
                 (Inr (), d\<lparr>fd_entries := fold (\<lambda>name es. if name = staging then es else AList.delete name es)
                    (map fst es) es\<rparr>))
        | StInstall \<Rightarrow>
            (case optional_entries (map_of es staging) of
               Inl e \<Rightarrow> (Inl e, d)
             | Inr remaining \<Rightarrow>
                 (case install_entries staging (map fst (case remaining of None \<Rightarrow> [] | Some r \<Rightarrow> r)) es of
                    (Some e, es') \<Rightarrow> (Inl e, d\<lparr>fd_entries := es'\<rparr>)
                  | (None, es') \<Rightarrow>
                      (Inr (), give_owner owner (d\<lparr>fd_entries :=
                         (if remaining = None then es' else AList.delete staging es')\<rparr>)))))"

section \<open>Journals on disk\<close>

lemma ends_with_append [simp]: "ends_with p (s @ p)"
  by (simp add: ends_with_def)

lemma read_journals_finds:
  "name \<in> set names \<Longrightarrow> map_of files name = Some content \<Longrightarrow> decode content = Some j \<Longrightarrow>
   name = journal_name (tj_task_id j) \<Longrightarrow> j \<in> set (fst (read_journals decode names files))"
proof (induction names arbitrary: files)
  case (Cons n names)
  have ends: "ends_with ''.json'' (journal_name t)" for t by (simp add: journal_name_def)
  show ?case
  proof (cases "n = name")
    case True
    then show ?thesis
      using Cons.prems ends by (auto split: prod.split)
  next
    case False
    then have "name \<in> set names" using Cons.prems by simp
    moreover have "map_of (AList.delete n files) name = Some content"
      using False Cons.prems(2) by simp
    ultimately show ?thesis
      using Cons.IH [of files] Cons.IH [of "AList.delete n files"] Cons.prems
      by (auto split: option.split prod.split)
  qed
qed simp

lemma fold_fence_keeps:
  "map_of fs k \<noteq> None \<Longrightarrow>
   map_of (fold (\<lambda>j fs. if tj_phase j \<noteq> Staging then fence j fs else fs) js fs) k \<noteq> None"
  by (induction js arbitrary: fs) (auto simp: fence_def)

lemma fold_fence_finds:
  "j \<in> set js \<Longrightarrow> tj_phase j \<noteq> Staging \<Longrightarrow> k = target_key (tj_target_kind j) (tj_target_id j) \<Longrightarrow>
   map_of (fold (\<lambda>j fs. if tj_phase j \<noteq> Staging then fence j fs else fs) js fs) k \<noteq> None"
proof (induction js arbitrary: fs)
  case (Cons j' js)
  show ?case
  proof (cases "j' = j")
    case True
    then have "map_of (if tj_phase j' \<noteq> Staging then fence j' fs else fs) k \<noteq> None"
      using Cons.prems by (simp add: fence_def)
    then show ?thesis using fold_fence_keeps by fastforce
  next
    case False
    then show ?thesis using Cons.IH Cons.prems by simp
  qed
qed simp

section \<open>Swapping\<close>

lemma not_prefix: "is_staging_name staging \<Longrightarrow> take (length STAGING_PREFIX) staging = STAGING_PREFIX"
  by (simp add: is_staging_name_def)

lemma map_of_delete_fold:
  "map_of (fold (\<lambda>name es. if name = staging then es else AList.delete name es) ns es) k =
     (if k \<in> set ns \<and> k \<noteq> staging then None else map_of es k)"
  by (induction ns arbitrary: es) auto

text \<open>What a move leaves: the entry at the root, gone from the staging folder.\<close>

definition staged :: "string \<Rightarrow> (string \<times> node) list \<Rightarrow> (string \<times> node) list" where
  "staged staging es = (case map_of es staging of Some (FDir inner) \<Rightarrow> inner | _ \<Rightarrow> [])"

lemma map_of_filter_key: "map_of (filter (\<lambda>(v, x). P v) xs) k = (if P k then map_of xs k else None)"
  by (induction xs) auto

lemma move_entry_map:
  assumes "map_of es staging = Some (FDir inner)" and "name \<noteq> staging" and "map_of inner name = Some x"
  shows "map_of (move_entry staging name es) = (map_of es)(staging \<mapsto> FDir (AList.delete name inner), name \<mapsto> x)"
  using assms by (simp add: move_entry_def fun_upd_twist fun_eq_iff)

lemma install_entries_map:
  "map_of es staging = Some (FDir inner) \<Longrightarrow> distinct (map fst inner) \<Longrightarrow> distinct names \<Longrightarrow>
   set names \<subseteq> set (map fst inner) \<Longrightarrow> take (length STAGING_PREFIX) staging = STAGING_PREFIX \<Longrightarrow>
   \<forall>n\<in>set names. take (length STAGING_PREFIX) n \<noteq> STAGING_PREFIX \<Longrightarrow>
   fst (install_entries staging names es) = None \<and>
   map_of (snd (install_entries staging names es)) =
     (\<lambda>k. if k = staging then Some (FDir (filter (\<lambda>(n, x). n \<notin> set names) inner))
          else if k \<in> set names then map_of inner k else map_of es k)"
proof (induction names arbitrary: es inner)
  case Nil
  then show ?case by (auto simp: fun_eq_iff)
next
  case (Cons n names)
  have n: "n \<noteq> staging" "take (length STAGING_PREFIX) n \<noteq> STAGING_PREFIX" using Cons.prems(5,6) by auto
  obtain x where x: "map_of inner n = Some x"
    using Cons.prems(4) by (cases "map_of inner n") (auto simp: map_of_eq_None_iff)
  let ?es = "move_entry staging n es" and ?inner = "AList.delete n inner"
  have m: "map_of ?es = (map_of es)(staging \<mapsto> FDir ?inner, n \<mapsto> x)"
    by (rule move_entry_map [OF Cons.prems(1) n(1) x])
  have keys: "set (map fst ?inner) = set (map fst inner) - {n}"
    by (auto simp: AList.delete_eq)
  have "fst (install_entries staging names ?es) = None \<and>
     map_of (snd (install_entries staging names ?es)) =
       (\<lambda>k. if k = staging then Some (FDir (filter (\<lambda>(v, x). v \<notin> set names) ?inner))
            else if k \<in> set names then map_of ?inner k else map_of ?es k)"
    by (rule Cons.IH) (use Cons.prems m n(1) keys in \<open>auto simp: distinct_delete\<close>)
  moreover have "filter (\<lambda>(v, x). v \<notin> set names) ?inner = filter (\<lambda>(v, x). v \<notin> set (n # names)) inner"
    by (auto simp: AList.delete_eq intro!: filter_cong)
  ultimately show ?case
    using n m x Cons.prems(3) by (auto simp: fun_eq_iff)
qed

lemma map_of_delete_key: "map_of (AList.delete k es) = (map_of es)(k := None)"
  by (rule delete_conv')

text \<open>A whole install, by what it leaves at the root.\<close>

lemma install_map:
  assumes st: "is_staging_name staging" and es: "map_of (fd_entries d) staging = Some (FDir inner)"
    and d: "distinct (map fst inner)" and names: "\<forall>n\<in>set (map fst inner). take (length STAGING_PREFIX) n \<noteq> STAGING_PREFIX"
  shows "fst (run_tar_restore_step StInstall staging owner d) = Inr ()"
    and "map_of (fd_entries (snd (run_tar_restore_step StInstall staging owner d))) =
      (\<lambda>k. if k \<in> set (map fst inner) then map_of inner k else if k = staging then None else map_of (fd_entries d) k)"
proof -
  note m = install_entries_map [OF es d d subset_refl not_prefix [OF st] names]
  let ?r = "install_entries staging (map fst inner) (fd_entries d)"
  have r: "?r = (None, snd ?r)" using m by (cases ?r) auto
  have owner: "fd_entries (give_owner owner d') = fd_entries d'" for d'
    by (simp add: give_owner_def split: option.split)
  have run: "run_tar_restore_step StInstall staging owner d =
      (Inr (), give_owner owner (d\<lparr>fd_entries := AList.delete staging (snd ?r)\<rparr>))"
    using st es by (simp add: run_tar_restore_step_def) (subst r, simp)
  show "fst (run_tar_restore_step StInstall staging owner d) = Inr ()"
    unfolding run by simp
  have "staging \<notin> set (map fst inner)" using names not_prefix [OF st] by blast
  moreover have entries: "fd_entries (snd (run_tar_restore_step StInstall staging owner d)) = AList.delete staging (snd ?r)"
    unfolding run by (simp add: owner)
  ultimately show "map_of (fd_entries (snd (run_tar_restore_step StInstall staging owner d))) =
      (\<lambda>k. if k \<in> set (map fst inner) then map_of inner k else if k = staging then None else map_of (fd_entries d) k)"
    unfolding entries map_of_delete_key using m by (auto simp: fun_eq_iff)
qed

lemma clear_map:
  assumes st: "is_staging_name staging" and es: "map_of (fd_entries d) staging = Some (FDir inner)"
  shows "fst (run_tar_restore_step StClear staging owner d) = Inr ()"
    and "map_of (fd_entries (snd (run_tar_restore_step StClear staging owner d))) = [staging \<mapsto> FDir inner]"
proof -
  have none: "k \<notin> set (map fst (fd_entries d)) \<Longrightarrow> map_of (fd_entries d) k = None" for k
    by (simp add: map_of_eq_None_iff)
  have run: "run_tar_restore_step StClear staging owner d =
      (Inr (), d\<lparr>fd_entries := fold (\<lambda>name es. if name = staging then es else AList.delete name es)
        (map fst (fd_entries d)) (fd_entries d)\<rparr>)"
    using st es by (simp add: run_tar_restore_step_def Let_def)
  show "fst (run_tar_restore_step StClear staging owner d) = Inr ()" unfolding run by simp
  show "map_of (fd_entries (snd (run_tar_restore_step StClear staging owner d))) = [staging \<mapsto> FDir inner]"
    unfolding run using es none by (auto simp: map_of_delete_fold fun_eq_iff)
qed

section \<open>Properties\<close>

definition demo_task :: string where
  "demo_task = ''0f8fad5b-d9cb-469f-a165-70867728950e''"

definition demo_dir :: dir where
  "demo_dir = \<lparr>fd_entries = [(''old'', FFile ''1''), (staging_name demo_task, FDir [(''a'', FFile ''2''), (''old'', FDir [])])],
     fd_owner = (0, 0), fd_mode = 448\<rparr>"

lemma demo_dir_ok:
  "is_staging_name (staging_name demo_task)"
  "map_of (fd_entries demo_dir) (staging_name demo_task) = Some (FDir [(''a'', FFile ''2''), (''old'', FDir [])])"
  "\<forall>n\<in>set (map fst [(''a'', FFile ''2''), (''old'', FDir [])]). take (length STAGING_PREFIX) n \<noteq> STAGING_PREFIX"
  by code_simp+

text \<open>C13: A swap leaves exactly the restored copy: clearing and then installing a whole staging
  folder succeeds, and the target's entries are the staged ones, whatever it held before.
  Without a staging folder, clearing fails and the old files stay.\<close>

theorem restore_swaps:
  assumes "is_staging_name staging" and "map_of (fd_entries d) staging = Some (FDir inner)"
    and "distinct (map fst inner)" and "\<forall>n\<in>set (map fst inner). take (length STAGING_PREFIX) n \<noteq> STAGING_PREFIX"
  shows "(let (r1, d1) = run_tar_restore_step StClear staging owner d;
              (r2, d2) = run_tar_restore_step StInstall staging owner d1
          in r1 = Inr () \<and> r2 = Inr () \<and> map_of (fd_entries d2) = map_of inner) \<and>
    run_tar_restore_step StClear staging owner (d\<lparr>fd_entries := AList.delete staging (fd_entries d)\<rparr>) =
      (Inl ''ENOENT'', d\<lparr>fd_entries := AList.delete staging (fd_entries d)\<rparr>)"
proof -
  let ?d1 = "snd (run_tar_restore_step StClear staging owner d)"
  note c = clear_map [OF assms(1,2), of owner]
  have es: "map_of (fd_entries ?d1) staging = Some (FDir inner)" using c(2) by simp
  note i = install_map [OF assms(1) es assms(3,4), of owner]
  have out: "staging \<notin> set (map fst inner)" using assms(4) not_prefix [OF assms(1)] by blast
  have none: "k \<notin> set (map fst inner) \<Longrightarrow> map_of inner k = None" for k
    by (simp add: map_of_eq_None_iff)
  have "map_of (fd_entries (snd (run_tar_restore_step StInstall staging owner ?d1))) = map_of inner"
    unfolding i(2) c(2) using out none by (simp add: fun_eq_iff)
  then show ?thesis
    using c(1) i(1) assms(1)
    by (auto simp: case_prod_beta Let_def run_tar_restore_step_def map_of_delete_key)
qed

theorem restore_swaps_witness:
  "let (r1, d1) = run_tar_restore_step StClear (staging_name demo_task) None demo_dir;
       (r2, d2) = run_tar_restore_step StInstall (staging_name demo_task) None d1
   in r1 = Inr () \<and> r2 = Inr () \<and> map_of (fd_entries d2) = map_of [(''a'', FFile ''2''), (''old'', FDir [])]"
  using restore_swaps [OF demo_dir_ok(1,2) _ demo_dir_ok(3)] by simp

text \<open>C14: An install cut off after any number of moves, or between removing a target and moving
  the copy in, finishes when it is run again with the entries an uninterrupted one leaves;
  running it after it finished changes no entry.\<close>

theorem install_resumes:
  fixes d :: dir
  assumes "is_staging_name staging" and "map_of (fd_entries d) staging = Some (FDir inner)"
    and "distinct (map fst inner)" and "\<forall>n\<in>set (map fst inner). take (length STAGING_PREFIX) n \<noteq> STAGING_PREFIX"
    and "moved = snd (install_entries staging (take n (map fst inner)) (fd_entries d))"
    and "partial = (if removed \<and> n < length inner then AList.delete (map fst inner ! n) moved else moved)"
  shows "fst (run_tar_restore_step StInstall staging owner (d\<lparr>fd_entries := partial\<rparr>)) = Inr () \<and>
    map_of (fd_entries (snd (run_tar_restore_step StInstall staging owner (d\<lparr>fd_entries := partial\<rparr>)))) =
      map_of (fd_entries (snd (run_tar_restore_step StInstall staging owner d))) \<and>
    fd_entries (snd (run_tar_restore_step StInstall staging owner (snd (run_tar_restore_step StInstall staging owner d)))) =
      fd_entries (snd (run_tar_restore_step StInstall staging owner d))"
proof -
  let ?names = "map fst inner" and ?t = "take n (map fst inner)"
  let ?inner = "filter (\<lambda>(v, x). v \<notin> set ?t) inner"
  have pre: "take (length STAGING_PREFIX) staging = STAGING_PREFIX" by (rule not_prefix [OF assms(1)])
  have out: "staging \<notin> set ?names" using assms(4) pre by blast
  have moved: "map_of moved = (\<lambda>k. if k = staging then Some (FDir ?inner)
      else if k \<in> set ?t then map_of inner k else map_of (fd_entries d) k)"
    unfolding assms(5)
    using install_entries_map [OF assms(2,3), of ?t] pre assms(3,4) set_take_subset [of n ?names]
    by (auto simp: distinct_take)
  have later: "?names ! n \<notin> set ?t" if "n < length inner"
    using that assms(3) id_take_nth_drop [of n ?names] by (metis distinct_append distinct.simps(2) IntI empty_iff length_map list.set_intros(1))
  have partial: "map_of partial k = (if k = staging then Some (FDir ?inner)
      else if k \<in> set ?t then map_of inner k
      else if removed \<and> n < length inner \<and> k = ?names ! n then None else map_of (fd_entries d) k)" for k
    using moved later out unfolding assms(6) by (auto simp: map_of_delete_key)
  have keys: "set (map fst ?inner) = set ?names - set ?t" by auto
  have inner: "map_of ?inner k = (if k \<in> set ?t then None else map_of inner k)" for k
    by (simp add: map_of_filter_key)
  let ?d = "d\<lparr>fd_entries := partial\<rparr>"
  have "map_of (fd_entries ?d) staging = Some (FDir ?inner)" by (simp add: partial)
  note again = install_map [OF assms(1) this distinct_map_filter [OF assms(3)], of owner]
  note whole = install_map [OF assms(1-4), of owner]
  have sub: "\<forall>n\<in>set (map fst ?inner). take (length STAGING_PREFIX) n \<noteq> STAGING_PREFIX"
    using assms(4) by auto
  have nth: "?names ! n \<in> set ?names" if "n < length inner" using that by simp
  have "map_of (fd_entries (snd (run_tar_restore_step StInstall staging owner ?d))) =
      map_of (fd_entries (snd (run_tar_restore_step StInstall staging owner d)))"
    unfolding again(2) [OF sub] whole(2) keys
  proof (rule ext)
    fix k
    have t: "k \<in> set ?t \<Longrightarrow> k \<in> set ?names" by (rule in_set_takeD)
    show "(if k \<in> set ?names - set ?t then map_of ?inner k else if k = staging then None else map_of (fd_entries ?d) k) =
      (if k \<in> set ?names then map_of inner k else if k = staging then None else map_of (fd_entries d) k)"
      using out t nth later by (cases "k \<in> set ?names"; cases "k \<in> set ?t") (auto simp: inner partial)
  qed
  moreover have "map_of (fd_entries (snd (run_tar_restore_step StInstall staging owner d))) staging = None"
    unfolding whole(2) using out by simp
  then have "fd_entries (snd (run_tar_restore_step StInstall staging owner
      (snd (run_tar_restore_step StInstall staging owner d)))) =
      fd_entries (snd (run_tar_restore_step StInstall staging owner d))"
    using assms(1) by (cases owner) (simp_all add: run_tar_restore_step_def [of StInstall staging _ "snd _"] give_owner_def)
  ultimately show ?thesis using again(1) [OF sub] by blast
qed

theorem install_resumes_witness:
  "map_of (fd_entries (snd (run_tar_restore_step StInstall (staging_name demo_task) None
       (demo_dir\<lparr>fd_entries := AList.delete ''old''
          (snd (install_entries (staging_name demo_task) [''a''] (fd_entries demo_dir)))\<rparr>)))) =
   map_of (fd_entries (snd (run_tar_restore_step StInstall (staging_name demo_task) None demo_dir)))"
  using install_resumes [OF demo_dir_ok(1,2) _ demo_dir_ok(3) refl refl, where n = 1 and removed = True and owner = None]
  by simp


definition demo_journal :: tar_journal where
  "demo_journal = \<lparr>tj_consumers = [''app1''], tj_phase = Clearing, tj_root = None, tj_source = TarVolume ''v'',
     tj_target_id = ''v1'', tj_target_kind = TVolume, tj_task_id = demo_task\<rparr>"


end
