(* ===== verification/Plans.thy ===== *)
theory Plans
  imports Lane_Keys App_Keys
begin

text \<open>
  \<open>apps/relay/src/operation-plans.ts\<close>: the locks each kind of Relay work takes. A payload is
  a JSON object. A resolver answers at once or with a promise, which may be rejected; the
  plan is then known at once or after it, which decides whether the operation holds back the
  line behind it (\<open>ad_locks\<close> of an admission).
\<close>

section \<open>Payloads and promises\<close>

datatype json = JNull | JBool bool | JNum int | JStr string | JArr "json list" | JObj "(string \<times> json) list"

type_synonym payload = "(string \<times> json) list"

definition string_field :: "payload \<Rightarrow> string \<Rightarrow> string option" where
  "string_field p field =
     (case map_of p field of Some (JStr s) \<Rightarrow> if s \<noteq> [] then Some s else None | _ \<Rightarrow> None)"

fun json_string :: "json \<Rightarrow> string option" where
  "json_string (JStr s) = Some s"
| "json_string _ = None"

fun string_array :: "json option \<Rightarrow> string list" where
  "string_array (Some (JArr xs)) = List.map_filter json_string xs"
| "string_array _ = []"

definition json_array :: "json option \<Rightarrow> json list" where
  "json_array v = (case v of Some (JArr xs) \<Rightarrow> xs | _ \<Rightarrow> [])"

datatype 'a promised = Now 'a | Later "string + 'a"

fun map_promised :: "('a \<Rightarrow> 'b) \<Rightarrow> 'a promised \<Rightarrow> 'b promised" where
  "map_promised f (Now x) = Now (f x)"
| "map_promised f (Later (Inl e)) = Later (Inl e)"
| "map_promised f (Later (Inr x)) = Later (Inr (f x))"

text \<open>\<open>Promise.resolve(x).then(f)\<close>: never at once.\<close>

fun then_promised :: "'a promised \<Rightarrow> ('a \<Rightarrow> string + 'b) \<Rightarrow> 'b promised" where
  "then_promised (Now x) f = Later (f x)"
| "then_promised (Later (Inl e)) f = Later (Inl e)"
| "then_promised (Later (Inr x)) f = Later (f x)"

type_synonym lock_plan = "lane_lock list promised"

type_synonym instance_resolver = "string \<Rightarrow> string promised"

type_synonym ids_resolver = "string \<Rightarrow> string list promised"

definition with_instance :: "string promised \<Rightarrow> (string \<Rightarrow> lane_lock list) \<Rightarrow> lock_plan" where
  "with_instance resolved locks = map_promised locks resolved"

section \<open>Locks of each kind of work\<close>

definition instance_lifecycle_locks :: "string \<Rightarrow> lane_lock list" where
  "instance_lifecycle_locks i = [shared (key_instance i), exclusive (key_instance_lifecycle i)]"

definition instance_start_locks :: "string \<Rightarrow> lane_lock list" where
  "instance_start_locks i = instance_lifecycle_locks i @ [shared key_routes]"

definition instance_power_locks :: "string \<Rightarrow> string \<Rightarrow> lane_lock list" where
  "instance_power_locks i action =
     (if action = ''start'' \<or> action = ''restart'' then instance_start_locks i else instance_lifecycle_locks i)"

definition instance_file_locks :: "string \<Rightarrow> lane_lock list" where
  "instance_file_locks i = [shared (key_instance i), exclusive (key_instance_files i)]"

definition instance_read_locks :: "string \<Rightarrow> lane_lock list" where
  "instance_read_locks i = [shared (key_instance i)]"

definition instance_replace_locks :: "string \<Rightarrow> lane_lock list" where
  "instance_replace_locks i = [exclusive (key_instance i)]"

definition app_lifecycle_locks :: "string \<Rightarrow> lane_lock list" where
  "app_lifecycle_locks i = [shared (key_app i), exclusive (key_app_lifecycle i)]"

definition app_file_locks :: "string \<Rightarrow> lane_lock list" where
  "app_file_locks i = [shared (key_app i), exclusive (key_app_files i)]"

definition app_replace_locks :: "string \<Rightarrow> lane_lock list" where
  "app_replace_locks i = [exclusive (key_app i)]"

definition app_create_locks :: "string \<Rightarrow> string list \<Rightarrow> lane_lock list" where
  "app_create_locks i dbs = app_replace_locks i @ map (\<lambda>d. shared (key_database_connections d)) dbs"

definition volume_reference_locks :: "string list \<Rightarrow> lane_lock list" where
  "volume_reference_locks vs = map (\<lambda>v. shared (key_volume v)) (dedup vs)"

definition app_start_locks :: "string \<Rightarrow> string list \<Rightarrow> lane_lock list" where
  "app_start_locks i vs = app_lifecycle_locks i @ volume_reference_locks vs"

definition database_locks :: "string \<Rightarrow> lane_lock list" where
  "database_locks d = [exclusive (key_database d)]"

definition database_delete_locks :: "string \<Rightarrow> lane_lock list" where
  "database_delete_locks d = database_locks d @ [exclusive (key_database_connections d)]"

definition database_lifecycle_locks :: "string \<Rightarrow> lane_lock list" where
  "database_lifecycle_locks d = [shared (key_database d), exclusive (key_database_lifecycle d)]"

definition database_read_locks :: "string \<Rightarrow> lane_lock list" where
  "database_read_locks d = [shared (key_database d), shared (key_database_lifecycle d)]"

datatype power_kind = PApp | PDatabase | PInstance

definition resource_power_locks :: "power_kind \<Rightarrow> string \<Rightarrow> string \<Rightarrow> lane_lock list" where
  "resource_power_locks kind i action =
     (case kind of PInstance \<Rightarrow> instance_power_locks i action
      | PApp \<Rightarrow> app_lifecycle_locks i | PDatabase \<Rightarrow> database_lifecycle_locks i)"

definition container_command_locks :: "bool \<Rightarrow> string \<Rightarrow> lane_lock list" where
  "container_command_locks is_app i = (if is_app then app_lifecycle_locks i else database_lifecycle_locks i)"

definition resource_lane_key :: "power_kind \<Rightarrow> string \<Rightarrow> string" where
  "resource_lane_key kind i =
     (case kind of PInstance \<Rightarrow> key_instance i | PApp \<Rightarrow> key_app i | PDatabase \<Rightarrow> key_database i)"

definition app_volume_file_locks :: "string \<Rightarrow> string \<Rightarrow> lane_lock list" where
  "app_volume_file_locks i v = app_file_locks i @ [shared (key_volume v), exclusive (key_volume_files v)]"

section \<open>File roots\<close>

definition file_root_write_locks :: "string \<Rightarrow> instance_resolver \<Rightarrow> lock_plan" where
  "file_root_write_locks root resolve =
     (if is_relay_file_root root then Now [exclusive key_host_files]
      else case app_volume_from_file_root root of
        Some (app, vol) \<Rightarrow> Now (app_volume_file_locks app vol)
      | None \<Rightarrow>
          (case app_id_from_file_root root of
             Some app \<Rightarrow> Now (app_file_locks app)
           | None \<Rightarrow> with_instance (resolve root) instance_file_locks))"

definition file_root_transfer_locks :: "string \<Rightarrow> lane_lock list" where
  "file_root_transfer_locks root =
     (if is_relay_file_root root then [shared key_host_files]
      else case database_id_from_file_root root of
        Some d \<Rightarrow> database_read_locks d
      | None \<Rightarrow>
          (case app_volume_from_file_root root of
             Some (app, vol) \<Rightarrow> [shared (key_app app), shared (key_volume vol)]
           | None \<Rightarrow>
               (case app_id_from_file_root root of
                  Some app \<Rightarrow> [shared (key_app app)]
                | None \<Rightarrow> [shared (key_instance root)])))"

definition file_root_commit_locks :: "string \<Rightarrow> lane_lock list" where
  "file_root_commit_locks root =
     (if is_relay_file_root root \<or> database_id_from_file_root root \<noteq> None then []
      else case app_volume_from_file_root root of
        Some (app, vol) \<Rightarrow> [exclusive (key_app_files app), exclusive (key_volume_files vol)]
      | None \<Rightarrow>
          (case app_id_from_file_root root of
             Some app \<Rightarrow> [exclusive (key_app_files app)]
           | None \<Rightarrow> [exclusive (key_instance_files root)]))"

definition transfer_pack_locks :: "string \<Rightarrow> lane_lock list" where
  "transfer_pack_locks root = file_root_transfer_locks root"

definition transfer_install_locks :: "string \<Rightarrow> lane_lock list" where
  "transfer_install_locks root =
     (if is_relay_file_root root then [exclusive key_host_files]
      else case app_id_from_file_root root of
        Some app \<Rightarrow> app_replace_locks app
      | None \<Rightarrow> instance_replace_locks root)"

section \<open>Backups\<close>

datatype backup_kind = BkCreate | BkRestore | BkDelete | BkExport | BkPrune

datatype backup_target = BtApp | BtVolume | BtInstance | BtDatabase | BtPlatform

record backup_task =
  bk_kind :: backup_kind
  bk_target :: backup_target
  bk_target_id :: string
  bk_consistency :: "string option"
  bk_reason :: "string option"
  bk_app_coverage :: "string option" \<comment> \<open>the App it covers\<close>

definition backup_stopped :: "backup_task \<Rightarrow> bool" where
  "backup_stopped b \<longleftrightarrow> bk_kind b = BkCreate \<and>
     (bk_consistency b = Some ''stopped'' \<or> bk_reason b = Some ''final_delete'')"

definition backup_volume_locks :: "bool \<Rightarrow> string \<Rightarrow> string list \<Rightarrow> lane_lock list" where
  "backup_volume_locks alone v apps =
     (if alone then exclusive (key_volume v) else shared (key_volume v)) #
     (if alone then concat (map app_lifecycle_locks (dedup apps)) else [])"

definition backup_task_locks :: "backup_task \<Rightarrow> instance_resolver \<Rightarrow> ids_resolver \<Rightarrow> lock_plan" where
  "backup_task_locks b resolve volume_apps =
     (if bk_kind b \<noteq> BkCreate \<and> bk_kind b \<noteq> BkRestore then Now []
      else
        let i = bk_target_id b; restore = (bk_kind b = BkRestore); stopped = backup_stopped b in
        case bk_target b of
          BtApp \<Rightarrow> Now (if restore then app_replace_locks i
                       else if stopped then app_lifecycle_locks i else [shared (key_app i)])
        | BtVolume \<Rightarrow>
            if \<not> restore \<and> \<not> stopped then Now (backup_volume_locks False i [])
            else then_promised (volume_apps i) (\<lambda>apps. Inr (backup_volume_locks True i apps))
        | BtInstance \<Rightarrow> with_instance (resolve i) (if restore then instance_replace_locks else instance_read_locks)
        | BtDatabase \<Rightarrow> Now (if restore then database_locks i else database_read_locks i)
        | BtPlatform \<Rightarrow> Now [if restore then exclusive key_platform else shared key_platform])"

definition backup_coverage_locks :: "backup_task \<Rightarrow> lane_lock list" where
  "backup_coverage_locks b =
     (case bk_app_coverage b of
        Some app \<Rightarrow>
          if bk_kind b = BkCreate \<and> bk_consistency b \<noteq> Some ''stopped'' \<and> bk_reason b \<noteq> Some ''final_delete''
          then [exclusive (key_app_lifecycle app)] else []
      | None \<Rightarrow> [])"

section \<open>Tailscale stacks\<close>

record stack_binding =
  sb_enabled :: bool
  sb_member :: string

type_synonym frozen_check = "string \<Rightarrow> string \<Rightarrow> bool"

definition active_members :: "stack_binding list \<Rightarrow> string set" where
  "active_members bs = sb_member ` set (filter sb_enabled bs)"

definition member_locks :: "frozen_check \<Rightarrow> bool \<Rightarrow> string \<Rightarrow> lane_lock list" where
  "member_locks is_frozen changes m =
     (case app_tailscale_member m of
        Some (app, _) \<Rightarrow>
          if changes then app_lifecycle_locks app
          else if is_frozen ''app'' app then [] else [shared (key_app app)]
      | None \<Rightarrow>
          (case database_tailscale_member m of
             Some d \<Rightarrow>
               if changes then database_locks d
               else if is_frozen ''database'' d then [] else [shared (key_database d)]
           | None \<Rightarrow>
               (case instance_tailscale_member m of
                  Some i \<Rightarrow>
                    if changes then instance_lifecycle_locks i
                    else if is_frozen ''instance'' i then [] else [shared (key_instance i)]
                | None \<Rightarrow> [])))"

definition tailscale_member_locks ::
  "stack_binding list \<Rightarrow> stack_binding list option \<Rightarrow> frozen_check \<Rightarrow> lane_lock list" where
  "tailscale_member_locks saved requested is_frozen =
     (let before = active_members saved;
          after = (case requested of None \<Rightarrow> {} | Some r \<Rightarrow> active_members r);
          named = dedup (map sb_member saved @ map sb_member (case requested of None \<Rightarrow> [] | Some r \<Rightarrow> r))
      in concat (map (\<lambda>m. member_locks is_frozen ((m \<in> before) \<noteq> (m \<in> after)) m) named))"

fun requested_binding :: "json \<Rightarrow> stack_binding option" where
  "requested_binding (JObj entry) =
     (case string_field entry ''memberId'' of
        None \<Rightarrow> None
      | Some m \<Rightarrow> Some \<lparr>sb_enabled = (map_of entry ''enabled'' \<noteq> Some (JBool False)), sb_member = m\<rparr>)"
| "requested_binding _ = None"

definition requested_tailscale_bindings :: "payload \<Rightarrow> stack_binding list" where
  "requested_tailscale_bindings p = List.map_filter requested_binding (json_array (map_of p ''bindings''))"

section \<open>Control requests\<close>

text \<open>The operations of \<open>controlRequestLocks\<close>'s switch that answer \<open>null\<close>, in its order.\<close>

definition unguarded_operations :: "string list" where
  "unguarded_operations =
  [''relay.snapshot'', ''relay.tunnel.open'', ''relay.system.inspect'',
   ''relay.update.status'', ''relay.resources.read'', ''relay.volumes.read'',
   ''relay.docker.storage'', ''relay.rename'', ''relay.audit.list'',
   ''relay.networking.read'', ''relay.tailscale.read'', ''relay.tailscale.stack.list'',
   ''relay.tailscale.stack.state'', ''relay.host.read'', ''relay.database.read'',
   ''relay.proxy.read'', ''relay.proxy.config.read'', ''relay.pairing.create'',
   ''relay.pairing.list'', ''relay.pairing.revoke'', ''relay.clients.list'',
   ''relay.clients.update'', ''relay.clients.revoke'', ''relay.platform.read'',
   ''relay.security.targets'', ''relay.security.inventory'', ''relay.host.packages.read'',
   ''relay.platform.logs'', ''relay.platform.database.read'', ''relay.installation.read'',
   ''browser.authorization.revise'', ''brick.catalog'', ''brick.recipe'',
   ''database.list'', ''database.inspect'', ''database.resources.read'',
   ''database.data.read'', ''app.list'', ''app.resources.read'',
   ''app.network.routes.read'', ''app.deployment.read'', ''app.image.check'',
   ''instance.resources.read'', ''instance.files.list'', ''instance.files.directory.list'',
   ''instance.files.directory.sizes'', ''instance.files.search'', ''instance.files.stat'',
   ''instance.files.read'', ''instance.icon.read'', ''instance.files.database.read'',
   ''instance.console.history'', ''instance.logs.share'', ''instance.logs.latest'',
   ''instance.network.routes.read'', ''instance.network.ports.reserve'', ''instance.network.ports.release'',
   ''relay.desktop.read'', ''relay.desktop.heartbeat'', ''relay.desktop.detach'',
   ''relay.terminal.attach'', ''relay.terminal.heartbeat'', ''relay.terminal.detach'',
   ''relay.terminal.write'', ''relay.terminal.claim'', ''relay.terminal.restart'',
   ''relay.platform.terminal.attach'', ''relay.platform.terminal.heartbeat'', ''relay.platform.terminal.detach'',
   ''relay.platform.terminal.write'', ''relay.platform.terminal.claim'', ''relay.platform.terminal.restart'',
   ''database.terminal.attach'', ''database.terminal.heartbeat'', ''database.terminal.detach'',
   ''database.terminal.write'', ''database.terminal.claim'', ''database.terminal.restart'',
   ''app.terminal.attach'', ''app.terminal.heartbeat'', ''app.terminal.detach'',
   ''app.terminal.write'', ''app.terminal.claim'', ''app.terminal.restart'',
   ''relay.update.apply'', ''relay.restart'', ''relay.host.restart'',
   ''relay.host.files.mount'', ''relay.docker.cleanup'', ''backup.task.enqueue'',
   ''backup.task.cancel'', ''backup.restore.resolve'', ''backup.restore.unfinished'',
   ''backup.task.get'', ''backup.task.list'', ''transfer.source.prepare'',
   ''transfer.source.get'', ''transfer.source.discard'', ''transfer.pull.start'',
   ''transfer.pull.get'', ''transfer.pull.cancel'', ''transfer.space'',
   ''schedule.apply'', ''schedule.run'', ''schedule.remove'',
   ''schedule.overview'', ''instance.provision.prepare'', ''instance.provision.claim'',
   ''instance.provision.cancel'', ''database.provision.prepare'', ''database.provision.claim'',
   ''database.provision.cancel'', ''app.provision.prepare'', ''app.provision.claim'',
   ''app.provision.cancel'', ''operation.get'', ''relay.pause.write'',
   ''hearth.database.terminal.output'', ''sftp.authorization.resolve'', ''relay.volumes.references.hold'']"

definition on_instance :: "payload \<Rightarrow> instance_resolver \<Rightarrow> string \<Rightarrow> (string \<Rightarrow> lane_lock list) \<Rightarrow> lock_plan option" where
  "on_instance p resolve field locks =
     map_option (\<lambda>reference. with_instance (resolve reference) locks) (string_field p field)"

definition on_id :: "payload \<Rightarrow> string \<Rightarrow> (string \<Rightarrow> lane_lock list) \<Rightarrow> lock_plan option" where
  "on_id p field locks = map_option (\<lambda>i. Now (locks i)) (string_field p field)"

definition app_with_volumes :: "payload \<Rightarrow> ids_resolver \<Rightarrow> (string \<Rightarrow> lane_lock list) \<Rightarrow> lock_plan option" where
  "app_with_volumes p volumes locks =
     map_option (\<lambda>i. then_promised (volumes i) (\<lambda>vs. Inr (locks i @ volume_reference_locks vs)))
       (string_field p ''appId'')"

definition resource_replace_locks :: "string \<Rightarrow> string \<Rightarrow> instance_resolver \<Rightarrow> lock_plan option" where
  "resource_replace_locks kind i resolve =
     (if kind = ''instance'' then Some (with_instance (resolve i) instance_replace_locks)
      else if kind = ''app'' then Some (Now (app_replace_locks i))
      else if kind = ''database'' then Some (Now (database_locks i))
      else if kind = ''volume'' then Some (Now [exclusive (key_volume i)])
      else None)"

fun json_field :: "string \<Rightarrow> json \<Rightarrow> json option" where
  "json_field field (JObj entry) = map_of entry field"
| "json_field field _ = None"

fun json_entry :: "json \<Rightarrow> payload option" where
  "json_entry (JObj entry) = Some entry"
| "json_entry _ = None"

definition network_write_locks :: "payload \<Rightarrow> instance_resolver \<Rightarrow> lock_plan option" where
  "network_write_locks p resolve =
     (case (string_field p ''databaseId'', Option.bind (map_of p ''member'') json_entry) of
        (Some d, Some member) \<Rightarrow>
          (case string_field member ''id'' of
             None \<Rightarrow> None
           | Some m \<Rightarrow>
               let kind = map_of member ''kind'' in
               if kind = Some (JStr ''instance'')
               then Some (with_instance (resolve m) (\<lambda>i. database_locks d @ instance_lifecycle_locks i))
               else if kind = Some (JStr ''app'') then Some (Now (database_locks d @ app_lifecycle_locks m))
               else if kind = Some (JStr ''database'') then Some (Now (database_locks d @ database_locks m))
               else None)
      | _ \<Rightarrow> None)"

definition network_import_locks :: "payload \<Rightarrow> lane_lock list" where
  "network_import_locks p =
     (let entries = List.map_filter json_entry (json_array (map_of p ''apps''));
          app_ids = dedup (List.map_filter (\<lambda>e. string_field e ''appId'') entries);
          database_ids = dedup (filter (\<lambda>i. i \<noteq> []) (concat (map (\<lambda>e. string_array (map_of e ''databaseIds'')) entries)))
      in map (\<lambda>i. shared (key_app i)) app_ids @ map (\<lambda>i. shared (key_database i)) database_ids)"

definition stack_locks ::
  "bool \<Rightarrow> payload \<Rightarrow> instance_resolver \<Rightarrow> (string \<Rightarrow> string + stack_binding list) option \<Rightarrow> frozen_check option \<Rightarrow>
   lock_plan option" where
  "stack_locks applying p resolve read_stack is_frozen =
     map_option (\<lambda>reference. then_promised (resolve reference) (\<lambda>stack.
         case (case read_stack of None \<Rightarrow> Inr [] | Some read \<Rightarrow> read stack) of
           Inl e \<Rightarrow> Inl e
         | Inr saved \<Rightarrow>
             Inr (instance_replace_locks stack @ shared key_tailscale #
                  tailscale_member_locks saved (if applying then Some (requested_tailscale_bindings p) else None)
                    (case is_frozen of None \<Rightarrow> (\<lambda>_ _. False) | Some f \<Rightarrow> f))))
       (string_field p ''id'')"

definition control_request_locks ::
  "string \<Rightarrow> payload \<Rightarrow> instance_resolver \<Rightarrow> ids_resolver \<Rightarrow>
   (string \<Rightarrow> string + stack_binding list) option \<Rightarrow> frozen_check option \<Rightarrow> lock_plan option" where
  "control_request_locks op p resolve volumes read_stack is_frozen =
     (let inst = on_instance p resolve ''instanceId'';
          app = on_id p ''appId'';
          database = on_id p ''databaseId''
      in
      if op \<in> set unguarded_operations then None
      else if op = ''relay.desktop.attach'' then Some (Now [exclusive key_desktop])
      else if op \<in> {''relay.platform.action'', ''relay.installation.replace''} then Some (Now [exclusive key_platform])
      else if op = ''relay.platform.database.write'' then Some (Now [shared key_platform])
      else if op = ''relay.host.packages.update'' then Some (Now [exclusive key_host_packages])
      else if op = ''instance.create'' then inst instance_replace_locks
      else if op \<in> {''relay.networking.write'', ''relay.proxy.write'', ''relay.proxy.trial'', ''relay.certificates.check''}
      then Some (Now [exclusive key_routes])
      else if op \<in> {''relay.volumes.create'', ''relay.volumes.rename'', ''relay.volumes.delete''}
      then on_id p ''id'' (\<lambda>i. [exclusive (key_volume i)])
      else if op = ''relay.volumes.references.import''
      then Some (Now (volume_reference_locks
             (concat (map (\<lambda>a. string_array (json_field ''volumeIds'' a)) (json_array (map_of p ''apps''))))))
      else if op \<in> {''relay.tailscale.install'', ''relay.tailscale.write''}
      then Some (Now [exclusive key_tailscale, exclusive key_routes])
      else if op = ''relay.tailscale.stack.dns''
      then on_instance p resolve ''id'' (\<lambda>i. instance_replace_locks i @ [shared key_tailscale])
      else if op \<in> {''relay.tailscale.stack.apply'', ''relay.tailscale.stack.remove''}
      then stack_locks (op = ''relay.tailscale.stack.apply'') p resolve read_stack is_frozen
      else if op = ''database.create'' then on_id p ''id'' database_locks
      else if op = ''database.limits.write'' then database (\<lambda>i. database_locks i @ [exclusive key_allocations])
      else if op = ''database.action''
      then database (\<lambda>i. resource_power_locks PDatabase i (case string_field p ''action'' of None \<Rightarrow> [] | Some a \<Rightarrow> a))
      else if op \<in> {''database.wipe'', ''database.delete''} then database database_delete_locks
      else if op \<in> {''database.credentials.rotate'', ''database.dump.import'', ''database.data.write''}
      then database database_locks
      else if op = ''database.dump.export'' then database database_read_locks
      else if op = ''database.network.write'' then network_write_locks p resolve
      else if op = ''database.network.import'' then Some (Now (network_import_locks p))
      else if op = ''app.create''
      then on_id p ''id'' (\<lambda>i. app_create_locks i (string_array (map_of p ''databaseIds'')))
      else if op = ''app.deployment.abort'' then app (\<lambda>i. [shared (key_app i)])
      else if op = ''app.delete'' then app_with_volumes p volumes app_replace_locks
      else if op \<in> {''app.limits.write'', ''app.deploy''} then app app_lifecycle_locks
      else if op = ''app.action'' then app_with_volumes p volumes app_lifecycle_locks
      else if op = ''app.network.routes.write'' then app (\<lambda>i. app_lifecycle_locks i @ [exclusive key_routes])
      else if op = ''app.volumes.write''
      then app (\<lambda>i. [shared (key_app i), exclusive (key_app_volumes i)] @
             volume_reference_locks (string_array (map_of p ''volumeIds'')))
      else if op \<in> {''instance.startup.write'', ''instance.delete''} then inst instance_replace_locks
      else if op \<in> {''instance.network.databases.remove'', ''instance.limits.write''} then inst instance_lifecycle_locks
      else if op = ''instance.rename''
      then inst (\<lambda>i. [shared (key_instance i), exclusive (key_instance_metadata i)])
      else if op = ''instance.action''
      then inst (\<lambda>i. resource_power_locks PInstance i (case string_field p ''action'' of None \<Rightarrow> [] | Some a \<Rightarrow> a))
      else if op \<in> {''instance.console.write'', ''instance.console.complete''} then inst instance_lifecycle_locks
      else if op \<in> {''instance.network.ports.write'', ''instance.network.routes.write''}
      then inst (\<lambda>i. instance_lifecycle_locks i @ [exclusive key_routes])
      else if op \<in> {''instance.files.write'', ''instance.files.put'', ''instance.files.upload-url'',
                     ''instance.files.mutate'', ''instance.files.mutate.result'', ''instance.files.database.write''}
      then map_option (\<lambda>root. file_root_write_locks root resolve) (string_field p ''instanceId'')
      else if op \<in> {''resource.freeze'', ''resource.unfreeze''}
      then (case (string_field p ''kind'', string_field p ''id'') of
              (Some kind, Some i) \<Rightarrow> resource_replace_locks kind i resolve
            | _ \<Rightarrow> None)
      else None)"

end
