(* ===== verification/Permissions.thy ===== *)
theory Permissions
  imports Prelude
begin

text \<open>
  \<open>packages/contracts/src/access-permissions.ts\<close>: the catalog of permissions, what a selection
  of permissions and collections grants at a scope, the built-in presets and the authority a
  Relay client's policy needs. Permissions are strings, as in the code. Labels and
  descriptions, which are only shown, are left out.
\<close>

section \<open>Scopes, families and selections\<close>

datatype permission_scope = SRelay | SInstance | SDatabase | SApp

datatype permission_family = FRelay | FInstance | FDatabase | FApp | FShared

datatype selection_kind = Permission | Collection

record permission_selection =
  sel_kind :: selection_kind
  sel_key :: string

definition permission_scope_types :: "permission_scope list" where
  "permission_scope_types = [SRelay, SInstance, SDatabase, SApp]"

definition access_grant_scope_types :: "permission_scope list" where
  "access_grant_scope_types = [SRelay, SInstance, SDatabase]"

fun scope_name :: "permission_scope \<Rightarrow> string" where
  "scope_name SRelay = ''relay''"
| "scope_name SInstance = ''instance''"
| "scope_name SDatabase = ''database''"
| "scope_name SApp = ''app''"

text \<open>\<open>permissionSelectionsSchema\<close>: at most 256 selections, with keys of 1 to 128 characters.\<close>

definition permission_selection_schema :: "permission_selection \<Rightarrow> bool" where
  "permission_selection_schema s \<longleftrightarrow> 1 \<le> length (sel_key s) \<and> length (sel_key s) \<le> 128"

definition permission_selections_schema :: "permission_selection list \<Rightarrow> bool" where
  "permission_selections_schema ss \<longleftrightarrow> length ss \<le> 256 \<and> list_all permission_selection_schema ss"

section \<open>The catalog\<close>

definition legacy_access_permissions :: "string list" where
  "legacy_access_permissions =
  [''relay.read'', ''relay.configure'', ''relay.delete'',
   ''access.invite'', ''access.manage'', ''instance.read'',
   ''instance.console.read'', ''instance.console.write'', ''instance.files.read'',
   ''instance.files.write'', ''instance.delete'', ''instance.power'',
   ''instance.settings'', ''instance.logs.share'', ''instance.network.read'',
   ''instance.network.write'', ''instance.network.public-port.write'', ''instance.sftp.connect'',
   ''database.read'', ''database.create'', ''database.credentials.read'',
   ''database.credentials.rotate'', ''database.power'', ''database.delete'',
   ''database.network.read'', ''database.network.write'', ''database.dump.export'',
   ''database.dump.import'', ''backup.read'', ''backup.create'',
   ''backup.download'', ''backup.restore'', ''backup.delete'',
   ''schedule.read'', ''schedule.create'', ''schedule.execute'',
   ''schedule.update'', ''schedule.delete'']"

definition access_permissions :: "string list" where
  "access_permissions = legacy_access_permissions @
  [''access.read'', ''preset.read'', ''preset.create'',
   ''preset.manage'', ''instance.create'', ''instance.configuration.read'',
   ''instance.configuration.write'', ''instance.limits.write'', ''instance.power.start'',
   ''instance.power.stop'', ''instance.power.restart'', ''instance.power.kill'',
   ''instance.files.delete'', ''instance.files.chmod'', ''instance.logs.read'',
   ''relay.update'', ''relay.pause'', ''relay.connections.read'',
   ''relay.connections.manage'', ''relay.audit.read'', ''relay.logs.read'',
   ''relay.terminal'', ''relay.database.read'', ''relay.files.read'',
   ''relay.files.write'', ''relay.files.mount'', ''database.data.read'',
   ''database.data.write'', ''database.terminal'', ''database.logs.read'',
   ''database.limits.write'', ''app.read'', ''app.create'',
   ''app.manage'', ''app.delete'', ''app.logs.read'',
   ''app.terminal'', ''app.files.read'', ''app.files.write'']"

definition implication_edges :: "(string \<times> string list) list" where
  "implication_edges =
  [(''access.invite'', [''access.read'', ''preset.create'']),
   (''access.manage'', [''access.invite'']),
   (''preset.create'', [''preset.read'']),
   (''preset.manage'', [''preset.create'']),
   (''instance.console.write'', [''instance.console.read'']),
   (''instance.files.write'', [''instance.files.read'']),
   (''instance.files.delete'', [''instance.files.read'']),
   (''instance.files.chmod'', [''instance.files.read'']),
   (''instance.sftp.connect'', [''instance.files.read'']),
   (''instance.power'', [''instance.power.kill'']),
   (''instance.power.stop'', [''instance.power.start'']),
   (''instance.power.restart'', [''instance.power.stop'']),
   (''instance.power.kill'', [''instance.power.restart'']),
   (''instance.settings'', [''instance.configuration.write'', ''instance.limits.write'']),
   (''instance.configuration.write'', [''instance.configuration.read'']),
   (''instance.limits.write'', [''instance.configuration.read'']),
   (''instance.logs.share'', [''instance.logs.read'']),
   (''instance.network.write'', [''instance.network.read'']),
   (''instance.network.public-port.write'', [''instance.network.write'']),
   (''database.credentials.rotate'', [''database.credentials.read'']),
   (''database.network.write'', [''database.network.read'']),
   (''database.data.write'', [''database.data.read'']),
   (''app.files.write'', [''app.files.read'']),
   (''backup.create'', [''backup.read'']),
   (''backup.download'', [''backup.read'']),
   (''backup.restore'', [''backup.read'']),
   (''backup.delete'', [''backup.read'']),
   (''schedule.create'', [''schedule.read'']),
   (''schedule.update'', [''schedule.read'']),
   (''schedule.execute'', [''schedule.read'']),
   (''schedule.delete'', [''schedule.read'']),
   (''relay.connections.manage'', [''relay.connections.read'']),
   (''relay.files.write'', [''relay.files.read''])]"

text \<open>Each permission's editor block and family; a record, so the order of its rows is free.\<close>

definition permission_placement :: "(string \<times> string \<times> permission_family) list" where
  "permission_placement =
  [(''relay.read'', ''overview'', FRelay),
   (''relay.configure'', ''relay.configuration'', FRelay),
   (''relay.delete'', ''resource.deletion'', FRelay),
   (''access.invite'', ''access'', FShared),
   (''access.manage'', ''access'', FShared),
   (''instance.read'', ''overview'', FInstance),
   (''instance.console.read'', ''instance.console'', FInstance),
   (''instance.console.write'', ''instance.console'', FInstance),
   (''instance.files.read'', ''instance.files'', FInstance),
   (''instance.files.write'', ''instance.files'', FInstance),
   (''instance.delete'', ''resource.deletion'', FInstance),
   (''instance.power'', ''instance.power'', FInstance),
   (''instance.settings'', ''instance.configuration'', FInstance),
   (''instance.logs.share'', ''instance.logs'', FInstance),
   (''instance.network.read'', ''instance.network'', FInstance),
   (''instance.network.write'', ''instance.network'', FInstance),
   (''instance.network.public-port.write'', ''instance.network'', FInstance),
   (''instance.sftp.connect'', ''instance.files'', FInstance),
   (''database.read'', ''overview'', FDatabase),
   (''database.create'', ''resource.creation'', FRelay),
   (''database.credentials.read'', ''database.credentials'', FDatabase),
   (''database.credentials.rotate'', ''database.credentials'', FDatabase),
   (''database.power'', ''database.power'', FDatabase),
   (''database.delete'', ''resource.deletion'', FDatabase),
   (''database.network.read'', ''database.network'', FDatabase),
   (''database.network.write'', ''database.network'', FDatabase),
   (''database.dump.export'', ''database.dump'', FDatabase),
   (''database.dump.import'', ''database.dump'', FDatabase),
   (''backup.read'', ''backup'', FShared),
   (''backup.create'', ''backup'', FShared),
   (''backup.download'', ''backup'', FShared),
   (''backup.restore'', ''backup'', FShared),
   (''backup.delete'', ''backup'', FShared),
   (''schedule.read'', ''schedule'', FShared),
   (''schedule.create'', ''schedule'', FShared),
   (''schedule.execute'', ''schedule'', FShared),
   (''schedule.update'', ''schedule'', FShared),
   (''schedule.delete'', ''schedule'', FShared),
   (''access.read'', ''access'', FShared),
   (''preset.read'', ''preset'', FShared),
   (''preset.create'', ''preset'', FShared),
   (''preset.manage'', ''preset'', FShared),
   (''instance.create'', ''resource.creation'', FRelay),
   (''instance.configuration.read'', ''instance.configuration'', FInstance),
   (''instance.configuration.write'', ''instance.configuration'', FInstance),
   (''instance.limits.write'', ''instance.configuration'', FInstance),
   (''instance.power.start'', ''instance.power'', FInstance),
   (''instance.power.stop'', ''instance.power'', FInstance),
   (''instance.power.restart'', ''instance.power'', FInstance),
   (''instance.power.kill'', ''instance.power'', FInstance),
   (''instance.files.delete'', ''instance.files'', FInstance),
   (''instance.files.chmod'', ''instance.files'', FInstance),
   (''instance.logs.read'', ''instance.logs'', FInstance),
   (''relay.update'', ''relay.configuration'', FRelay),
   (''relay.pause'', ''relay.configuration'', FRelay),
   (''relay.connections.read'', ''relay.connections'', FRelay),
   (''relay.connections.manage'', ''relay.connections'', FRelay),
   (''relay.audit.read'', ''relay.activity'', FRelay),
   (''relay.logs.read'', ''relay.logs'', FRelay),
   (''relay.terminal'', ''relay.terminal'', FRelay),
   (''relay.database.read'', ''relay.database'', FRelay),
   (''relay.files.read'', ''relay.files'', FRelay),
   (''relay.files.write'', ''relay.files'', FRelay),
   (''relay.files.mount'', ''relay.files'', FRelay),
   (''database.data.read'', ''database.data'', FDatabase),
   (''database.data.write'', ''database.data'', FDatabase),
   (''database.terminal'', ''database.terminal'', FDatabase),
   (''database.logs.read'', ''database.logs'', FDatabase),
   (''database.limits.write'', ''database.limits'', FDatabase),
   (''app.read'', ''overview'', FApp),
   (''app.create'', ''resource.creation'', FRelay),
   (''app.manage'', ''app.manage'', FApp),
   (''app.delete'', ''resource.deletion'', FApp),
   (''app.logs.read'', ''app.logs'', FApp),
   (''app.terminal'', ''app.terminal'', FApp),
   (''app.files.read'', ''app.files'', FApp),
   (''app.files.write'', ''app.files'', FApp)]"

fun family_scopes :: "permission_family \<Rightarrow> permission_scope list" where
  "family_scopes FRelay = [SRelay]"
| "family_scopes FInstance = [SRelay, SInstance]"
| "family_scopes FDatabase = [SRelay, SDatabase]"
| "family_scopes FApp = [SRelay, SApp]"
| "family_scopes FShared = access_grant_scope_types"

fun family_visibility :: "permission_family \<Rightarrow> string option" where
  "family_visibility FRelay = Some ''relay.read''"
| "family_visibility FInstance = Some ''instance.read''"
| "family_visibility FDatabase = Some ''database.read''"
| "family_visibility FApp = Some ''app.read''"
| "family_visibility FShared = None"

definition relay_scope_child_visibility :: "string \<Rightarrow> string list" where
  "relay_scope_child_visibility block =
     (if block = ''backup'' \<or> block = ''schedule'' then [''instance.read'', ''database.read''] else [])"

definition compatibility_only_permissions :: "string list" where
  "compatibility_only_permissions = [''instance.power'', ''instance.settings'']"

record permission_definition =
  pd_key :: string
  pd_block :: string
  pd_family :: permission_family
  pd_scopes :: "permission_scope list"
  pd_implies :: "string list"
  pd_capabilities :: "string list"
  pd_compatibility_only :: bool

definition catalog_entry :: "string \<Rightarrow> string \<times> permission_family \<Rightarrow> permission_definition" where
  "catalog_entry key placement =
     (case placement of (block, family) \<Rightarrow>
        \<lparr>pd_key = key, pd_block = block, pd_family = family, pd_scopes = family_scopes family,
         pd_implies = dedup
           ((case map_of implication_edges key of None \<Rightarrow> [] | Some ps \<Rightarrow> ps) @
            (case family_visibility family of None \<Rightarrow> [] | Some v \<Rightarrow> if v \<noteq> key then [v] else [])),
         pd_capabilities =
           (if block = ''database.dump'' then [''database.logical-backups'']
            else if block = ''database.data'' then [''database.sql''] else []),
         pd_compatibility_only = (key \<in> set compatibility_only_permissions)\<rparr>)"

text \<open>Every permission has its place (\<open>Record<AccessPermission, ...>\<close>), so none is dropped.\<close>

definition permission_catalog :: "permission_definition list" where
  "permission_catalog =
     List.map_filter (\<lambda>key. map_option (catalog_entry key) (map_of permission_placement key)) access_permissions"

definition permission_definitions :: "string \<Rightarrow> permission_definition option" where
  "permission_definitions = map_of (map (\<lambda>d. (pd_key d, d)) permission_catalog)"

definition access_permission_supported :: "string \<Rightarrow> permission_scope \<Rightarrow> string list option \<Rightarrow> bool" where
  "access_permission_supported p scope capabilities =
     (case permission_definitions p of
        None \<Rightarrow> False
      | Some d \<Rightarrow> scope \<in> set (pd_scopes d) \<and>
          (case capabilities of None \<Rightarrow> True | Some cs \<Rightarrow> list_all (\<lambda>c. c \<in> set cs) (pd_capabilities d)))"

section \<open>Blocks and collections\<close>

record permission_block =
  pb_key :: string
  pb_permissions :: "string list"

definition permission_blocks :: "permission_block list" where
  "permission_blocks =
     map (\<lambda>key. \<lparr>pb_key = key, pb_permissions =
            map pd_key (filter (\<lambda>d. pd_block d = key \<and> \<not> pd_compatibility_only d) permission_catalog)\<rparr>)
       (dedup (map pd_block permission_catalog))"

record permission_collection =
  pc_key :: string
  pc_scopes :: "permission_scope list"
  pc_selections :: "permission_selection list"
  pc_child_scope :: "permission_scope option"

definition select_permission :: "string \<Rightarrow> permission_selection" where
  "select_permission key = \<lparr>sel_kind = Permission, sel_key = key\<rparr>"

definition select_collection :: "string \<Rightarrow> permission_selection" where
  "select_collection key = \<lparr>sel_kind = Collection, sel_key = key\<rparr>"

definition block_supported :: "permission_block \<Rightarrow> permission_scope \<Rightarrow> bool" where
  "block_supported b scope \<longleftrightarrow> list_ex (\<lambda>p. access_permission_supported p scope None) (pb_permissions b)"

definition block_collection :: "permission_block \<Rightarrow> permission_collection" where
  "block_collection b =
     \<lparr>pc_key = pb_key b @ ''.all'', pc_scopes = filter (block_supported b) permission_scope_types,
      pc_selections = map select_permission (pb_permissions b), pc_child_scope = None\<rparr>"

fun scope_family :: "permission_scope \<Rightarrow> permission_family" where
  "scope_family SRelay = FRelay"
| "scope_family SInstance = FInstance"
| "scope_family SDatabase = FDatabase"
| "scope_family SApp = FApp"

definition scope_collection :: "permission_scope \<Rightarrow> permission_collection" where
  "scope_collection scope =
     \<lparr>pc_key = scope_name scope @ ''.all'', pc_scopes = family_scopes (scope_family scope),
      pc_selections = map (\<lambda>b. select_collection (pb_key b @ ''.all'')) (filter (\<lambda>b. block_supported b scope) permission_blocks),
      pc_child_scope = (if scope = SRelay then None else Some scope)\<rparr>"

definition all_collection :: permission_collection where
  "all_collection =
     \<lparr>pc_key = ''all'', pc_scopes = permission_scope_types,
      pc_selections = map (\<lambda>b. select_collection (pb_key b @ ''.all'')) permission_blocks, pc_child_scope = None\<rparr>"

definition permission_collections :: "permission_collection list" where
  "permission_collections =
     map block_collection permission_blocks @ map scope_collection permission_scope_types @ [all_collection]"

definition collections :: "string \<Rightarrow> permission_collection option" where
  "collections = map_of (map (\<lambda>c. (pc_key c, c)) permission_collections)"

section \<open>Checking the catalog\<close>

definition permission_node :: "string \<Rightarrow> string" where
  "permission_node key = ''permission:'' @ key"

definition collection_node :: "string \<Rightarrow> string" where
  "collection_node key = ''collection:'' @ key"

fun selection_node :: "permission_selection \<Rightarrow> string" where
  "selection_node s = (case sel_kind s of Permission \<Rightarrow> permission_node (sel_key s) | Collection \<Rightarrow> collection_node (sel_key s))"

type_synonym catalog_nodes = "(string \<times> string list) list"

fun add_permission_nodes :: "permission_definition list \<Rightarrow> catalog_nodes \<Rightarrow> string + catalog_nodes" where
  "add_permission_nodes [] nodes = Inr nodes"
| "add_permission_nodes (d # ds) nodes =
     (let key = permission_node (pd_key d) in
      if map_of nodes key \<noteq> None then Inl (''Duplicate permission: '' @ pd_key d)
      else add_permission_nodes ds (nodes @ [(key, map permission_node (pd_implies d))]))"

fun add_collection_nodes :: "permission_collection list \<Rightarrow> catalog_nodes \<Rightarrow> string + catalog_nodes" where
  "add_collection_nodes [] nodes = Inr nodes"
| "add_collection_nodes (c # cs) nodes =
     (let key = collection_node (pc_key c) in
      if map_of nodes key \<noteq> None then Inl (''Duplicate collection: '' @ pc_key c)
      else add_collection_nodes cs (nodes @ [(key, map selection_node (pc_selections c))]))"

lemma unvisited_psubset:
  assumes "map_of nodes key = Some children" and "key \<notin> set visiting"
  shows "card (fst ` set nodes - set (key # visiting)) < card (fst ` set nodes - set visiting)"
proof -
  have "key \<in> fst ` set nodes" using map_of_SomeD [OF assms(1)] by force
  with assms(2) show ?thesis by (intro psubset_card_mono) auto
qed

text \<open>
  The depth-first search. \<open>visiting\<close> is the path from the root, which the code's set holds
  while the search is below it; \<open>complete\<close> is threaded through.
\<close>

function (sequential) visit_node :: "catalog_nodes \<Rightarrow> string list \<Rightarrow> string \<Rightarrow> string list \<Rightarrow> string + string list"
  and visit_nodes :: "catalog_nodes \<Rightarrow> string list \<Rightarrow> string list \<Rightarrow> string list \<Rightarrow> string + string list" where
  "visit_node nodes visiting key complete =
     (if key \<in> set complete then Inr complete
      else if key \<in> set visiting then Inl (''Permission catalog cycle: '' @ key)
      else case map_of nodes key of
        None \<Rightarrow> Inl (''Unknown permission catalog reference: '' @ key)
      | Some children \<Rightarrow>
          (case visit_nodes nodes (key # visiting) children complete of
             Inl e \<Rightarrow> Inl e
           | Inr complete' \<Rightarrow> Inr (key # complete')))"
| "visit_nodes nodes visiting [] complete = Inr complete"
| "visit_nodes nodes visiting (child # children) complete =
     (case visit_node nodes visiting child complete of
        Inl e \<Rightarrow> Inl e
      | Inr complete' \<Rightarrow> visit_nodes nodes visiting children complete')"
  by pat_completeness auto

termination
proof (relation "inv_image (less_than <*lex*> less_than)
    (\<lambda>x. case x of Inl (nodes, visiting, key, complete) \<Rightarrow> (card (fst ` set nodes - set visiting), 0)
         | Inr (nodes, visiting, children, complete) \<Rightarrow>
             (card (fst ` set nodes - set visiting), Suc (length children)))", goal_cases)
  case (2 nodes visiting key complete children)
  then show ?case using unvisited_psubset [of nodes key children visiting] by simp
qed auto

definition validate_permission_catalog ::
  "permission_definition list \<Rightarrow> permission_collection list \<Rightarrow> string + unit" where
  "validate_permission_catalog catalog groups =
     (case add_permission_nodes catalog [] of
        Inl e \<Rightarrow> Inl e
      | Inr nodes1 \<Rightarrow>
          (case add_collection_nodes groups nodes1 of
             Inl e \<Rightarrow> Inl e
           | Inr nodes \<Rightarrow>
               (case visit_nodes nodes [] (map fst nodes) [] of Inl e \<Rightarrow> Inl e | Inr _ \<Rightarrow> Inr ())))"

end
