(* ===== verification/Permission_Catalog.thy ===== *)
theory Permission_Catalog
  imports Permissions
begin

text \<open>
  Facts of the catalog of permissions as it stands: each permission has one entry, and what
  one implies belongs to its own family. Each is evaluated once, over the tables of the code;
  the proofs about granting rest on them.
\<close>

section \<open>One entry for each permission\<close>

lemma access_permissions_rows: "access_permissions = map fst permission_placement"
  by (simp add: access_permissions_def legacy_access_permissions_def permission_placement_def)

lemma distinct_access_permissions: "distinct access_permissions"
  by (simp add: access_permissions_def legacy_access_permissions_def)

lemma map_filter_rows:
  "(\<And>k v. (k, v) \<in> set rows \<Longrightarrow> g k = Some v) \<Longrightarrow>
   List.map_filter (\<lambda>k. map_option (f k) (g k)) (map fst rows) = map (\<lambda>(k, v). f k v) rows"
proof (induction rows)
  case (Cons r rows)
  obtain k v where r: "r = (k, v)" by (cases r)
  then have "g k = Some v" using Cons.prems by simp
  moreover have "List.map_filter (\<lambda>k. map_option (f k) (g k)) (map fst rows) = map (\<lambda>(k, v). f k v) rows"
    using Cons by simp
  ultimately show ?case by (simp add: r List.map_filter_simps)
qed (simp add: List.map_filter_simps)

lemma permission_catalog_rows: "permission_catalog = map (\<lambda>(k, v). catalog_entry k v) permission_placement"
  unfolding permission_catalog_def access_permissions_rows
  by (rule map_filter_rows, rule map_of_is_SomeI) (simp_all add: distinct_access_permissions [unfolded access_permissions_rows])

lemma pd_catalog_entry [simp]:
  "pd_key (catalog_entry k (b, f)) = k" "pd_block (catalog_entry k (b, f)) = b"
  "pd_family (catalog_entry k (b, f)) = f" "pd_scopes (catalog_entry k (b, f)) = family_scopes f"
  by (simp_all add: catalog_entry_def)

lemma map_of_catalog: "map_of (map (\<lambda>d. (pd_key d, d)) (map (\<lambda>(k, v). catalog_entry k v) rows)) k =
    map_option (catalog_entry k) (map_of rows k)"
  by (induction rows) auto

lemma permission_definitions_rows:
  "permission_definitions k = map_option (catalog_entry k) (map_of permission_placement k)"
  unfolding permission_definitions_def permission_catalog_rows map_of_catalog ..

lemma permission_definitions_iff: "permission_definitions k \<noteq> None \<longleftrightarrow> k \<in> set access_permissions"
  by (simp add: permission_definitions_rows access_permissions_rows map_of_eq_None_iff)

lemma permission_definitions_Some:
  "permission_definitions k = Some d \<Longrightarrow> k \<in> set access_permissions \<and> pd_key d = k \<and> d \<in> set permission_catalog"
  using permission_definitions_iff [of k] map_of_SomeD [of permission_placement k]
  by (fastforce simp: permission_definitions_rows permission_catalog_rows)

lemma access_permissions_schema: "list_all (\<lambda>k. 1 \<le> length k \<and> length k \<le> 128) access_permissions"
  by code_simp

section \<open>What a permission implies\<close>

text \<open>How far a permission is above what implies nothing more.\<close>

definition implication_rank :: "string \<Rightarrow> nat" where
  "implication_rank k =
     (if k \<in> {''relay.read'', ''instance.read'', ''database.read'', ''app.read''} then 0
      else if k = ''instance.power'' then 5
      else if k = ''instance.power.kill'' \<or> k = ''access.manage'' then 4
      else if k \<in> {''instance.power.restart'', ''access.invite'', ''preset.manage'', ''instance.settings'',
                   ''instance.network.public-port.write''} then 3
      else if k \<in> set (map fst implication_edges) then 2 else 1)"

text \<open>
  Per edge: both ends are known, of one family and one set of capabilities, and no legacy
  umbrella is implied.
\<close>

definition block_capabilities :: "string \<Rightarrow> string list" where
  "block_capabilities b =
     (if b = ''database.dump'' then [''database.logical-backups''] else if b = ''database.data'' then [''database.sql''] else [])"

definition edge_ok :: "string \<Rightarrow> string \<Rightarrow> bool" where
  "edge_ok p q \<longleftrightarrow>
     (case (map_of permission_placement p, map_of permission_placement q) of
        (Some (b, f), Some (b', f')) \<Rightarrow> f = f' \<and> set (block_capabilities b') \<subseteq> set (block_capabilities b)
      | _ \<Rightarrow> False) \<and> implication_rank q < implication_rank p \<and> q \<notin> set compatibility_only_permissions"

lemma implication_edges_ok: "list_all (\<lambda>(p, qs). list_all (edge_ok p) qs) implication_edges"
  by code_simp

lemma pd_implies_cases:
  assumes "permission_definitions p = Some d" and "q \<in> set (pd_implies d)"
  shows "(\<exists>qs. (p, qs) \<in> set implication_edges \<and> q \<in> set qs) \<or>
    (family_visibility (pd_family d) = Some q \<and> q \<noteq> p)"
proof -
  obtain b f where d: "d = catalog_entry p (b, f)"
    using assms(1) by (auto simp: permission_definitions_rows)
  show ?thesis
  proof (cases "map_of implication_edges p")
    case None
    with assms(2) show ?thesis by (auto simp: d catalog_entry_def split: option.splits if_splits)
  next
    case (Some qs)
    with assms(2) map_of_SomeD [OF Some] show ?thesis
      by (auto simp: d catalog_entry_def split: option.splits if_splits)
  qed
qed

lemma edge_okD:
  assumes "(p, qs) \<in> set implication_edges" "q \<in> set qs"
  shows "edge_ok p q"
  using implication_edges_ok assms by (fastforce simp: list_all_iff)

lemma visibility_rank: "family_visibility f = Some q \<Longrightarrow> implication_rank q = 0"
  by (cases f) (auto simp: implication_rank_def)

lemma rank_zero:
  assumes "implication_rank p = 0"
  obtains f where "family_visibility f = Some p"
proof -
  from assms have "p = ''relay.read'' \<or> p = ''instance.read'' \<or> p = ''database.read'' \<or> p = ''app.read''"
    by (auto simp: implication_rank_def split: if_splits)
  then have "\<exists>f. family_visibility f = Some p"
    using family_visibility.simps(1-4) by metis
  then show ?thesis using that by blast
qed

lemma visibility_defined:
  "permission_definitions ''relay.read'' = Some (catalog_entry ''relay.read'' (''overview'', FRelay))"
  "permission_definitions ''instance.read'' = Some (catalog_entry ''instance.read'' (''overview'', FInstance))"
  "permission_definitions ''database.read'' = Some (catalog_entry ''database.read'' (''overview'', FDatabase))"
  "permission_definitions ''app.read'' = Some (catalog_entry ''app.read'' (''overview'', FApp))"
  by (simp_all add: permission_definitions_rows permission_placement_def)

lemma visibility_Some:
  assumes "family_visibility f = Some v"
  shows "permission_definitions v = Some (catalog_entry v (''overview'', f))"
  using assms by (cases f) (auto simp: visibility_defined)

lemma implies_not_compatibility:
  assumes "permission_definitions p = Some d" and "q \<in> set (pd_implies d)"
  shows "q \<notin> set compatibility_only_permissions"
  using pd_implies_cases [OF assms]
proof
  assume "family_visibility (pd_family d) = Some q \<and> q \<noteq> p"
  then show ?thesis by (cases "pd_family d") (auto simp: compatibility_only_permissions_def)
qed (auto dest: edge_okD simp: edge_ok_def)

text \<open>Everything implied is known, of the same family, and needs no capability more.\<close>

lemma implies_ok:
  assumes p: "permission_definitions p = Some d" and q: "q \<in> set (pd_implies d)"
  obtains d' where "permission_definitions q = Some d'" "pd_family d' = pd_family d"
    "set (pd_capabilities d') \<subseteq> set (pd_capabilities d)" "implication_rank q < implication_rank p"
proof -
  obtain b f where d: "d = catalog_entry p (b, f)" "map_of permission_placement p = Some (b, f)"
    using p by (auto simp: permission_definitions_rows)
  have caps: "pd_capabilities (catalog_entry k (b', f')) = block_capabilities b'" for k b' f'
    by (simp add: catalog_entry_def block_capabilities_def)
  from pd_implies_cases [OF p q] show ?thesis
  proof
    assume "\<exists>qs. (p, qs) \<in> set implication_edges \<and> q \<in> set qs"
    then have "edge_ok p q" using edge_okD by blast
    with d(2) obtain b' where "map_of permission_placement q = Some (b', f)"
      "set (block_capabilities b') \<subseteq> set (block_capabilities b)" "implication_rank q < implication_rank p"
      by (auto simp: edge_ok_def split: option.splits)
    then show ?thesis using d by (intro that [of "catalog_entry q (b', f)"]) (simp_all add: permission_definitions_rows caps)
  next
    assume v: "family_visibility (pd_family d) = Some q \<and> q \<noteq> p"
    then have f: "family_visibility f = Some q" by (simp add: d)
    have "implication_rank p \<noteq> 0"
    proof
      assume "implication_rank p = 0"
      then obtain f' where f': "family_visibility f' = Some p" by (rule rank_zero)
      from visibility_Some [OF this] p have "d = catalog_entry p (''overview'', f')" by simp
      then have "f' = f" using d(1) pd_catalog_entry(3) by metis
      with f f' v show False by simp
    qed
    with visibility_rank [OF f] visibility_Some [OF f] show ?thesis
      by (intro that [of "catalog_entry q (''overview'', f)"]) (simp_all add: d caps block_capabilities_def)
  qed
qed

section \<open>Blocks\<close>

text \<open>No collection of a block has the key of a scope's collection or of the one of everything.\<close>

definition block_key_ok :: "string \<Rightarrow> bool" where
  "block_key_ok b \<longleftrightarrow> b \<noteq> [] \<and> b \<notin> set (map scope_name permission_scope_types)"

lemma block_keys_ok: "list_all (\<lambda>(k, b, f). block_key_ok b) permission_placement"
  by code_simp

lemma block_keyD:
  assumes "b \<in> set permission_blocks"
  shows "block_key_ok (pb_key b)"
proof -
  from assms have "pb_key b \<in> pd_block ` set permission_catalog" by (auto simp: permission_blocks_def)
  then obtain k f where "(k, pb_key b, f) \<in> set permission_placement"
    by (auto simp: permission_catalog_rows)
  with block_keys_ok show ?thesis by (fastforce simp: list_all_iff)
qed

end
