(* ===== verification/Permission_Grants.thy ===== *)
theory Permission_Grants
  imports Permission_Catalog
begin

text \<open>
  What selections grant (\<open>expandPermissionSelections\<close>), the built-in presets, and the
  authority a Relay client's policy needs. The recursions of the code end because the
  catalog is acyclic: what a permission implies is below it in rank, what a collection holds
  below the collection.
\<close>

section \<open>Implications\<close>

text \<open>The cache of the code holds what the function answers. A key that isn't in the catalog never gets here.\<close>

function implication_closure :: "string \<Rightarrow> string list" where
  "implication_closure key =
     (case permission_definitions key of
        None \<Rightarrow> [key]
      | Some d \<Rightarrow> dedup (key # concat (map implication_closure (pd_implies d))))"
  by auto

termination
proof (relation "measure implication_rank", goal_cases)
  case (2 key d q)
  then show ?case by (auto elim: implies_ok)
qed simp

declare implication_closure.simps [simp del]

section \<open>Expanding selections\<close>

definition add_all :: "'a list \<Rightarrow> 'a list \<Rightarrow> 'a list" where
  "add_all xs result = foldl (\<lambda>r x. set_add x r) result xs"

definition scope_read :: "permission_scope \<Rightarrow> string" where
  "scope_read scope = scope_name scope @ ''.read''"

text \<open>The rank of a selection: collections of collections, collections of permissions, permissions.\<close>

definition selection_rank :: "permission_selection \<Rightarrow> nat" where
  "selection_rank s =
     (case sel_kind s of
        Permission \<Rightarrow> 0
      | Collection \<Rightarrow>
          if sel_key s = ''all'' \<or> sel_key s \<in> set (map (\<lambda>sc. scope_name sc @ ''.all'') permission_scope_types) then 2 else 1)"

lemma block_collection_rank:
  assumes "b \<in> set permission_blocks"
  shows "selection_rank (select_collection (pb_key b @ ''.all'')) = 1"
proof -
  have ok: "block_key_ok (pb_key b)" by (rule block_keyD [OF assms])
  have "pb_key b @ ''.all'' \<noteq> ''all''" by (auto simp: append_eq_Cons_conv)
  with ok show ?thesis
    by (auto simp: selection_rank_def select_collection_def block_key_ok_def)
qed

lemma collections_Some:
  "collections key = Some g \<Longrightarrow> pc_key g = key \<and> g \<in> set permission_collections"
  by (auto simp: collections_def dest: map_of_SomeD)

lemma collection_members_rank:
  assumes g: "collections key = Some g" and child: "child \<in> set (pc_selections g)"
  shows "selection_rank child < selection_rank (select_collection key)"
proof -
  have key: "pc_key g = key" "g \<in> set permission_collections" using collections_Some [OF g] by auto
  consider b where "b \<in> set permission_blocks" "g = block_collection b"
    | sc where "sc \<in> set permission_scope_types" "g = scope_collection sc"
    | "g = all_collection"
    using key(2) by (auto simp: permission_collections_def)
  then show ?thesis
  proof cases
    case 1
    then have "selection_rank child = 0" using child
      by (auto simp: block_collection_def select_permission_def selection_rank_def)
    moreover have "selection_rank (select_collection key) > 0"
      by (simp add: selection_rank_def select_collection_def)
    ultimately show ?thesis by simp
  next
    case 2
    then have "key = scope_name sc @ ''.all''" using key(1) by (simp add: scope_collection_def)
    then have "selection_rank (select_collection key) = 2"
      using 2(1) by (auto simp: selection_rank_def select_collection_def)
    moreover have "selection_rank child = 1"
      using child 2 block_collection_rank by (auto simp: scope_collection_def)
    ultimately show ?thesis by simp
  next
    case 3
    then have "key = ''all''" using key(1) by (simp add: all_collection_def)
    then have "selection_rank (select_collection key) = 2"
      by (simp add: selection_rank_def select_collection_def)
    moreover have "selection_rank child = 1"
      using child 3 block_collection_rank by (auto simp: all_collection_def)
    ultimately show ?thesis by simp
  qed
qed

lemma max_rank_less:
  "(\<And>x. x \<in> set xs \<Longrightarrow> f x < (n::nat)) \<Longrightarrow> 0 < n \<Longrightarrow> foldr (\<lambda>x m. max (f x) m) xs 0 < n"
  by (induction xs) auto

function (sequential) expand_selection ::
  "string list option \<Rightarrow> permission_selection \<Rightarrow> permission_scope \<Rightarrow> bool \<Rightarrow> string list \<Rightarrow> string + string list"
  and expand_selections ::
  "string list option \<Rightarrow> permission_selection list \<Rightarrow> permission_scope \<Rightarrow> bool \<Rightarrow> string list \<Rightarrow> string + string list" where
  "expand_selection capabilities item scope nested result =
     (case sel_kind item of
        Permission \<Rightarrow>
          (case permission_definitions (sel_key item) of
             None \<Rightarrow> Inl (''Unknown permission: '' @ sel_key item)
           | Some d \<Rightarrow>
               if \<not> access_permission_supported (sel_key item) scope capabilities
               then (if nested then Inr result
                     else Inl (''Permission '' @ sel_key item @ '' is unsupported for '' @ scope_name scope))
               else
                 let result = add_all (implication_closure (sel_key item)) result in
                 if pd_family d = FShared
                 then Inr (add_all (if scope = SRelay then relay_scope_child_visibility (pd_block d) else [])
                        (set_add (scope_read scope) result))
                 else Inr result)
      | Collection \<Rightarrow>
          (case collections (sel_key item) of
             None \<Rightarrow> Inl (''Unknown permission collection: '' @ sel_key item)
           | Some g \<Rightarrow>
               if scope \<notin> set (pc_scopes g)
               then (if nested then Inr result
                     else Inl (''Collection '' @ sel_key item @ '' is unsupported for '' @ scope_name scope))
               else expand_selections capabilities (pc_selections g)
                      (case pc_child_scope g of None \<Rightarrow> scope | Some child \<Rightarrow> child) True result))"
| "expand_selections capabilities [] scope nested result = Inr result"
| "expand_selections capabilities (item # items) scope nested result =
     (case expand_selection capabilities item scope nested result of
        Inl e \<Rightarrow> Inl e
      | Inr result' \<Rightarrow> expand_selections capabilities items scope nested result')"
  by pat_completeness auto

termination
proof (relation "inv_image (less_than <*lex*> less_than)
    (\<lambda>x. case x of Inl (caps, item, scope, nested, result) \<Rightarrow> (selection_rank item, 0)
         | Inr (caps, items, scope, nested, result) \<Rightarrow>
             (foldr (\<lambda>x m. max (selection_rank x) m) items 0, Suc (length items)))", goal_cases)
  case (2 capabilities item scope nested result g)
  have item: "item = select_collection (sel_key item)"
    using 2(1) by (cases item) (simp add: select_collection_def)
  have less: "selection_rank x < selection_rank item" if "x \<in> set (pc_selections g)" for x
    using collection_members_rank [OF 2(2) that] item by simp
  have pos: "0 < selection_rank item" using 2(1) by (simp add: selection_rank_def)
  from max_rank_less [OF less pos] show ?case by simp
qed auto

definition expand_permission_selections ::
  "permission_selection list \<Rightarrow> permission_scope \<Rightarrow> string list option \<Rightarrow> string + string list" where
  "expand_permission_selections selections scope capabilities =
     (if \<not> permission_selections_schema selections then Inl ''Invalid selections''
      else case expand_selections capabilities selections scope False [] of
        Inl e \<Rightarrow> Inl e
      | Inr result \<Rightarrow>
          let result = (if scope = SRelay \<and> result \<noteq> [] then set_add ''relay.read'' result else result)
          in Inr (filter (\<lambda>k. k \<in> set result) access_permissions))"

section \<open>Built-in presets\<close>

record permission_preset =
  pr_key :: string
  pr_scopes :: "permission_scope list"
  pr_selections :: "permission_selection list"

definition ends_all :: "string \<Rightarrow> bool" where
  "ends_all key \<longleftrightarrow> drop (length key - 4) key = ''.all''"

definition preset_selection :: "string \<Rightarrow> permission_selection" where
  "preset_selection key = (if ends_all key then select_collection key else select_permission key)"

definition observer_preset :: permission_preset where
  "observer_preset = \<lparr>pr_key = ''kiln.observer'', pr_scopes = access_grant_scope_types,
     pr_selections = map preset_selection
       [''overview.all'', ''instance.console.read'', ''instance.configuration.read'', ''database.logs.read'',
        ''app.logs.read'', ''instance.network.read'', ''database.network.read'', ''backup.read'', ''schedule.read'']\<rparr>"

definition operator_preset :: permission_preset where
  "operator_preset = \<lparr>pr_key = ''kiln.operator'', pr_scopes = access_grant_scope_types,
     pr_selections = map preset_selection
       [''overview.all'', ''instance.power.restart'', ''instance.console.all'', ''instance.files.all'',
        ''instance.logs.all'', ''instance.network.write'', ''database.power'', ''database.network.write'',
        ''database.logs.read'', ''app.logs.read'', ''backup.all'', ''schedule.all'']\<rparr>"

definition administrator_preset :: permission_preset where
  "administrator_preset = \<lparr>pr_key = ''kiln.administrator'', pr_scopes = access_grant_scope_types,
     pr_selections = [select_collection ''all'']\<rparr>"

definition builtin_permission_presets :: "permission_preset list" where
  "builtin_permission_presets = [observer_preset, operator_preset, administrator_preset]"

definition preset_selection_supported :: "permission_scope \<Rightarrow> permission_selection \<Rightarrow> bool" where
  "preset_selection_supported scope s =
     (case sel_kind s of
        Permission \<Rightarrow> access_permission_supported (sel_key s) scope None
      | Collection \<Rightarrow> (case collections (sel_key s) of None \<Rightarrow> False | Some g \<Rightarrow> scope \<in> set (pc_scopes g)))"

definition builtin_preset_selections :: "string \<Rightarrow> permission_scope \<Rightarrow> string + permission_selection list" where
  "builtin_preset_selections key scope =
     (case find (\<lambda>p. pr_key p = key) builtin_permission_presets of
        None \<Rightarrow> Inl (''Unknown built-in preset: '' @ key)
      | Some p \<Rightarrow> Inr (filter (preset_selection_supported scope) (pr_selections p)))"

section \<open>The authority a Relay client's policy needs\<close>

datatype client_role = CustomRole | FullAccess | ReadOnly

definition relay_read_only_machine_actions :: "string list" where
  "relay_read_only_machine_actions =
  [''relay.read'', ''relay.audit.read'', ''relay.pairing.list'',
   ''relay.clients.list'', ''brick.read'', ''database.read'',
   ''database.dump.export'', ''backup.read'', ''backup.download'',
   ''schedule.read'', ''instance.read'', ''instance.console.read'',
   ''database.logs.read'', ''app.read'', ''app.logs.read'',
   ''instance.sftp.connect'', ''instance.files.list'', ''instance.files.read'',
   ''instance.files.download'', ''instance.network.read'', ''instance.logs.read'']"

text \<open>What the switch answers for an action: everything, or permissions.\<close>

datatype action_need = NeedAll | NeedPermissions "string + string list"

definition action_permissions :: "string \<Rightarrow> action_need" where
  "action_permissions action =
     (if action = ''relay.pairing.create'' \<or> action = ''relay.clients.update'' then NeedAll
      else if action = ''relay.pairing.list'' \<or> action = ''relay.clients.list''
      then NeedPermissions (Inr [''relay.connections.read''])
      else if action = ''relay.pairing.revoke'' \<or> action = ''relay.clients.revoke''
      then NeedPermissions (Inr [''relay.connections.manage''])
      else if action = ''relay.rename'' then NeedPermissions (Inr [''relay.configure''])
      else if action = ''relay.read'' then NeedPermissions (Inr [''relay.read'', ''instance.configuration.read''])
      else if action = ''brick.read'' then NeedPermissions (Inr [''instance.create''])
      else if action = ''instance.create''
      then NeedPermissions
        (case expand_permission_selections [select_collection ''instance.all''] SRelay None of
           Inl e \<Rightarrow> Inl e | Inr ps \<Rightarrow> Inr (ps @ [''instance.create'']))
      else if action = ''instance.rename'' then NeedPermissions (Inr [''instance.configuration.write''])
      else if action = ''instance.files.list'' \<or> action = ''instance.files.download''
      then NeedPermissions (Inr [''instance.files.read''])
      else if action = ''relay.files.download'' then NeedPermissions (Inr [''relay.files.read''])
      else if action = ''relay.files.upload'' then NeedPermissions (Inr [''relay.files.write''])
      else if action = ''app.files.download'' then NeedPermissions (Inr [''app.files.read''])
      else if action = ''app.files.upload'' then NeedPermissions (Inr [''app.files.write''])
      else if action \<in> {''instance.files.create'', ''instance.files.rename'', ''instance.files.upload'',
                         ''instance.files.upload-url''}
      then NeedPermissions (Inr [''instance.files.write''])
      else if action = ''schedule.write''
      then NeedPermissions (Inr [''schedule.create'', ''schedule.update'', ''schedule.execute'', ''schedule.delete''])
      else NeedPermissions (Inr [action]))"

fun require_permissions :: "string list \<Rightarrow> string list \<Rightarrow> string + string list" where
  "require_permissions [] required = Inr required"
| "require_permissions (p # ps) required =
     (if \<not> access_permission_supported p SRelay None then Inl (''Unknown machine permission: '' @ p)
      else case expand_permission_selections [select_permission p] SRelay None of
        Inl e \<Rightarrow> Inl e
      | Inr implied \<Rightarrow> require_permissions ps (add_all implied required))"

fun require_actions :: "string list \<Rightarrow> string list \<Rightarrow> string + string list" where
  "require_actions [] required = Inr required"
| "require_actions (a # as) required =
     (case action_permissions a of
        NeedAll \<Rightarrow> require_actions as (add_all access_permissions required)
      | NeedPermissions (Inl e) \<Rightarrow> Inl e
      | NeedPermissions (Inr ps) \<Rightarrow>
          (case require_permissions ps required of
             Inl e \<Rightarrow> Inl e
           | Inr required' \<Rightarrow> require_actions as required'))"

definition permissions_for_relay_client_policy :: "client_role \<Rightarrow> string list \<Rightarrow> string + string list" where
  "permissions_for_relay_client_policy role actions =
     (case role of
        FullAccess \<Rightarrow> Inr (add_all access_permissions [])
      | ReadOnly \<Rightarrow> require_actions relay_read_only_machine_actions []
      | CustomRole \<Rightarrow> require_actions actions [])"

end
