(* ===== verification/Permission_Validity.thy ===== *)
theory Permission_Validity
  imports Permissions
begin

text \<open>
  The check of the catalog as it loads: what its depth-first search accepts.
\<close>

section \<open>The search\<close>

definition catalog_edges :: "catalog_nodes \<Rightarrow> (string \<times> string) set" where
  "catalog_edges nodes = {(k, c). \<exists>cs. map_of nodes k = Some cs \<and> c \<in> set cs}"

text \<open>A key from which the references end: each is known, and no path is endless.\<close>

inductive sound_node :: "catalog_nodes \<Rightarrow> string \<Rightarrow> bool" for nodes where
  sound: "map_of nodes k = Some cs \<Longrightarrow> (\<And>c. c \<in> set cs \<Longrightarrow> sound_node nodes c) \<Longrightarrow> sound_node nodes k"

inductive_cases sound_nodeE: "sound_node nodes k"

lemma sound_no_cycle: "sound_node nodes k \<Longrightarrow> (k, k) \<notin> (catalog_edges nodes)\<^sup>+"
proof (induction rule: sound_node.induct)
  case (sound k cs)
  show ?case
  proof
    assume "(k, k) \<in> (catalog_edges nodes)\<^sup>+"
    then obtain c where c: "(k, c) \<in> catalog_edges nodes" "(c, k) \<in> (catalog_edges nodes)\<^sup>*"
      by (meson tranclD)
    with sound(1) have "c \<in> set cs" by (auto simp: catalog_edges_def)
    moreover have "(c, c) \<in> (catalog_edges nodes)\<^sup>+" using c by (rule rtrancl_into_trancl1 [rotated])
    ultimately show False using sound(3) by blast
  qed
qed

lemma map_of_Some_key: "map_of xs k = Some v \<Longrightarrow> k \<in> fst ` set xs"
  by (metis map_of_eq_None_iff option.distinct(1))

lemma sound_children:
  "map_of nodes k = Some cs \<Longrightarrow> \<forall>c\<in>set cs. sound_node nodes c \<Longrightarrow> sound_node nodes k"
  by (rule sound_node.intros) auto

lemma visit_sound:
  "visit_node nodes visiting key complete = Inr complete' \<Longrightarrow> (\<And>x. x \<in> set complete \<Longrightarrow> sound_node nodes x) \<Longrightarrow>
     sound_node nodes key \<and> (\<forall>x\<in>set complete'. sound_node nodes x)"
  "visit_nodes nodes visiting children complete = Inr complete' \<Longrightarrow> (\<And>x. x \<in> set complete \<Longrightarrow> sound_node nodes x) \<Longrightarrow>
     (\<forall>c\<in>set children. sound_node nodes c) \<and> (\<forall>x\<in>set complete'. sound_node nodes x)"
proof (induction nodes visiting key complete and nodes visiting children complete
    arbitrary: complete' and complete' rule: visit_node_visit_nodes.induct)
  case (1 nodes visiting key complete)
  show ?case
  proof (cases "key \<in> set complete")
    case True
    with 1 show ?thesis by (auto simp: visit_node.simps)
  next
    case False
    with 1(2) obtain cs c1 where cs: "key \<notin> set visiting" "map_of nodes key = Some cs"
      "visit_nodes nodes (key # visiting) cs complete = Inr c1" "complete' = key # c1"
      by (auto simp: visit_node.simps split: if_splits option.splits sum.splits)
    have "(\<forall>c\<in>set cs. sound_node nodes c) \<and> (\<forall>x\<in>set c1. sound_node nodes x)"
      using 1(1) [OF False cs(1,2,3)] 1(3) by blast
    with cs(2,4) sound_children show ?thesis by auto
  qed
qed (fastforce split: sum.splits)+

declare visit_node.simps [simp del]

lemma visit_complete:
  "sound_node nodes key \<Longrightarrow> (\<And>v. v \<in> set visiting \<Longrightarrow> (key, v) \<notin> (catalog_edges nodes)\<^sup>*) \<Longrightarrow>
   \<exists>complete'. visit_node nodes visiting key complete = Inr complete'"
proof (induction arbitrary: visiting complete rule: sound_node.induct)
  case (sound k cs)
  have k: "sound_node nodes k" using sound(1,2) by (rule sound_node.intros)
  have "\<exists>complete'. visit_nodes nodes (k # visiting) ds complete = Inr complete'" if "set ds \<subseteq> set cs" for ds complete
    using that
  proof (induction ds arbitrary: complete)
    case (Cons d ds)
    have kd: "(k, d) \<in> catalog_edges nodes" using sound(1) Cons.prems by (auto simp: catalog_edges_def)
    have "(d, v) \<notin> (catalog_edges nodes)\<^sup>*" if "v \<in> set (k # visiting)" for v
    proof
      assume dv: "(d, v) \<in> (catalog_edges nodes)\<^sup>*"
      then have "(k, v) \<in> (catalog_edges nodes)\<^sup>+" using kd by (rule rtrancl_into_trancl2 [rotated])
      with that sound_no_cycle [OF k] sound.prems show False by (auto dest: trancl_into_rtrancl)
    qed
    then obtain complete1 where "visit_node nodes (k # visiting) d complete = Inr complete1"
      using sound.IH [of d] Cons.prems by fastforce
    with Cons.IH [of complete1] Cons.prems show ?case by simp
  qed simp
  then obtain complete1 where "visit_nodes nodes (k # visiting) cs complete = Inr complete1" by blast
  moreover have "k \<notin> set visiting" using sound.prems by blast
  ultimately show ?case using sound(1) by (simp add: visit_node.simps)
qed

lemma visit_all_iff:
  "(\<exists>complete. visit_nodes nodes [] keys [] = Inr complete) \<longleftrightarrow> (\<forall>k\<in>set keys. sound_node nodes k)"
proof
  assume "\<exists>complete. visit_nodes nodes [] keys [] = Inr complete"
  then show "\<forall>k\<in>set keys. sound_node nodes k" using visit_sound(2) [of nodes "[]" keys "[]"] by auto
next
  have "\<exists>complete'. visit_nodes nodes [] keys complete = Inr complete'"
    if "\<forall>k\<in>set keys. sound_node nodes k" for complete
    using that
  proof (induction keys arbitrary: complete)
    case (Cons k keys)
    have "sound_node nodes k" using Cons.prems by simp
    then obtain complete1 where "visit_node nodes [] k complete = Inr complete1"
      using visit_complete [of nodes k "[]"] by fastforce
    with Cons show ?case by simp
  qed simp
  then show "\<forall>k\<in>set keys. sound_node nodes k \<Longrightarrow> \<exists>complete. visit_nodes nodes [] keys [] = Inr complete" by blast
qed

text \<open>Soundness everywhere is what it says: no unknown reference and no cycle.\<close>

lemma all_sound_iff:
  "(\<forall>k\<in>fst ` set nodes. sound_node nodes k) \<longleftrightarrow>
     (\<forall>(k, c)\<in>catalog_edges nodes. c \<in> fst ` set nodes) \<and> acyclic (catalog_edges nodes)"
proof
  assume s: "\<forall>k\<in>fst ` set nodes. sound_node nodes k"
  have known: "sound_node nodes k \<Longrightarrow> k \<in> fst ` set nodes" for k
    by (erule sound_nodeE) (rule map_of_Some_key)
  have "c \<in> fst ` set nodes" if "(k, c) \<in> catalog_edges nodes" for k c
  proof -
    from that obtain cs where cs: "map_of nodes k = Some cs" "c \<in> set cs" by (auto simp: catalog_edges_def)
    then have "k \<in> fst ` set nodes" by (simp add: map_of_Some_key)
    with s have "sound_node nodes k" by blast
    with cs have "sound_node nodes c" by (auto elim: sound_nodeE)
    then show ?thesis by (rule known)
  qed
  moreover have "acyclic (catalog_edges nodes)"
  proof (rule acyclicI, rule allI, rule notI)
    fix k assume kk: "(k, k) \<in> (catalog_edges nodes)\<^sup>+"
    then obtain c where "(k, c) \<in> catalog_edges nodes" by (meson tranclD)
    then have "k \<in> fst ` set nodes" by (auto simp: catalog_edges_def map_of_Some_key)
    with s sound_no_cycle kk show False by blast
  qed
  ultimately show "(\<forall>(k, c)\<in>catalog_edges nodes. c \<in> fst ` set nodes) \<and> acyclic (catalog_edges nodes)" by blast
next
  assume a: "(\<forall>(k, c)\<in>catalog_edges nodes. c \<in> fst ` set nodes) \<and> acyclic (catalog_edges nodes)"
  have "catalog_edges nodes \<subseteq> (\<Union>(k, cs)\<in>set nodes. {k} \<times> set cs)"
    by (fastforce simp: catalog_edges_def dest: map_of_SomeD)
  moreover have "finite (\<Union>(k, cs)\<in>set nodes. {k} \<times> set cs)" by auto
  ultimately have "finite (catalog_edges nodes)" by (rule finite_subset)
  with a have wf: "wf ((catalog_edges nodes)\<inverse>)" by (intro finite_acyclic_wf_converse) auto
  show "\<forall>k\<in>fst ` set nodes. sound_node nodes k"
  proof
    fix k assume "k \<in> fst ` set nodes"
    with wf show "sound_node nodes k"
    proof (induction k rule: wf_induct_rule)
      case (less k)
      then obtain cs where cs: "map_of nodes k = Some cs" by (meson map_of_eq_None_iff option.exhaust)
      have "sound_node nodes c" if "c \<in> set cs" for c
        using less.IH [of c] a that cs by (force simp: catalog_edges_def)
      with cs show ?case by (rule sound_node.intros)
    qed
  qed
qed

end
