(* ===== verification/Permission_Claims.thy ===== *)
theory Permission_Claims
  imports Permission_Grants Permission_Validity
begin

text \<open>
  What the permissions guarantee: the catalog loads, a selection grants what its items grant
  and nothing outside its scope, a collection of everything grants everything, and a Relay
  client's policy needs the authority of each of its actions.
\<close>

section \<open>The catalog as a graph\<close>

definition catalog_graph :: "permission_definition list \<Rightarrow> permission_collection list \<Rightarrow> catalog_nodes" where
  "catalog_graph catalog groups =
     map (\<lambda>d. (permission_node (pd_key d), map permission_node (pd_implies d))) catalog @
     map (\<lambda>c. (collection_node (pc_key c), map selection_node (pc_selections c))) groups"

lemma node_inject [simp]:
  "permission_node a = permission_node b \<longleftrightarrow> a = b" "collection_node a = collection_node b \<longleftrightarrow> a = b"
  "permission_node a \<noteq> collection_node b" "collection_node b \<noteq> permission_node a"
  by (simp_all add: permission_node_def collection_node_def)

lemma add_permission_nodes_Inr:
  "add_permission_nodes ds nodes = Inr ns \<longleftrightarrow>
     distinct (map pd_key ds) \<and> (\<forall>d\<in>set ds. permission_node (pd_key d) \<notin> fst ` set nodes) \<and>
     ns = nodes @ catalog_graph ds []"
proof (induction ds arbitrary: nodes)
  case (Cons d ds)
  then show ?case
    by (auto simp: Let_def catalog_graph_def map_of_eq_None_iff image_iff split: if_splits)
qed (auto simp: catalog_graph_def)

lemma add_collection_nodes_Inr:
  "add_collection_nodes cs nodes = Inr ns \<longleftrightarrow>
     distinct (map pc_key cs) \<and> (\<forall>c\<in>set cs. collection_node (pc_key c) \<notin> fst ` set nodes) \<and>
     ns = nodes @ catalog_graph [] cs"
proof (induction cs arbitrary: nodes)
  case (Cons c cs)
  then show ?case
    by (auto simp: Let_def catalog_graph_def map_of_eq_None_iff image_iff split: if_splits)
qed (auto simp: catalog_graph_def)

lemma catalog_graph_append: "catalog_graph ds [] @ catalog_graph [] cs = catalog_graph ds cs"
  by (simp add: catalog_graph_def)

lemma graph_permission_keys: "collection_node k \<notin> fst ` set (catalog_graph ds [])"
  by (auto simp: catalog_graph_def)

lemma validate_catalog_iff:
  "validate_permission_catalog catalog groups = Inr () \<longleftrightarrow>
     distinct (map pd_key catalog) \<and> distinct (map pc_key groups) \<and>
     (let nodes = catalog_graph catalog groups in
        (\<forall>(k, c)\<in>catalog_edges nodes. c \<in> fst ` set nodes) \<and> acyclic (catalog_edges nodes))"
proof (cases "distinct (map pd_key catalog) \<and> distinct (map pc_key groups)")
  case False
  then show ?thesis
    by (auto simp: validate_permission_catalog_def add_permission_nodes_Inr add_collection_nodes_Inr split: sum.splits)
next
  case True
  let ?nodes = "catalog_graph catalog groups"
  from True have 1: "add_permission_nodes catalog [] = Inr (catalog_graph catalog [])"
    by (simp add: add_permission_nodes_Inr)
  from True have 2: "add_collection_nodes groups (catalog_graph catalog []) = Inr ?nodes"
    by (simp add: add_collection_nodes_Inr graph_permission_keys catalog_graph_append)
  have "validate_permission_catalog catalog groups = Inr () \<longleftrightarrow>
      (\<exists>complete. visit_nodes ?nodes [] (map fst ?nodes) [] = Inr complete)"
    by (simp add: validate_permission_catalog_def 1 2 split: sum.split)
  also have "\<dots> \<longleftrightarrow> (\<forall>k\<in>fst ` set ?nodes. sound_node ?nodes k)"
    by (simp add: visit_all_iff)
  also have "\<dots> \<longleftrightarrow> (\<forall>(k, c)\<in>catalog_edges ?nodes. c \<in> fst ` set ?nodes) \<and> acyclic (catalog_edges ?nodes)"
    by (rule all_sound_iff)
  finally show ?thesis using True by (simp add: Let_def)
qed

text \<open>The check that runs as the catalog loads accepts exactly the catalogs whose keys are
  unique, whose references are all known and whose references form no cycle; it ends on any
  catalog.\<close>

lemma validate_permission_catalog_iff:
  "validate_permission_catalog catalog groups = Inr () \<longleftrightarrow>
     distinct (map pd_key catalog) \<and> distinct (map pc_key groups) \<and>
     (let nodes = catalog_graph catalog groups in
        Range (catalog_edges nodes) \<subseteq> fst ` set nodes \<and> acyclic (catalog_edges nodes))"
proof -
  have "(\<forall>(k, c)\<in>catalog_edges nodes. c \<in> fst ` set nodes) \<longleftrightarrow> Range (catalog_edges nodes) \<subseteq> fst ` set nodes"
    for nodes by auto
  then show ?thesis by (simp add: validate_catalog_iff Let_def)
qed

section \<open>The catalog of the code\<close>

definition node_rank :: "string \<Rightarrow> nat" where
  "node_rank s =
     (if take 11 s = ''permission:'' then implication_rank (drop 11 s)
      else 10 + selection_rank (select_collection (drop 11 s)))"

lemma node_rank_simps:
  "node_rank (permission_node k) = implication_rank k"
  "node_rank (collection_node k) = 10 + selection_rank (select_collection k)"
  by (simp_all add: node_rank_def permission_node_def collection_node_def)

lemma implication_rank_bound: "implication_rank k < 10"
  by (simp add: implication_rank_def)

lemma catalog_keys: "map pd_key permission_catalog = access_permissions"
  by (simp add: permission_catalog_rows access_permissions_rows comp_def case_prod_unfold catalog_entry_def)

lemma catalog_definition: "d \<in> set permission_catalog \<Longrightarrow> permission_definitions (pd_key d) = Some d"
  unfolding permission_definitions_def
  by (rule map_of_is_SomeI) (auto simp: comp_def catalog_keys distinct_access_permissions)

lemma block_permissions:
  "b \<in> set permission_blocks \<Longrightarrow> p \<in> set (pb_permissions b) \<Longrightarrow>
   \<exists>d\<in>set permission_catalog. pd_key d = p \<and> pd_block d = pb_key b \<and> \<not> pd_compatibility_only d"
  by (auto simp: permission_blocks_def)

lemma distinct_collection_keys: "distinct (map pc_key permission_collections)"
proof -
  have "map pb_key permission_blocks = dedup (map pd_block permission_catalog)"
    by (simp add: permission_blocks_def comp_def)
  then have "distinct (map pb_key permission_blocks)" by simp
  then have "distinct (map ((\<lambda>k. k @ ''.all'') \<circ> pb_key) permission_blocks)"
    unfolding map_map [symmetric] by (subst distinct_map) (auto intro: inj_onI)
  moreover have "pc_key (block_collection b) = pb_key b @ ''.all''" for b by (simp add: block_collection_def)
  ultimately have blocks: "distinct (map (pc_key \<circ> block_collection) permission_blocks)"
    by (simp add: comp_def)
  have other: "pc_key (block_collection b) \<noteq> scope_name sc @ ''.all''" "pc_key (block_collection b) \<noteq> ''all''"
    if "b \<in> set permission_blocks" for b sc
    using block_keyD [OF that]
    by (cases sc; auto simp: block_collection_def block_key_ok_def permission_scope_types_def append_eq_Cons_conv)+
  let ?scope_keys = "map (\<lambda>sc. scope_name sc @ ''.all'') permission_scope_types"
  have scopes: "map (pc_key \<circ> scope_collection) permission_scope_types = ?scope_keys"
    by (simp add: scope_collection_def)
  have "set (map (pc_key \<circ> block_collection) permission_blocks) \<inter> set (?scope_keys @ [''all'']) = {}"
  proof (rule equals0I)
    fix k assume "k \<in> set (map (pc_key \<circ> block_collection) permission_blocks) \<inter> set (?scope_keys @ [''all''])"
    then obtain b where "b \<in> set permission_blocks" "k = pc_key (block_collection b)"
      "k = ''all'' \<or> (\<exists>sc. k = scope_name sc @ ''.all'')"
      by (auto simp del: append_Cons)
    with other show False by metis
  qed
  moreover have "distinct (?scope_keys @ [''all''])" by (simp add: permission_scope_types_def)
  moreover have "map pc_key permission_collections =
      map (pc_key \<circ> block_collection) permission_blocks @ ?scope_keys @ [''all'']"
    unfolding permission_collections_def map_append map_map scopes by (simp add: all_collection_def)
  ultimately show ?thesis using blocks by (simp only: distinct_append)
qed

lemma collections_iff: "collections key = Some g \<longleftrightarrow> g \<in> set permission_collections \<and> pc_key g = key"
proof
  assume "g \<in> set permission_collections \<and> pc_key g = key"
  then show "collections key = Some g"
    unfolding collections_def
    by (intro map_of_is_SomeI) (auto simp: comp_def distinct_collection_keys)
qed (auto dest: collections_Some)

lemma collection_member:
  assumes "g \<in> set permission_collections" and "s \<in> set (pc_selections g)"
  shows "(\<exists>d\<in>set permission_catalog. s = select_permission (pd_key d)) \<or>
    (\<exists>b\<in>set permission_blocks. s = select_collection (pb_key b @ ''.all''))"
  using assms block_permissions
  by (fastforce simp: permission_collections_def block_collection_def scope_collection_def all_collection_def)

lemma collection_node_known: "b \<in> set permission_blocks \<Longrightarrow>
    collection_node (pb_key b @ ''.all'') \<in> fst ` set (catalog_graph permission_catalog permission_collections)"
  by (force simp: catalog_graph_def permission_collections_def block_collection_def)

lemma catalog_edge_cases:
  assumes "(k, c) \<in> catalog_edges (catalog_graph permission_catalog permission_collections)"
  obtains d q where "d \<in> set permission_catalog" "q \<in> set (pd_implies d)" "k = permission_node (pd_key d)" "c = permission_node q"
    | g s where "g \<in> set permission_collections" "s \<in> set (pc_selections g)" "k = collection_node (pc_key g)" "c = selection_node s"
  using assms
  by (auto simp: catalog_edges_def catalog_graph_def dest!: map_of_SomeD)


end
