(* ===== verification/Permission_Expansion.thy ===== *)
theory Permission_Expansion
  imports Permission_Claims
begin

text \<open>
  What an expansion grants. Each item adds a set of permissions that doesn't depend on what
  was granted before, so a list grants the union; what every item keeps, a list keeps.
\<close>

section \<open>Closures\<close>

definition implies_rel :: "(string \<times> string) set" where
  "implies_rel = {(p, q). \<exists>d. permission_definitions p = Some d \<and> q \<in> set (pd_implies d)}"

lemma implication_closure_rtrancl: "set (implication_closure p) = {q. (p, q) \<in> implies_rel\<^sup>*}"
proof (induction p rule: implication_closure.induct)
  case (1 p)
  show ?case
  proof (cases "permission_definitions p")
    case None
    then have "(p, q) \<notin> implies_rel" for q by (simp add: implies_rel_def)
    with None show ?thesis by (auto simp: implication_closure.simps [of p] elim: converse_rtranclE)
  next
    case (Some d)
    have step: "(p, q) \<in> implies_rel \<longleftrightarrow> q \<in> set (pd_implies d)" for q
      using Some by (simp add: implies_rel_def)
    have "set (implication_closure p) = insert p (\<Union>q\<in>set (pd_implies d). set (implication_closure q))"
      using Some by (simp add: implication_closure.simps [of p])
    also have "\<dots> = insert p (\<Union>q\<in>set (pd_implies d). {q'. (q, q') \<in> implies_rel\<^sup>*})"
      using 1 [OF Some] by simp
    also have "\<dots> = {q. (p, q) \<in> implies_rel\<^sup>*}"
      using step by (auto elim: converse_rtranclE intro: converse_rtrancl_into_rtrancl)
    finally show ?thesis .
  qed
qed

lemma closure_self [simp]: "p \<in> set (implication_closure p)"
  by (simp add: implication_closure_rtrancl)

lemma closure_trans: "q \<in> set (implication_closure p) \<Longrightarrow> set (implication_closure q) \<subseteq> set (implication_closure p)"
  by (auto simp: implication_closure_rtrancl)

lemma closure_definition:
  assumes "permission_definitions p = Some d" and "q \<in> set (implication_closure p)"
  shows "\<exists>d'. permission_definitions q = Some d' \<and> pd_family d' = pd_family d \<and>
    set (pd_capabilities d') \<subseteq> set (pd_capabilities d)"
proof -
  from assms(2) have "(p, q) \<in> implies_rel\<^sup>*" by (simp add: implication_closure_rtrancl)
  then show ?thesis
  proof (induction rule: rtrancl_induct)
    case (step q q')
    then obtain d1 where d1: "permission_definitions q = Some d1" "pd_family d1 = pd_family d"
      "set (pd_capabilities d1) \<subseteq> set (pd_capabilities d)" by blast
    with step(2) have "q' \<in> set (pd_implies d1)" by (simp add: implies_rel_def)
    with d1 show ?case by (auto elim!: implies_ok [OF d1(1)])
  qed (use assms(1) in auto)
qed

lemma closure_not_compatibility:
  "q \<in> set (implication_closure p) \<Longrightarrow> q = p \<or> q \<notin> set compatibility_only_permissions"
proof -
  assume "q \<in> set (implication_closure p)"
  then have "(p, q) \<in> implies_rel\<^sup>*" by (simp add: implication_closure_rtrancl)
  then show "q = p \<or> q \<notin> set compatibility_only_permissions"
  proof (cases rule: rtranclE)
    case (step y)
    then obtain d where "permission_definitions y = Some d" "q \<in> set (pd_implies d)"
      by (auto simp: implies_rel_def)
    then show ?thesis using implies_not_compatibility by blast
  qed simp
qed

lemma closure_supported:
  assumes "access_permission_supported p scope caps" and "q \<in> set (implication_closure p)"
  shows "access_permission_supported q scope caps"
proof -
  from assms(1) obtain d where d: "permission_definitions p = Some d" by (auto simp: access_permission_supported_def split: option.splits)
  obtain d' where d': "permission_definitions q = Some d'" "pd_family d' = pd_family d"
    "set (pd_capabilities d') \<subseteq> set (pd_capabilities d)"
    using closure_definition [OF d assms(2)] by blast
  have "pd_scopes e = family_scopes (pd_family e)" if "permission_definitions k = Some e" for k e
    using that by (auto simp: permission_definitions_rows)
  with d d' assms(1) show ?thesis
    by (auto simp: access_permission_supported_def list_all_iff split: option.splits)
qed

section \<open>Visibility\<close>

lemma scope_read_definition:
  "permission_definitions (scope_read scope) = Some (catalog_entry (scope_read scope) (''overview'', scope_family scope))"
  by (cases scope) (simp_all add: scope_read_def visibility_defined)

lemma scope_read_implies: "pd_implies (catalog_entry (scope_read scope) (''overview'', scope_family scope)) = []"
  by (cases scope) (simp_all add: scope_read_def catalog_entry_def implication_edges_def)

lemma scope_read_closure [simp]: "set (implication_closure (scope_read scope)) = {scope_read scope}"
  by (subst implication_closure.simps) (simp add: scope_read_definition scope_read_implies)

lemma family_scopes_relay: "SRelay \<in> set (family_scopes f)"
  by (cases f) (simp_all add: access_grant_scope_types_def)

lemma supported_relay: "access_permission_supported p scope caps \<Longrightarrow> access_permission_supported p SRelay caps"
  by (auto simp: access_permission_supported_def permission_definitions_rows family_scopes_relay split: option.splits)

lemma scope_read_supported: "scope = target \<or> target = SRelay \<Longrightarrow> access_permission_supported (scope_read scope) target caps"
proof -
  have caps: "pd_capabilities (catalog_entry k (''overview'', f)) = []" for k f by (simp add: catalog_entry_def)
  have "scope \<in> set (family_scopes (scope_family scope))" by (cases scope) simp_all
  then show "scope = target \<or> target = SRelay \<Longrightarrow> access_permission_supported (scope_read scope) target caps"
    using family_scopes_relay by (auto simp: access_permission_supported_def scope_read_definition caps split: option.splits)
qed

lemma scope_read_not_compatibility: "scope_read scope \<notin> set compatibility_only_permissions"
  by (cases scope) (simp_all add: scope_read_def compatibility_only_permissions_def)

lemma child_visibility_reads:
  "v \<in> set (relay_scope_child_visibility b) \<Longrightarrow> v = scope_read SInstance \<or> v = scope_read SDatabase"
  by (auto simp: relay_scope_child_visibility_def scope_read_def split: if_splits)

section \<open>What an item adds\<close>

lemma set_add_all [simp]: "set (add_all xs r) = set r \<union> set xs"
  by (simp add: add_all_def set_foldl_set_add)

definition permission_adds :: "string \<Rightarrow> permission_scope \<Rightarrow> string set" where
  "permission_adds key scope =
     set (implication_closure key) \<union>
     (case permission_definitions key of
        None \<Rightarrow> {}
      | Some d \<Rightarrow> if pd_family d = FShared
          then insert (scope_read scope) (if scope = SRelay then set (relay_scope_child_visibility (pd_block d)) else {})
          else {})"

declare expand_selection.simps [simp del]

lemma expand_permission_refused:
  assumes "\<not> access_permission_supported key scope caps"
  shows "expand_selection caps (select_permission key) scope nested r =
    (if permission_definitions key = None then Inl (''Unknown permission: '' @ key)
     else if nested then Inr r else Inl (''Permission '' @ key @ '' is unsupported for '' @ scope_name scope))"
  using assms by (simp add: expand_selection.simps select_permission_def split: option.split)

lemma expand_permission_supported:
  assumes "access_permission_supported key scope caps"
  shows "\<exists>y. expand_selection caps (select_permission key) scope nested r = Inr y \<and>
    set y = set r \<union> permission_adds key scope"
proof -
  from assms obtain d where d: "permission_definitions key = Some d"
    by (auto simp: access_permission_supported_def split: option.splits)
  show ?thesis
    using assms
    by (cases "pd_family d = FShared")
      (auto simp: expand_selection.simps select_permission_def permission_adds_def Let_def d)
qed

lemma expand_collection:
  "expand_selection caps (select_collection key) scope nested r =
     (case collections key of
        None \<Rightarrow> Inl (''Unknown permission collection: '' @ key)
      | Some g \<Rightarrow>
          if scope \<in> set (pc_scopes g)
          then expand_selections caps (pc_selections g) (case pc_child_scope g of None \<Rightarrow> scope | Some c \<Rightarrow> c) True r
          else if nested then Inr r else Inl (''Collection '' @ key @ '' is unsupported for '' @ scope_name scope))"
  by (simp add: expand_selection.simps select_collection_def split: option.split)

lemma selection_cases:
  obtains key where "s = select_permission key" | key where "s = select_collection key"
  by (cases s) (metis (full_types) select_permission_def select_collection_def selection_kind.exhaust)

text \<open>An item fails whatever was granted before, or adds the same set to it.\<close>

definition uniform :: "('a list \<Rightarrow> 'e + 'a list) \<Rightarrow> bool" where
  "uniform f \<longleftrightarrow> (\<exists>e. \<forall>r. f r = Inl e) \<or> (\<exists>X. \<forall>r. \<exists>y. f r = Inr y \<and> set y = set r \<union> X)"

lemma uniform_Inl: "(\<And>r. f r = Inl e) \<Longrightarrow> uniform f"
  by (auto simp: uniform_def)

lemma uniform_Inr: "(\<And>r. \<exists>y. f r = Inr y \<and> set y = set r \<union> X) \<Longrightarrow> uniform f"
  by (auto simp: uniform_def)

lemma uniform_bind:
  assumes f: "uniform f" and g: "\<And>y. f r0 = Inr y \<Longrightarrow> uniform g"
  shows "uniform (\<lambda>r. case f r of Inl e \<Rightarrow> Inl e | Inr y \<Rightarrow> g y)"
proof (cases "\<exists>e. \<forall>r. f r = Inl e")
  case True
  then show ?thesis by (auto intro: uniform_Inl)
next
  case False
  with f obtain X where X: "\<And>r. \<exists>y. f r = Inr y \<and> set y = set r \<union> X" by (auto simp: uniform_def)
  then have "uniform g" using g by blast
  then show ?thesis
    unfolding uniform_def
  proof (elim disjE exE)
    fix Y assume Y: "\<forall>r. \<exists>y. g r = Inr y \<and> set y = set r \<union> Y"
    have "\<exists>z. (case f r of Inl e \<Rightarrow> Inl e | Inr y \<Rightarrow> g y) = Inr z \<and> set z = set r \<union> (X \<union> Y)" for r
    proof -
      obtain y where "f r = Inr y" "set y = set r \<union> X" using X by blast
      moreover obtain z where "g y = Inr z" "set z = set y \<union> Y" using Y by blast
      ultimately show ?thesis by auto
    qed
    then show "(\<exists>e. \<forall>r. (case f r of Inl e \<Rightarrow> Inl e | Inr y \<Rightarrow> g y) = Inl e) \<or>
        (\<exists>X. \<forall>r. \<exists>z. (case f r of Inl e \<Rightarrow> Inl e | Inr y \<Rightarrow> g y) = Inr z \<and> set z = set r \<union> X)"
      by blast
  next
    fix e assume "\<forall>r. g r = Inl e"
    then show "(\<exists>e. \<forall>r. (case f r of Inl e \<Rightarrow> Inl e | Inr y \<Rightarrow> g y) = Inl e) \<or>
        (\<exists>X. \<forall>r. \<exists>z. (case f r of Inl e \<Rightarrow> Inl e | Inr y \<Rightarrow> g y) = Inr z \<and> set z = set r \<union> X)"
      using X by (intro disjI1 exI [of _ e] allI) (metis sum.simps(6))
  qed
qed

lemma expand_uniform:
  "uniform (expand_selection caps item scope nested)"
  "uniform (expand_selections caps items scope nested)"
proof (induction caps item scope nested "r0 :: string list" and caps items scope nested "r0 :: string list"
    rule: expand_selection_expand_selections.induct)
  case (1 caps item scope nested result)
  show ?case
  proof (cases item rule: selection_cases)
    case (1 key)
    then show ?thesis
    proof (cases "access_permission_supported key scope caps")
      case True
      show ?thesis
        unfolding \<open>item = select_permission key\<close> by (rule uniform_Inr, rule expand_permission_supported [OF True])
    next
      case False
      have "uniform Inr" by (rule uniform_Inr [of _ "{}"]) simp
      with False show ?thesis
        unfolding \<open>item = select_permission key\<close> expand_permission_refused [OF False]
        by (cases "permission_definitions key = None"; cases nested) (auto intro: uniform_Inl)
    qed
  next
    case (2 key)
    then have kind: "sel_kind item = Collection" "sel_key item = key" by (simp_all add: select_collection_def)
    show ?thesis
    proof (cases "collections key")
      case None
      then show ?thesis unfolding 2 by (intro uniform_Inl) (simp add: expand_collection)
    next
      case (Some g)
      have "uniform Inr" by (rule uniform_Inr [of _ "{}"]) simp
      moreover have "scope \<in> set (pc_scopes g) \<Longrightarrow>
          uniform (expand_selections caps (pc_selections g) (case pc_child_scope g of None \<Rightarrow> scope | Some c \<Rightarrow> c) True)"
        using 1 [OF kind(1)] kind(2) Some by simp
      ultimately show ?thesis
        unfolding 2 expand_collection Some
        by (cases "scope \<in> set (pc_scopes g)"; cases nested) (auto intro: uniform_Inl)
    qed
  qed
next
  case (2 caps scope nested result)
  show ?case by (rule uniform_Inr [of _ "{}"]) simp
next
  case (3 caps item items scope nested result)
  from uniform_bind [OF 3(1), of result] 3(2) show ?case by simp
qed

text \<open>What an item adds, if it doesn't fail.\<close>

definition item_adds :: "string list option \<Rightarrow> permission_scope \<Rightarrow> bool \<Rightarrow> permission_selection \<Rightarrow> string set option" where
  "item_adds caps scope nested item =
     (case expand_selection caps item scope nested [] of Inl e \<Rightarrow> None | Inr y \<Rightarrow> Some (set y))"

lemma expand_item_None:
  assumes "item_adds caps scope nested item = None"
  shows "\<exists>e. \<forall>r. expand_selection caps item scope nested r = Inl e"
proof -
  from assms have "\<nexists>y. expand_selection caps item scope nested [] = Inr y"
    by (auto simp: item_adds_def split: sum.splits)
  with expand_uniform(1) [of caps item scope nested] show ?thesis
    unfolding uniform_def by blast
qed

lemma expand_item_Some:
  assumes "item_adds caps scope nested item = Some X"
  shows "\<exists>y. expand_selection caps item scope nested r = Inr y \<and> set y = set r \<union> X"
proof -
  obtain y0 where y0: "expand_selection caps item scope nested [] = Inr y0" "set y0 = X"
    using assms by (auto simp: item_adds_def split: sum.splits)
  then have "\<not> (\<exists>e. \<forall>r. expand_selection caps item scope nested r = Inl e)"
    by (metis sum.distinct(1))
  then obtain Y where Y: "\<And>r. \<exists>y. expand_selection caps item scope nested r = Inr y \<and> set y = set r \<union> Y"
    using expand_uniform(1) [of caps item scope nested] unfolding uniform_def by blast
  from Y [of "[]"] y0 have "Y = X" by simp
  with Y show ?thesis by blast
qed

lemma expand_items_Some:
  "(\<And>item. item \<in> set items \<Longrightarrow> item_adds caps scope nested item = Some (f item)) \<Longrightarrow>
   \<exists>y. expand_selections caps items scope nested r = Inr y \<and> set y = set r \<union> (\<Union>item\<in>set items. f item)"
proof (induction items arbitrary: r)
  case (Cons item items)
  obtain y where y: "expand_selection caps item scope nested r = Inr y" "set y = set r \<union> f item"
    using expand_item_Some [of caps scope nested item "f item" r] Cons.prems by auto
  obtain z where "expand_selections caps items scope nested y = Inr z" "set z = set y \<union> (\<Union>item\<in>set items. f item)"
    using Cons.IH [of y] Cons.prems by auto
  with y show ?case by auto
qed simp

lemma expand_items_Inr:
  "expand_selections caps items scope nested r = Inr y \<Longrightarrow> item \<in> set items \<Longrightarrow> item_adds caps scope nested item \<noteq> None"
proof (induction items arbitrary: r)
  case (Cons x items)
  show ?case
  proof (cases "item = x")
    case True
    show ?thesis
    proof
      assume "item_adds caps scope nested item = None"
      from expand_item_None [OF this] Cons.prems(1) True show False by auto
    qed
  next
    case False
    with Cons.prems obtain y1 where "expand_selections caps items scope nested y1 = Inr y"
      by (auto split: sum.splits)
    with Cons.IH Cons.prems(2) False show ?thesis by simp
  qed
qed simp

lemma expand_items:
  "(\<exists>y. expand_selections caps items scope nested r = Inr y) \<longleftrightarrow>
     (\<forall>item\<in>set items. item_adds caps scope nested item \<noteq> None)"
  using expand_items_Inr expand_items_Some [of items caps scope nested "\<lambda>i. the (item_adds caps scope nested i)" r]
  by fastforce

lemma expand_items_set:
  "expand_selections caps items scope nested r = Inr y \<Longrightarrow>
   set y = set r \<union> (\<Union>item\<in>set items. the (item_adds caps scope nested item))"
  using expand_items_Inr [of caps items scope nested r y]
    expand_items_Some [of items caps scope nested "\<lambda>i. the (item_adds caps scope nested i)" r]
  by fastforce

section \<open>What every expansion keeps\<close>

lemma collection_child_scope:
  assumes "collections key = Some g" and "scope \<in> set (pc_scopes g)"
  shows "(case pc_child_scope g of None \<Rightarrow> scope | Some c \<Rightarrow> c) = scope \<or> scope = SRelay"
proof -
  have "g \<in> set permission_collections" using assms(1) by (simp add: collections_iff)
  then consider "pc_child_scope g = None" | sc where "g = scope_collection sc"
    by (auto simp: permission_collections_def block_collection_def all_collection_def)
  then show ?thesis
  proof cases
    case (2 sc)
    with assms(2) show ?thesis by (cases sc) (auto simp: scope_collection_def split: if_splits)
  qed simp
qed

text \<open>An item is fine if it is a permission that is, or a collection, whose permissions all are.\<close>

definition fine_item :: "(string \<Rightarrow> bool) \<Rightarrow> permission_selection \<Rightarrow> bool" where
  "fine_item ok s \<longleftrightarrow> (\<forall>key. s = select_permission key \<longrightarrow> ok key)"

lemma fine_member:
  assumes ok: "\<forall>b\<in>set permission_blocks. \<forall>p\<in>set (pb_permissions b). ok p"
    and g: "collections key = Some g" and s: "s \<in> set (pc_selections g)"
  shows "fine_item ok s"
proof -
  have "g \<in> set permission_collections" using g by (simp add: collections_iff)
  with s ok show ?thesis
    by (auto simp: fine_item_def permission_collections_def block_collection_def scope_collection_def all_collection_def
        select_permission_def select_collection_def)
qed

lemma expand_keeps:
  assumes step: "\<And>X key sc. keeps X \<Longrightarrow> ok key \<Longrightarrow> access_permission_supported key sc caps \<Longrightarrow>
      sc = target \<or> target = SRelay \<Longrightarrow> keeps (X \<union> permission_adds key sc)"
    and ok: "\<forall>b\<in>set permission_blocks. \<forall>p\<in>set (pb_permissions b). ok p"
  shows "expand_selection caps0 item scope nested r = Inr y \<Longrightarrow> caps0 = caps \<Longrightarrow>
      scope = target \<or> target = SRelay \<Longrightarrow> fine_item ok item \<Longrightarrow> keeps (set r) \<Longrightarrow> keeps (set y)"
    and "expand_selections caps0 items scope nested r = Inr y \<Longrightarrow> caps0 = caps \<Longrightarrow>
      scope = target \<or> target = SRelay \<Longrightarrow> \<forall>item\<in>set items. fine_item ok item \<Longrightarrow> keeps (set r) \<Longrightarrow> keeps (set y)"
proof (induction caps0 item scope nested r and caps0 items scope nested r arbitrary: y and y
    rule: expand_selection_expand_selections.induct)
  case (1 caps0 item scope nested r)
  show ?case
  proof (cases item rule: selection_cases)
    case perm: (1 key)
    show ?thesis
    proof (cases "access_permission_supported key scope caps")
      case True
      then have "set y = set r \<union> permission_adds key scope"
        using expand_permission_supported [OF True, of nested r] 1(2,3) perm by auto
      moreover have "ok key" using 1(5) perm by (simp add: fine_item_def)
      ultimately show ?thesis using step [OF 1(6) _ True 1(4)] by simp
    next
      case False
      with 1(2,3,6) perm show ?thesis by (auto simp: expand_permission_refused split: if_splits)
    qed
  next
    case coll: (2 key)
    then have kind: "sel_kind item = Collection" "sel_key item = key" by (simp_all add: select_collection_def)
    from 1(2) coll obtain g where g: "collections key = Some g"
      by (auto simp: expand_collection split: option.splits)
    show ?thesis
    proof (cases "scope \<in> set (pc_scopes g)")
      case True
      have child: "(case pc_child_scope g of None \<Rightarrow> scope | Some c \<Rightarrow> c) = target \<or> target = SRelay"
        using collection_child_scope [OF g True] 1(4) by auto
      have "expand_selections caps0 (pc_selections g) (case pc_child_scope g of None \<Rightarrow> scope | Some c \<Rightarrow> c) True r = Inr y"
        using 1(2) True g by (simp add: coll expand_collection)
      moreover have "\<forall>s\<in>set (pc_selections g). fine_item ok s"
        using fine_member [OF ok g] by blast
      ultimately show ?thesis
        using 1(1) [OF kind(1) _ _ _ 1(3) child _ 1(6)] g True kind(2) by simp
    next
      case False
      with 1(2,6) g coll show ?thesis by (auto simp: expand_collection split: if_splits)
    qed
  qed
next
  case (3 caps0 item items scope nested r)
  from 3(3) obtain y1 where "expand_selection caps0 item scope nested r = Inr y1"
    "expand_selections caps0 items scope nested y1 = Inr y"
    by (auto split: sum.splits)
  with 3 show ?case by simp
qed simp

section \<open>Union\<close>

definition granted :: "permission_scope \<Rightarrow> string set \<Rightarrow> string set" where
  "granted scope X = (if scope = SRelay \<and> X \<noteq> {} then insert ''relay.read'' X else X)"

definition grants_adds :: "string list option \<Rightarrow> permission_scope \<Rightarrow> permission_selection list \<Rightarrow> string set" where
  "grants_adds caps scope items = (\<Union>item\<in>set items. the (item_adds caps scope False item))"

lemma expand_permission_selections_Inr:
  assumes "permission_selections_schema sels"
  shows "expand_permission_selections sels scope caps = Inr ps \<longleftrightarrow>
    (\<forall>item\<in>set sels. item_adds caps scope False item \<noteq> None) \<and>
    ps = filter (\<lambda>k. k \<in> granted scope (grants_adds caps scope sels)) access_permissions"
proof (cases "expand_selections caps sels scope False []")
  case (Inl e)
  then have "\<not> (\<forall>item\<in>set sels. item_adds caps scope False item \<noteq> None)"
    using expand_items [of caps sels scope False "[]"] by auto
  with Inl assms show ?thesis by (simp add: expand_permission_selections_def)
next
  case (Inr y)
  then have ok: "\<forall>item\<in>set sels. item_adds caps scope False item \<noteq> None"
    using expand_items [of caps sels scope False "[]"] by blast
  have set_y: "set y = grants_adds caps scope sels"
    using expand_items_set [OF Inr] by (simp add: grants_adds_def)
  then have "(y \<noteq> []) = (grants_adds caps scope sels \<noteq> {})" by auto
  then have "set (if scope = SRelay \<and> y \<noteq> [] then set_add ''relay.read'' y else y) = granted scope (grants_adds caps scope sels)"
    using set_y by (cases "scope = SRelay") (auto simp: granted_def)
  with Inr ok assms show ?thesis by (auto simp: expand_permission_selections_def Let_def)
qed

lemma schema_append: "permission_selections_schema (xs @ ys) \<Longrightarrow> permission_selections_schema xs \<and> permission_selections_schema ys"
  by (simp add: permission_selections_schema_def)

text \<open>A list of selections grants exactly what its parts grant: splitting it, reordering it or
  repeating an item changes nothing, and it's refused exactly if one of its parts is.\<close>

lemma expansions_unite:
  assumes "permission_selections_schema (xs @ ys)"
  shows "expand_permission_selections (xs @ ys) scope caps = Inr zs \<longleftrightarrow>
    (\<exists>as bs. expand_permission_selections xs scope caps = Inr as \<and> expand_permission_selections ys scope caps = Inr bs \<and>
       zs = filter (\<lambda>k. k \<in> set as \<union> set bs) access_permissions)"
proof -
  have "k \<in> granted scope (grants_adds caps scope (xs @ ys)) \<longleftrightarrow>
      k \<in> granted scope (grants_adds caps scope xs) \<or> k \<in> granted scope (grants_adds caps scope ys)" for k
    by (cases "scope = SRelay") (auto simp: granted_def grants_adds_def)
  then have same: "filter (\<lambda>k. k \<in> granted scope (grants_adds caps scope (xs @ ys))) access_permissions =
      filter (\<lambda>k. k \<in> set (filter (\<lambda>k. k \<in> granted scope (grants_adds caps scope xs)) access_permissions) \<union>
        set (filter (\<lambda>k. k \<in> granted scope (grants_adds caps scope ys)) access_permissions)) access_permissions"
    by (intro filter_cong) auto
  from schema_append [OF assms] show ?thesis
    unfolding expand_permission_selections_Inr [OF assms] same
    by (simp add: expand_permission_selections_Inr Ball_def) blast
qed

section \<open>Nothing outside the scope\<close>

definition closed_grant :: "string list option \<Rightarrow> permission_scope \<Rightarrow> string set \<Rightarrow> bool" where
  "closed_grant caps target X \<longleftrightarrow>
     (\<forall>p\<in>X. access_permission_supported p target caps \<and> set (implication_closure p) \<subseteq> X) \<and>
     (target \<noteq> SRelay \<longrightarrow> X \<noteq> {} \<longrightarrow> scope_read target \<in> X)"

lemma supported_definition: "access_permission_supported p scope caps \<Longrightarrow> \<exists>d. permission_definitions p = Some d"
  by (auto simp: access_permission_supported_def split: option.splits)

lemma supported_target:
  "access_permission_supported p scope caps \<Longrightarrow> scope = target \<or> target = SRelay \<Longrightarrow> access_permission_supported p target caps"
  using supported_relay by blast

lemma closure_visibility:
  assumes "permission_definitions p = Some d" and "pd_family d = scope_family scope"
  shows "scope_read scope \<in> set (implication_closure p)"
proof -
  obtain b where d: "d = catalog_entry p (b, scope_family scope)"
    using assms by (auto simp: permission_definitions_rows)
  have v: "family_visibility (scope_family scope) = Some (scope_read scope)"
    by (cases scope) (simp_all add: scope_read_def)
  then have "scope_read scope = p \<or> scope_read scope \<in> set (pd_implies d)"
    by (auto simp: d catalog_entry_def)
  then show ?thesis
    using assms(1) by (auto simp: implication_closure_rtrancl implies_rel_def)
qed

lemma visible_target:
  assumes "access_permission_supported p target caps" and "target \<noteq> SRelay"
  shows "scope_read target \<in> permission_adds p target"
proof -
  obtain d where d: "permission_definitions p = Some d" using supported_definition [OF assms(1)] by blast
  then have "target \<in> set (family_scopes (pd_family d))"
    using assms(1) by (auto simp: access_permission_supported_def permission_definitions_rows)
  then have "pd_family d = FShared \<or> pd_family d = scope_family target"
    using assms(2) by (cases "pd_family d"; cases target) simp_all
  then show ?thesis using closure_visibility [OF d] d by (auto simp: permission_adds_def)
qed

lemma permission_adds_cases:
  assumes "q \<in> permission_adds key scope"
  shows "q \<in> set (implication_closure key) \<or> q = scope_read scope \<or>
    scope = SRelay \<and> (q = scope_read SInstance \<or> q = scope_read SDatabase)"
  using assms child_visibility_reads by (auto simp: permission_adds_def split: option.splits if_splits)

lemma closed_grant_step:
  assumes X: "closed_grant caps target X" and key: "access_permission_supported key scope caps"
    and target: "scope = target \<or> target = SRelay"
  shows "closed_grant caps target (X \<union> permission_adds key scope)"
proof -
  have "access_permission_supported q target caps \<and> set (implication_closure q) \<subseteq> permission_adds key scope"
    if q: "q \<in> permission_adds key scope" for q
    using permission_adds_cases [OF q]
  proof (elim disjE conjE)
    assume "q \<in> set (implication_closure key)"
    then show ?thesis
      using closure_supported [OF key] supported_target target closure_trans
      by (fastforce simp: permission_adds_def)
  qed (use q target in \<open>auto simp: scope_read_supported\<close>)
  moreover have "target \<noteq> SRelay \<Longrightarrow> scope_read target \<in> permission_adds key scope"
    using visible_target key target by auto
  ultimately show ?thesis using X by (auto simp: closed_grant_def)
qed

lemma granted_closed:
  assumes "closed_grant caps scope X"
  shows "closed_grant caps scope (granted scope X) \<and> (granted scope X \<noteq> {} \<longrightarrow> scope_read scope \<in> granted scope X)"
proof (cases "scope = SRelay")
  case True
  have "''relay.read'' = scope_read SRelay" by (simp add: scope_read_def)
  with True assms scope_read_supported [of SRelay SRelay caps] show ?thesis
    by (auto simp: closed_grant_def granted_def)
next
  case False
  with assms show ?thesis by (simp add: granted_def closed_grant_def)
qed

text \<open>C16: What selections grant at a scope stays inside it: every permission is one the scope (and
  the target's capabilities) supports, comes with all it implies, and whoever is granted
  anything can see the target.\<close>

theorem expansion_stays_in_scope:
  assumes "expand_permission_selections sels scope caps = Inr ps"
  shows "(\<forall>p\<in>set ps. access_permission_supported p scope caps \<and> set (implication_closure p) \<subseteq> set ps) \<and>
    (ps \<noteq> [] \<longrightarrow> scope_read scope \<in> set ps) \<and> distinct ps"
proof -
  from assms have schema: "permission_selections_schema sels"
    by (auto simp: expand_permission_selections_def split: if_splits)
  let ?X = "grants_adds caps scope sels"
  from assms have ok: "\<forall>item\<in>set sels. item_adds caps scope False item \<noteq> None"
    and ps: "ps = filter (\<lambda>k. k \<in> granted scope ?X) access_permissions"
    unfolding expand_permission_selections_Inr [OF schema] by auto
  from ok obtain y where y: "expand_selections caps sels scope False [] = Inr y"
    using expand_items [of caps sels scope False "[]"] by blast
  have "closed_grant caps scope (set y)"
    by (rule expand_keeps(2) [of "closed_grant caps scope" "\<lambda>_. True" caps scope, OF _ _ y])
      (auto simp: closed_grant_step fine_item_def, simp add: closed_grant_def)
  then have "closed_grant caps scope ?X"
    using expand_items_set [OF y] by (simp add: grants_adds_def)
  note good = granted_closed [OF this]
  have "set ps = granted scope ?X"
    using good supported_definition permission_definitions_iff by (fastforce simp: ps closed_grant_def)
  moreover have "distinct ps" using distinct_access_permissions by (simp add: ps)
  ultimately show ?thesis using good by (auto simp: closed_grant_def)
qed

end
