(* ===== verification/Permission_Policy.thy ===== *)
theory Permission_Policy
  imports Permission_Expansion
begin

text \<open>
  The collection of everything, and the authority a person needs to give a Relay client its
  actions.
\<close>

section \<open>Collections\<close>

lemma collection_of_block: "b \<in> set permission_blocks \<Longrightarrow> collections (pb_key b @ ''.all'') = Some (block_collection b)"
  by (simp add: collections_iff permission_collections_def block_collection_def)

lemma collection_all: "collections ''all'' = Some all_collection"
  by (simp add: collections_iff permission_collections_def all_collection_def)

lemma collection_of_scope: "collections (scope_name scope @ ''.all'') = Some (scope_collection scope)"
  by (cases scope) (simp_all add: collections_iff permission_collections_def permission_scope_types_def scope_collection_def)

text \<open>Inside a collection nothing known is refused.\<close>

definition known_item :: "permission_selection \<Rightarrow> bool" where
  "known_item s \<longleftrightarrow>
     (case sel_kind s of
        Permission \<Rightarrow> permission_definitions (sel_key s) \<noteq> None
      | Collection \<Rightarrow> collections (sel_key s) \<noteq> None)"

lemma known_member: "collections key = Some g \<Longrightarrow> s \<in> set (pc_selections g) \<Longrightarrow> known_item s"
  using collection_member [of g s] catalog_definition
  by (auto simp: collections_iff known_item_def select_permission_def select_collection_def collection_of_block)

lemma nested_item: "known_item s \<Longrightarrow> item_adds caps scope True s \<noteq> None"
proof (induction "selection_rank s" arbitrary: s scope rule: less_induct)
  case less
  show ?case
  proof (cases s rule: selection_cases)
    case (1 key)
    then have "permission_definitions key \<noteq> None" using less.prems by (simp add: known_item_def select_permission_def)
    then show ?thesis
      using expand_permission_supported [of key scope caps True "[]"] expand_permission_refused [of key scope caps True "[]"]
      by (cases "access_permission_supported key scope caps") (auto simp: item_adds_def 1)
  next
    case (2 key)
    then obtain g where g: "collections key = Some g"
      using less.prems by (auto simp: known_item_def select_collection_def)
    let ?sc = "case pc_child_scope g of None \<Rightarrow> scope | Some c \<Rightarrow> c"
    have "\<forall>t\<in>set (pc_selections g). item_adds caps ?sc True t \<noteq> None"
      using less.hyps known_member [OF g] collection_members_rank [OF g] 2 by blast
    then obtain y where "expand_selections caps (pc_selections g) ?sc True [] = Inr y"
      using expand_items by blast
    with g show ?thesis by (simp add: item_adds_def 2 expand_collection)
  qed
qed

lemma collection_item:
  assumes "collections key = Some g" and "scope \<in> set (pc_scopes g)"
  shows "item_adds caps scope nested (select_collection key) =
    Some (\<Union>s\<in>set (pc_selections g). the (item_adds caps (case pc_child_scope g of None \<Rightarrow> scope | Some c \<Rightarrow> c) True s))"
proof -
  let ?sc = "case pc_child_scope g of None \<Rightarrow> scope | Some c \<Rightarrow> c"
  have "\<forall>t\<in>set (pc_selections g). item_adds caps ?sc True t \<noteq> None"
    using nested_item known_member [OF assms(1)] by blast
  then obtain y where y: "expand_selections caps (pc_selections g) ?sc True [] = Inr y"
    using expand_items by blast
  with expand_items_set [OF y] assms show ?thesis by (simp add: item_adds_def expand_collection)
qed

lemma permission_item:
  "access_permission_supported key scope caps \<Longrightarrow>
   item_adds caps scope nested (select_permission key) = Some (permission_adds key scope)"
  using expand_permission_supported [of key scope caps nested "[]"] by (auto simp: item_adds_def)

lemma permission_adds_self: "key \<in> permission_adds key scope"
  by (simp add: permission_adds_def)

section \<open>Everything\<close>

lemma block_of_permission:
  assumes "permission_definitions k = Some d" and "\<not> pd_compatibility_only d"
  obtains b where "b \<in> set permission_blocks" "k \<in> set (pb_permissions b)"
  using assms permission_definitions_Some [OF assms(1)] by (fastforce simp: permission_blocks_def)

lemma compatibility_iff:
  "permission_definitions k = Some d \<Longrightarrow> pd_compatibility_only d \<longleftrightarrow> k \<in> set compatibility_only_permissions"
  by (auto simp: permission_definitions_rows catalog_entry_def)

lemma supported_None: "access_permission_supported k scope caps \<Longrightarrow> access_permission_supported k scope None"
  by (auto simp: access_permission_supported_def split: option.splits)

lemma all_adds:
  assumes k: "access_permission_supported k scope caps" and nc: "k \<notin> set compatibility_only_permissions"
  shows "k \<in> the (item_adds caps scope False (select_collection ''all''))"
proof -
  obtain d where d: "permission_definitions k = Some d" using supported_definition [OF k] by blast
  with nc have "\<not> pd_compatibility_only d" by (simp add: compatibility_iff)
  with d obtain b where b: "b \<in> set permission_blocks" "k \<in> set (pb_permissions b)"
    by (rule block_of_permission)
  have scope: "scope \<in> set (pc_scopes (block_collection b))"
    using b(2) supported_None [OF k]
    by (cases scope) (auto simp: block_collection_def block_supported_def permission_scope_types_def list_ex_iff)
  have "k \<in> the (item_adds caps scope True (select_collection (pb_key b @ ''.all'')))"
    using b(2) permission_item [OF k, of True] permission_adds_self
    by (auto simp: collection_item [OF collection_of_block [OF b(1)] scope] block_collection_def intro!: bexI [of _ k])
  moreover have "scope \<in> set (pc_scopes all_collection)"
    by (cases scope) (simp_all add: all_collection_def permission_scope_types_def)
  ultimately show ?thesis
    using b(1) by (auto simp: collection_item [OF collection_all] all_collection_def)
qed

lemma compatibility_step:
  assumes "X \<inter> set compatibility_only_permissions = {}" and "key \<notin> set compatibility_only_permissions"
  shows "(X \<union> permission_adds key scope) \<inter> set compatibility_only_permissions = {}"
  using assms permission_adds_cases closure_not_compatibility scope_read_not_compatibility by blast

text \<open>The collection of everything grants, at each scope, every permission the scope and the
  target's capabilities support, except the two legacy umbrellas kept for old selections:
  nothing is missing from a block, and new permissions are granted once they're in the catalog.\<close>

lemma everything_is_everything:
  "expand_permission_selections [select_collection ''all''] scope caps =
     Inr (filter (\<lambda>k. access_permission_supported k scope caps \<and> k \<notin> set compatibility_only_permissions)
            access_permissions)"
proof -
  let ?item = "select_collection ''all''"
  have schema: "permission_selections_schema [?item]"
    by (simp add: permission_selections_schema_def permission_selection_schema_def select_collection_def)
  have scope: "scope \<in> set (pc_scopes all_collection)"
    by (cases scope) (simp_all add: all_collection_def permission_scope_types_def)
  have item: "item_adds caps scope False ?item \<noteq> None"
    by (simp add: collection_item [OF collection_all scope])
  then obtain y where y: "expand_selections caps [?item] scope False [] = Inr y"
    using expand_items [of caps "[?item]" scope False "[]"] by auto
  have set_y: "set y = grants_adds caps scope [?item]"
    using expand_items_set [OF y] by (simp add: grants_adds_def)
  have "closed_grant caps scope (set y) \<and> set y \<inter> set compatibility_only_permissions = {}"
  proof (rule expand_keeps(2) [of "\<lambda>X. closed_grant caps scope X \<and> X \<inter> set compatibility_only_permissions = {}"
        "\<lambda>k. k \<notin> set compatibility_only_permissions" caps scope, OF _ _ y])
    show "\<forall>b\<in>set permission_blocks. \<forall>p\<in>set (pb_permissions b). p \<notin> set compatibility_only_permissions"
      using block_permissions catalog_definition compatibility_iff by metis
  qed (use closed_grant_step compatibility_step in \<open>auto simp: fine_item_def select_permission_def select_collection_def\<close>,
      auto simp: closed_grant_def)
  then have closed: "closed_grant caps scope (granted scope (grants_adds caps scope [?item]))"
    and nc: "granted scope (grants_adds caps scope [?item]) \<inter> set compatibility_only_permissions = {}"
    using granted_closed [of caps scope "set y"]
    by (auto simp: set_y granted_def compatibility_only_permissions_def split: if_splits)
  have more: "grants_adds caps scope [?item] \<subseteq> granted scope (grants_adds caps scope [?item])"
    by (auto simp: granted_def)
  have adds: "grants_adds caps scope [?item] = the (item_adds caps scope False ?item)"
    by (simp add: grants_adds_def)
  have "k \<in> granted scope (grants_adds caps scope [?item]) \<longleftrightarrow>
      access_permission_supported k scope caps \<and> k \<notin> set compatibility_only_permissions" for k
  proof
    assume "k \<in> granted scope (grants_adds caps scope [?item])"
    with closed nc show "access_permission_supported k scope caps \<and> k \<notin> set compatibility_only_permissions"
      unfolding closed_grant_def by blast
  next
    assume "access_permission_supported k scope caps \<and> k \<notin> set compatibility_only_permissions"
    then have "k \<in> the (item_adds caps scope False ?item)" by (intro all_adds) auto
    with more adds show "k \<in> granted scope (grants_adds caps scope [?item])" by blast
  qed
  then show ?thesis using item by (simp add: expand_permission_selections_Inr [OF schema])
qed

section \<open>A Relay client's policy\<close>

lemma key_schema: "k \<in> set access_permissions \<Longrightarrow> permission_selections_schema [select_permission k]"
  using access_permissions_schema
  by (auto simp: list_all_iff permission_selections_schema_def permission_selection_schema_def select_permission_def)

lemma supported_at_relay: "access_permission_supported k SRelay None \<longleftrightarrow> k \<in> set access_permissions"
  using permission_definitions_iff [of k]
  by (auto simp: access_permission_supported_def permission_definitions_rows family_scopes_relay split: option.splits)

text \<open>What giving one permission at a Relay amounts to.\<close>

definition relay_authority :: "string \<Rightarrow> string set" where
  "relay_authority p = insert ''relay.read'' (permission_adds p SRelay)"

lemma expand_one_permission:
  assumes "p \<in> set access_permissions"
  shows "\<exists>ps. expand_permission_selections [select_permission p] SRelay None = Inr ps \<and> set ps = relay_authority p"
proof -
  have supported: "access_permission_supported p SRelay None" using assms by (simp add: supported_at_relay)
  have adds: "grants_adds None SRelay [select_permission p] = permission_adds p SRelay"
    using permission_item [OF supported, of False] by (simp add: grants_adds_def)
  have "closed_grant None SRelay ({} \<union> permission_adds p SRelay)"
    by (rule closed_grant_step) (simp_all add: closed_grant_def supported)
  from granted_closed [of None SRelay, OF this] have "granted SRelay (permission_adds p SRelay) \<subseteq> set access_permissions"
    by (auto simp: closed_grant_def supported_at_relay)
  moreover have "granted SRelay (permission_adds p SRelay) = relay_authority p"
    using permission_adds_self by (auto simp: granted_def relay_authority_def)
  ultimately show ?thesis
    using permission_item [OF supported, of False] expand_permission_selections_Inr [OF key_schema [OF assms], of SRelay None]
    by (auto simp: adds)
qed

lemma require_permissions_result:
  "if set qs \<subseteq> set access_permissions
   then \<exists>ps. require_permissions qs required = Inr ps \<and> set ps = set required \<union> (\<Union>q\<in>set qs. relay_authority q)
   else \<exists>e. require_permissions qs required = Inl e"
proof (induction qs arbitrary: required)
  case (Cons q qs)
  show ?case
  proof (cases "q \<in> set access_permissions")
    case True
    obtain implied where implied: "expand_permission_selections [select_permission q] SRelay None = Inr implied"
      "set implied = relay_authority q"
      using expand_one_permission [OF True] by blast
    from Cons.IH [of "add_all implied required"] True implied show ?thesis
      by (auto simp: supported_at_relay split: if_splits)
  qed (simp add: supported_at_relay)
qed simp

definition action_known :: "string \<Rightarrow> bool" where
  "action_known a \<longleftrightarrow>
     (case action_permissions a of
        NeedAll \<Rightarrow> True
      | NeedPermissions (Inl e) \<Rightarrow> False
      | NeedPermissions (Inr qs) \<Rightarrow> set qs \<subseteq> set access_permissions)"

definition action_authority :: "string \<Rightarrow> string set" where
  "action_authority a =
     (case action_permissions a of
        NeedAll \<Rightarrow> set access_permissions
      | NeedPermissions (Inl e) \<Rightarrow> {}
      | NeedPermissions (Inr qs) \<Rightarrow> (\<Union>q\<in>set qs. relay_authority q))"

lemma require_actions_result:
  "if \<forall>a\<in>set as. action_known a
   then \<exists>ps. require_actions as required = Inr ps \<and> set ps = set required \<union> (\<Union>a\<in>set as. action_authority a)
   else \<exists>e. require_actions as required = Inl e"
proof (induction as arbitrary: required)
  case (Cons a as)
  show ?case
  proof (cases "action_permissions a")
    case NeedAll
    with Cons.IH [of "add_all access_permissions required"] show ?thesis
      by (auto simp: action_known_def action_authority_def split: if_splits)
  next
    case (NeedPermissions r)
    show ?thesis
    proof (cases r)
      case (Inl e)
      with NeedPermissions show ?thesis by (simp add: action_known_def)
    next
      case (Inr qs)
      show ?thesis
      proof (cases "set qs \<subseteq> set access_permissions")
        case True
        then obtain ps where ps: "require_permissions qs required = Inr ps"
          "set ps = set required \<union> (\<Union>q\<in>set qs. relay_authority q)"
          using require_permissions_result [of qs required] by auto
        with Cons.IH [of ps] NeedPermissions Inr True show ?thesis
          by (auto simp: action_known_def action_authority_def split: if_splits)
      next
        case False
        then obtain e where "require_permissions qs required = Inl e"
          using require_permissions_result [of qs required] by auto
        with NeedPermissions Inr False show ?thesis by (simp add: action_known_def)
      qed
    qed
  qed
qed simp


section \<open>Witnesses\<close>

lemma expand_app_read: "expand_permission_selections [select_permission ''app.read''] SApp None = Inr [''app.read'']"
proof -
  have def: "permission_definitions ''app.read'' = Some (catalog_entry ''app.read'' (''overview'', FApp))"
    by (rule visibility_defined)
  have supported: "access_permission_supported ''app.read'' SApp None"
    by (simp add: access_permission_supported_def def)
  have closure: "set (implication_closure ''app.read'') = {''app.read''}"
    using scope_read_closure [of SApp] by (simp add: scope_read_def)
  have adds: "permission_adds ''app.read'' SApp = {''app.read''}"
    by (simp add: permission_adds_def def closure)
  have schema: "permission_selections_schema [select_permission ''app.read'']"
    by (simp add: permission_selections_schema_def permission_selection_schema_def select_permission_def)
  have "filter (\<lambda>k. k = ''app.read'') access_permissions = [''app.read'']"
    by (simp add: access_permissions_def legacy_access_permissions_def)
  with permission_item [OF supported, of False] show ?thesis
    by (simp add: expand_permission_selections_Inr [OF schema] grants_adds_def granted_def adds)
qed

lemma expansions_unite_example:
  "expand_permission_selections ([select_permission ''app.read''] @ [select_permission ''app.read'']) SApp None = Inr [''app.read'']"
proof -
  have schema: "permission_selections_schema ([select_permission ''app.read''] @ [select_permission ''app.read''])"
    by (simp add: permission_selections_schema_def permission_selection_schema_def select_permission_def)
  have "filter (\<lambda>k. k = ''app.read'') access_permissions = [''app.read'']"
    by (simp add: access_permissions_def legacy_access_permissions_def)
  then show ?thesis
    unfolding expansions_unite [OF schema] by (simp add: expand_app_read)
qed

theorem expansion_stays_in_scope_witness:
  "access_permission_supported ''app.read'' SApp None \<and> scope_read SApp \<in> set [''app.read'']"
  using expansion_stays_in_scope [OF expand_app_read] by simp


end
