(* ===== verification/Power_State.thy ===== *)
theory Power_State
  imports Main
begin

text \<open>
  \<open>apps/relay/src/power-state.ts\<close>: what the Relay shows of a game server's container while its
  power changes, and why. Times are milliseconds. Docker's timestamps are read with
  \<open>Date.parse\<close>, a parameter that answers \<open>None\<close> where it isn't finite: what it makes of other
  formats than the standard's is up to the engine.
\<close>

section \<open>States\<close>

datatype observed_state = OProvisioning | OStarting | ORunning | OStopping | OStopped | OFailed

datatype desired_state = DStopped | DRunning

datatype instance_power_action = PowStart | PowStop | PowRestart | PowKill

record container_power_state =
  cs_exit_code :: int
  cs_health :: "string option"
  cs_oom_killed :: bool
  cs_restarting :: bool
  cs_running :: bool
  cs_started_at :: string
  cs_status :: string

record power_transition =
  pt_action :: instance_power_action
  pt_command_completed :: bool
  pt_initial_started_at :: "string option"
  pt_requested_at :: int

record observed_power =
  op_state :: observed_state
  op_complete :: bool

definition INSTANCE_STARTUP_STABILITY_MS :: int where
  "INSTANCE_STARTUP_STABILITY_MS = 15000"

definition INSTANCE_STARTUP_READINESS_TIMEOUT_MS :: int where
  "INSTANCE_STARTUP_READINESS_TIMEOUT_MS = 120000"

definition stopped_container_state :: "container_power_state \<Rightarrow> observed_state" where
  "stopped_container_state c =
     (if cs_oom_killed c then OFailed
      else if cs_exit_code c = 0 \<or> cs_exit_code c = 143 then OStopped else OFailed)"

definition observed_container_state ::
  "(string \<Rightarrow> int option) \<Rightarrow> container_power_state \<Rightarrow> int \<Rightarrow> bool option \<Rightarrow> observed_state" where
  "observed_container_state parse c now ready =
     (if cs_restarting c \<or> cs_status c = ''restarting'' then OStarting
      else if cs_running c then
        if ready = Some True \<or> cs_health c = Some ''healthy'' then ORunning
        else if cs_health c = Some ''unhealthy'' then OFailed
        else if cs_health c = Some ''starting'' then OStarting
        else
          let running_for = (case parse (cs_started_at c) of
                Some t \<Rightarrow> now - t | None \<Rightarrow> INSTANCE_STARTUP_READINESS_TIMEOUT_MS)
          in if ready = Some False
             then (if running_for < INSTANCE_STARTUP_READINESS_TIMEOUT_MS then OStarting else ORunning)
             else if running_for < INSTANCE_STARTUP_STABILITY_MS then OStarting else ORunning
      else stopped_container_state c)"

section \<open>While its power changes\<close>

text \<open>What follows the checks of a stop's and a restart's first half.\<close>

definition observed_start ::
  "(string \<Rightarrow> int option) \<Rightarrow> container_power_state \<Rightarrow> power_transition \<Rightarrow> int \<Rightarrow> bool option \<Rightarrow> observed_power" where
  "observed_start parse c t now ready =
     (if \<not> cs_running c then
        if pt_command_completed t then \<lparr>op_state = stopped_container_state c, op_complete = True\<rparr>
        else \<lparr>op_state = OStarting, op_complete = False\<rparr>
      else if cs_restarting c \<or> cs_status c = ''restarting'' then \<lparr>op_state = OStarting, op_complete = False\<rparr>
      else if ready = Some True \<or> cs_health c = Some ''healthy'' then \<lparr>op_state = ORunning, op_complete = True\<rparr>
      else if cs_health c = Some ''unhealthy'' then \<lparr>op_state = OFailed, op_complete = True\<rparr>
      else if cs_health c = Some ''starting'' then \<lparr>op_state = OStarting, op_complete = False\<rparr>
      else
        let stable_since = (case parse (cs_started_at c) of Some s \<Rightarrow> s | None \<Rightarrow> pt_requested_at t);
            running_for = now - stable_since
        in if ready = Some False \<and> running_for < INSTANCE_STARTUP_READINESS_TIMEOUT_MS
           then \<lparr>op_state = OStarting, op_complete = False\<rparr>
           else if running_for \<ge> INSTANCE_STARTUP_STABILITY_MS
           then \<lparr>op_state = ORunning, op_complete = True\<rparr>
           else \<lparr>op_state = OStarting, op_complete = False\<rparr>)"

definition replacement_started :: "container_power_state \<Rightarrow> power_transition \<Rightarrow> bool" where
  "replacement_started c t \<longleftrightarrow>
     cs_running c \<and> Some (cs_started_at c) \<noteq> pt_initial_started_at t \<and> cs_started_at c \<noteq> []"

definition observed_instance_power_state ::
  "(string \<Rightarrow> int option) \<Rightarrow> container_power_state \<Rightarrow> power_transition option \<Rightarrow> int \<Rightarrow> bool option \<Rightarrow> observed_power" where
  "observed_instance_power_state parse c transition now ready =
     (case transition of
        None \<Rightarrow> \<lparr>op_state = observed_container_state parse c now ready, op_complete = False\<rparr>
      | Some t \<Rightarrow>
          (case pt_action t of
             PowStop \<Rightarrow>
               (if cs_running c then \<lparr>op_state = OStopping, op_complete = False\<rparr>
                else \<lparr>op_state = stopped_container_state c, op_complete = True\<rparr>)
           | PowKill \<Rightarrow>
               (if cs_running c then \<lparr>op_state = OStopping, op_complete = False\<rparr>
                else \<lparr>op_state = stopped_container_state c, op_complete = True\<rparr>)
           | PowRestart \<Rightarrow>
               (if \<not> replacement_started c t \<and> \<not> pt_command_completed t
                then \<lparr>op_state = OStopping, op_complete = False\<rparr> else observed_start parse c t now ready)
           | PowStart \<Rightarrow> observed_start parse c t now ready))"

section \<open>Why\<close>

datatype recovery_phase = RPending | RRestarting | RFailed

datatype recovery_reason = CleanExit | ProcessExit | OutOfMemory | StartFailed

record instance_recovery =
  ir_exit_code :: "int option"
  ir_phase :: recovery_phase
  ir_reason :: recovery_reason

datatype state_reason =
    SrAutomaticRecovery "int option" recovery_phase recovery_reason
  | SrContainerRestarting
  | SrHealthCheckFailed
  | SrHealthCheckStarting
  | SrWaitingForReadiness
  | SrOutOfMemory
  | SrOutOfMemoryWhileStopping
  | SrProcessExit int
  | SrUnknown

definition instance_state_reason ::
  "container_power_state \<Rightarrow> observed_state \<Rightarrow> bool option \<Rightarrow> instance_recovery option \<Rightarrow> desired_state option \<Rightarrow>
   state_reason option" where
  "instance_state_reason c observed ready recovery desired =
     (case recovery of
        Some r \<Rightarrow> Some (SrAutomaticRecovery (ir_exit_code r) (ir_phase r) (ir_reason r))
      | None \<Rightarrow>
          if cs_restarting c \<or> cs_status c = ''restarting'' then Some SrContainerRestarting
          else if cs_health c = Some ''unhealthy'' then Some SrHealthCheckFailed
          else if cs_health c = Some ''starting'' then Some SrHealthCheckStarting
          else if observed = OStarting \<and> ready = Some False then Some SrWaitingForReadiness
          else if observed \<noteq> OFailed then None
          else if cs_oom_killed c
          then Some (if desired = Some DStopped then SrOutOfMemoryWhileStopping else SrOutOfMemory)
          else if cs_exit_code c \<noteq> 0 \<and> cs_exit_code c \<noteq> 143 then Some (SrProcessExit (cs_exit_code c))
          else Some SrUnknown)"

section \<open>Properties\<close>

lemma stopped_container_cases: "stopped_container_state c = OStopped \<or> stopped_container_state c = OFailed"
  by (simp add: stopped_container_state_def)

definition settled_state :: "observed_state \<Rightarrow> bool" where
  "settled_state s \<longleftrightarrow> s = ORunning \<or> s = OStopped \<or> s = OFailed"

lemma observed_start_settled: "op_complete (observed_start parse c t now ready) = settled_state (op_state (observed_start parse c t now ready))"
  using stopped_container_cases [of c] by (auto simp: observed_start_def settled_state_def Let_def)

text \<open>A power change is over exactly when the game server is shown running, stopped or failed;
  until then it's shown starting or stopping. A stop or kill is over once the container has
  stopped; a start or restart is over, whatever its readiness check answers, once the
  container has been up for two minutes outside Docker's own health check's start.\<close>

lemma power_change_settles:
  assumes "observed_instance_power_state parse c (Some t) now ready = r"
  shows "(op_complete r \<longleftrightarrow> settled_state (op_state r)) \<and>
    (pt_action t \<in> {PowStop, PowKill} \<longrightarrow> (op_complete r \<longleftrightarrow> \<not> cs_running c) \<and> op_state r \<noteq> ORunning) \<and>
    (pt_action t = PowStart \<or> pt_action t = PowRestart \<and> (replacement_started c t \<or> pt_command_completed t) \<longrightarrow>
       cs_running c \<longrightarrow> \<not> cs_restarting c \<longrightarrow> cs_status c \<noteq> ''restarting'' \<longrightarrow> cs_health c \<noteq> Some ''starting'' \<longrightarrow>
       (case parse (cs_started_at c) of Some s \<Rightarrow> s | None \<Rightarrow> pt_requested_at t) + INSTANCE_STARTUP_READINESS_TIMEOUT_MS \<le> now \<longrightarrow>
       op_complete r)"
proof (intro conjI)
  show "op_complete r \<longleftrightarrow> settled_state (op_state r)"
    unfolding assms [symmetric] using stopped_container_cases [of c] observed_start_settled [of parse c t now ready]
    by (auto simp: observed_instance_power_state_def settled_state_def split: instance_power_action.split)
  show "pt_action t \<in> {PowStop, PowKill} \<longrightarrow> (op_complete r \<longleftrightarrow> \<not> cs_running c) \<and> op_state r \<noteq> ORunning"
    unfolding assms [symmetric] using stopped_container_cases [of c]
    by (auto simp: observed_instance_power_state_def)
  show "pt_action t = PowStart \<or> pt_action t = PowRestart \<and> (replacement_started c t \<or> pt_command_completed t) \<longrightarrow>
       cs_running c \<longrightarrow> \<not> cs_restarting c \<longrightarrow> cs_status c \<noteq> ''restarting'' \<longrightarrow> cs_health c \<noteq> Some ''starting'' \<longrightarrow>
       (case parse (cs_started_at c) of Some s \<Rightarrow> s | None \<Rightarrow> pt_requested_at t) + INSTANCE_STARTUP_READINESS_TIMEOUT_MS \<le> now \<longrightarrow>
       op_complete r"
    unfolding assms [symmetric]
    by (auto simp: observed_instance_power_state_def observed_start_def Let_def INSTANCE_STARTUP_READINESS_TIMEOUT_MS_def
        INSTANCE_STARTUP_STABILITY_MS_def split: option.splits)
qed

lemma power_change_settles_example:
  "op_complete (observed_instance_power_state (\<lambda>_. None)
     \<lparr>cs_exit_code = 143, cs_health = None, cs_oom_killed = False, cs_restarting = False, cs_running = False,
      cs_started_at = [], cs_status = ''exited''\<rparr>
     (Some \<lparr>pt_action = PowStop, pt_command_completed = False, pt_initial_started_at = None, pt_requested_at = 0\<rparr>) 5 None)"
  using power_change_settles [OF refl, of "\<lambda>_. None"
     "\<lparr>cs_exit_code = 143, cs_health = None, cs_oom_killed = False, cs_restarting = False, cs_running = False,
      cs_started_at = [], cs_status = ''exited''\<rparr>"
     "\<lparr>pt_action = PowStop, pt_command_completed = False, pt_initial_started_at = None, pt_requested_at = 0\<rparr>" 5 None]
  by fastforce

text \<open>A game server that's shown failed is always shown a reason; one that's running without one
  isn't in its container's or its health check's start.\<close>

lemma failed_has_reason: "instance_state_reason c OFailed ready recovery desired \<noteq> None"
  by (simp add: instance_state_reason_def split: option.split)

lemma no_reason_means: "instance_state_reason c observed ready recovery desired = None \<Longrightarrow>
    observed \<noteq> OFailed \<and> \<not> cs_restarting c \<and> cs_health c \<notin> {Some ''unhealthy'', Some ''starting''}"
  by (auto simp: instance_state_reason_def split: option.splits if_splits)

end
