(* ===== verification/Resource_Power.thy ===== *)
theory Resource_Power
  imports Plans Lanes_Props Power_State
begin

text \<open>
  \<open>apps/relay/src/power-intents.ts\<close> and \<open>resource-power.ts\<close>: power changes of every kind of
  resource and the intents that let a schedule's later steps give way to a person's change.
  What a kind does around Docker (the adapters) and how often something outside the lanes
  replaced it are parameters. Counts are unbounded.
\<close>

section \<open>Docker's part\<close>

text \<open>The call \<open>containerPower\<close> makes: the container, seconds to stop in, and the timeout in ms.\<close>

datatype engine_call =
    StartContainer string nat
  | StopContainer string nat nat
  | RestartContainer string nat nat
  | KillContainer string nat

definition CONTAINER_STOP_SECONDS :: nat where
  "CONTAINER_STOP_SECONDS = 30"

definition container_power :: "string \<Rightarrow> instance_power_action \<Rightarrow> nat \<Rightarrow> engine_call" where
  "container_power container action stop_seconds =
     (case action of
        PowStart \<Rightarrow> StartContainer container 120000
      | PowStop \<Rightarrow> StopContainer container stop_seconds ((stop_seconds + 15) * 1000)
      | PowRestart \<Rightarrow> RestartContainer container stop_seconds ((stop_seconds + 120) * 1000)
      | PowKill \<Rightarrow> KillContainer container ((stop_seconds + 15) * 1000))"

section \<open>Intents\<close>

type_synonym power_intents = "(string \<times> nat) list"

fun kind_name :: "power_kind \<Rightarrow> string" where
  "kind_name PApp = ''app''"
| "kind_name PDatabase = ''database''"
| "kind_name PInstance = ''instance''"

definition intent_key :: "power_kind \<Rightarrow> string \<Rightarrow> string" where
  "intent_key kind i = kind_name kind @ '':'' @ i"

definition intents_current :: "power_intents \<Rightarrow> power_kind \<Rightarrow> string \<Rightarrow> nat" where
  "intents_current m kind i = (case map_of m (intent_key kind i) of None \<Rightarrow> 0 | Some n \<Rightarrow> n)"

definition intents_advance :: "power_kind \<Rightarrow> string \<Rightarrow> power_intents \<Rightarrow> power_intents" where
  "intents_advance kind i m = AList.update (intent_key kind i) (intents_current m kind i + 1) m"

lemma intent_key_inject: "intent_key k i = intent_key k' i' \<longleftrightarrow> k = k' \<and> i = i'"
  by (cases k; cases k') (auto simp: intent_key_def)

lemma intents_current_advance:
  "intents_current (intents_advance k i m) k' i' = intents_current m k' i' + (if k' = k \<and> i' = i then 1 else 0)"
  by (auto simp: intents_current_def intents_advance_def intent_key_inject)

interpretation intents: generation_counter "\<lambda>m (k, i). intents_current m k i" "\<lambda>(k, i) m. intents_advance k i m"
  by unfold_locales (auto simp: intents_current_advance split: if_splits)

section \<open>Numbers in a token\<close>

text \<open>A count as JavaScript writes it.\<close>

definition digit_char :: "nat \<Rightarrow> char" where
  "digit_char d = ''0123456789'' ! d"

fun number_string :: "nat \<Rightarrow> string" where
  "number_string n = (if n < 10 then [digit_char n] else number_string (n div 10) @ [digit_char (n mod 10)])"

declare number_string.simps [simp del]

lemma digit_char_inject: "a < 10 \<Longrightarrow> b < 10 \<Longrightarrow> digit_char a = digit_char b \<longleftrightarrow> a = b"
  unfolding digit_char_def by (rule nth_eq_iff_index_eq) simp_all

lemma digit_not_colon: "d < 10 \<Longrightarrow> digit_char d \<noteq> CHR '':''"
  using nth_mem [of d "''0123456789''"] by (auto simp: digit_char_def)

lemma number_string_not_colon: "CHR '':'' \<notin> set (number_string n)"
proof (induction n rule: number_string.induct)
  case (1 n)
  then show ?case using digit_not_colon [of n] digit_not_colon [of "n mod 10"]
    by (auto simp: number_string.simps [of n])
qed

lemma number_string_length: "n < 10 \<Longrightarrow> length (number_string n) = 1" "10 \<le> n \<Longrightarrow> 1 < length (number_string n)"
proof -
  have pos: "0 < length (number_string m)" for m by (subst number_string.simps) simp
  show "n < 10 \<Longrightarrow> length (number_string n) = 1" by (simp add: number_string.simps)
  show "10 \<le> n \<Longrightarrow> 1 < length (number_string n)"
    using pos [of "n div 10"] by (subst number_string.simps) simp
qed

lemma number_string_inject [simp]: "number_string m = number_string n \<longleftrightarrow> m = n"
proof
  show "number_string m = number_string n \<Longrightarrow> m = n"
  proof (induction m arbitrary: n rule: number_string.induct)
    case (1 m)
    have same: "m < 10 \<longleftrightarrow> n < 10"
      using 1(2) number_string_length by (metis less_irrefl not_le)
    show ?case
    proof (cases "m < 10")
      case True
      with 1(2) same show ?thesis by (simp add: number_string.simps digit_char_inject)
    next
      case False
      with 1(2) same have "number_string (m div 10) = number_string (n div 10)" "digit_char (m mod 10) = digit_char (n mod 10)"
        by (simp_all add: number_string.simps [of m] number_string.simps [of n])
      with 1(1) [OF False] have "m div 10 = n div 10" "m mod 10 = n mod 10" by (simp_all add: digit_char_inject)
      then show ?thesis by (metis div_mult_mod_eq)
    qed
  qed
qed simp

lemma split_at_first: "c \<notin> set xs \<Longrightarrow> c \<notin> set ys \<Longrightarrow> xs @ c # zs = ys @ c # ws \<longleftrightarrow> xs = ys \<and> zs = ws"
proof (induction xs arbitrary: ys)
  case Nil
  then show ?case by (cases ys) auto
next
  case (Cons x xs)
  then show ?case by (cases ys) auto
qed

section \<open>Power changes\<close>

text \<open>The precondition of a scheduled step: the intent hasn't moved from the one it noted.\<close>

record power_precondition =
  pp_kind :: power_kind
  pp_id :: string
  pp_intent :: string

record resource_power =
  rp_intents :: power_intents
  rp_lanes :: "power_precondition lanes"
  rp_replacements :: "power_kind \<Rightarrow> (string \<Rightarrow> nat) option"

definition replacements_of :: "resource_power \<Rightarrow> power_kind \<Rightarrow> string \<Rightarrow> nat" where
  "replacements_of s kind i = (case rp_replacements s kind of None \<Rightarrow> 0 | Some f \<Rightarrow> f i)"

definition intent :: "resource_power \<Rightarrow> power_kind \<Rightarrow> string \<Rightarrow> string" where
  "intent s kind i = join_with '':''
     [number_string (intents_current (rp_intents s) kind i),
      number_string (exclusive_generation (rp_lanes s) (resource_lane_key kind i)),
      number_string (replacements_of s kind i)]"

definition power_changed :: "power_kind \<Rightarrow> string \<Rightarrow> resource_power \<Rightarrow> resource_power" where
  "power_changed kind i s = s\<lparr>rp_intents := intents_advance kind i (rp_intents s)\<rparr>"

text \<open>A person's change, with the adapter that answers it.\<close>

definition power_requested ::
  "(power_kind \<Rightarrow> string \<Rightarrow> string \<Rightarrow> 'r) \<Rightarrow> power_kind \<Rightarrow> string \<Rightarrow> string \<Rightarrow> resource_power \<Rightarrow> 'r \<times> resource_power" where
  "power_requested adapters kind i action s =
     (adapters kind i action, s\<lparr>rp_intents := intents_advance kind i (rp_intents s)\<rparr>)"

text \<open>What the lanes check as an operation's turn comes, in a state.\<close>

definition power_env :: "lane_refusal_fn \<Rightarrow> resource_power \<Rightarrow> power_precondition lane_env" where
  "power_env refuse s = \<lparr>env_refuse = refuse,
     env_holds = (\<lambda>p. intent s (pp_kind p) (pp_id p) = pp_intent p)\<rparr>"

definition scheduled_admission ::
  "power_kind \<Rightarrow> string \<Rightarrow> string \<Rightarrow> lane_lock list \<Rightarrow> power_precondition lane_admission" where
  "scheduled_admission kind i noted locks =
     \<lparr>ad_label = ''schedule.'' @ kind_name kind @ ''.power'', ad_locks = Some locks,
      ad_precondition = Some \<lparr>pp_kind = kind, pp_id = i, pp_intent = noted\<rparr>,
      ad_continuation = False, ad_when_busy = None, ad_carries_on = False\<rparr>"

text \<open>
  A schedule's step up to its turn: its locks are looked up, and if that fails it fails;
  then it's admitted. Its waiter begins (\<open>lanes_begin\<close>) once granted, and runs the adapter.
\<close>

definition scheduled_power ::
  "lane_refusal_fn \<Rightarrow> power_kind \<Rightarrow> string \<Rightarrow> string \<Rightarrow> string + lane_lock list \<Rightarrow> resource_power \<Rightarrow>
   string + (nat \<times> resource_power)" where
  "scheduled_power refuse kind i noted locks s =
     (case locks of
        Inl e \<Rightarrow> Inl e
      | Inr ls \<Rightarrow>
          (case lanes_admit (power_env refuse s) (scheduled_admission kind i noted ls) False (rp_lanes s) of
             (lanes, w) \<Rightarrow> Inr (w, s\<lparr>rp_lanes := lanes\<rparr>)))"

section \<open>What moves an intent\<close>

lemma intent_eq_iff:
  "intent s kind i = intent s' kind' i' \<longleftrightarrow>
     intents_current (rp_intents s) kind i = intents_current (rp_intents s') kind' i' \<and>
     exclusive_generation (rp_lanes s) (resource_lane_key kind i) =
       exclusive_generation (rp_lanes s') (resource_lane_key kind' i') \<and>
     replacements_of s kind i = replacements_of s' kind' i'"
  by (simp add: intent_def split_at_first number_string_not_colon)

text \<open>
  Anything may happen to the lanes with the preconditions as they are; replacements only
  grow.
\<close>

inductive power_step :: "resource_power \<Rightarrow> resource_power \<Rightarrow> bool" where
  power_lanes: "lanes_step (rp_lanes s) lanes \<Longrightarrow> power_step s (s\<lparr>rp_lanes := lanes\<rparr>)"
| power_change: "power_step s (power_changed kind i s)"
| power_replaced: "(\<And>kind i. replacements_of s kind i \<le> replacements_of (s\<lparr>rp_replacements := r\<rparr>) kind i) \<Longrightarrow>
    power_step s (s\<lparr>rp_replacements := r\<rparr>)"

inductive_cases power_stepE: "power_step s t"

definition power_start :: "lanes_options \<Rightarrow> (power_kind \<Rightarrow> (string \<Rightarrow> nat) option) \<Rightarrow> resource_power" where
  "power_start opts replacements =
     \<lparr>rp_intents = [], rp_lanes = new_lanes opts, rp_replacements = replacements\<rparr>"

interpretation power_run: invariant_system "power_start opts replacements" power_step "\<lambda>s. lanes_ok (rp_lanes s)"
proof
  show "lanes_ok (rp_lanes (power_start opts replacements))"
    using lanes_run.inv_start by (simp add: power_start_def)
  show "lanes_ok (rp_lanes t)" if "lanes_ok (rp_lanes s)" "power_step s t" for s t
    using that(2,1) lanes_run.inv_step by (cases rule: power_step.cases) (auto simp: power_changed_def)
qed

text \<open>The three counts of an intent, which a token shows, and their order.\<close>

definition intent_le :: "power_kind \<Rightarrow> string \<Rightarrow> resource_power \<Rightarrow> resource_power \<Rightarrow> bool" where
  "intent_le kind i s t \<longleftrightarrow>
     intents_current (rp_intents s) kind i \<le> intents_current (rp_intents t) kind i \<and>
     exclusive_generation (rp_lanes s) (resource_lane_key kind i) \<le>
       exclusive_generation (rp_lanes t) (resource_lane_key kind i) \<and>
     replacements_of s kind i \<le> replacements_of t kind i"

lemma intent_le_refl [simp]: "intent_le kind i s s"
  by (simp add: intent_le_def)

lemma intent_le_trans: "intent_le kind i s t \<Longrightarrow> intent_le kind i t u \<Longrightarrow> intent_le kind i s u"
  by (auto simp: intent_le_def)

lemma intent_le_antisym: "intent_le kind i s t \<Longrightarrow> intent_le kind i t s \<Longrightarrow> intent s kind i = intent t kind i"
  by (auto simp: intent_le_def intent_eq_iff)

lemma intent_eq_le: "intent s kind i = intent t kind i \<Longrightarrow> intent_le kind i s t"
  by (simp add: intent_eq_iff intent_le_def)

lemma power_step_le:
  assumes "power_step s t" and "lanes_ok (rp_lanes s)"
  shows "intent_le kind i s t"
  using assms
proof (cases rule: power_step.cases)
  case (power_lanes lanes)
  with step_generation [OF power_lanes(2) assms(2)] show ?thesis
    by (simp add: intent_le_def replacements_of_def)
qed (simp_all add: intent_le_def power_changed_def intents_current_advance replacements_of_def)

lemma power_steps_le: "power_step\<^sup>*\<^sup>* s t \<Longrightarrow> lanes_ok (rp_lanes s) \<Longrightarrow> intent_le kind i s t \<and> lanes_ok (rp_lanes t)"
  by (induction rule: rtranclp_induct) (auto intro: power_step_le intent_le_trans power_run.inv_step)

text \<open>A person's power change moves the resource's intent and no other; so does the start of an
  operation that replaces the resource, and nothing else in the lanes. A power change's own
  locks never replace it, so a schedule's step doesn't move the intent for the steps after it.\<close>

lemma intent_moves:
  assumes "reach (power_start opts replacements) power_step s"
  shows "(intent (power_changed kind i s) kind' i' \<noteq> intent s kind' i' \<longleftrightarrow> kind' = kind \<and> i' = i) \<and>
    (lanes_step (rp_lanes s) lanes \<longrightarrow>
      (intent (s\<lparr>rp_lanes := lanes\<rparr>) kind i \<noteq> intent s kind i \<longleftrightarrow>
        (\<exists>w. starts_holding (rp_lanes s) lanes (resource_lane_key kind i) w))) \<and>
    exclusive (resource_lane_key kind i) \<notin> set (normalize_locks (resource_power_locks kind i action))"
proof (intro conjI impI)
  show "intent (power_changed kind i s) kind' i' \<noteq> intent s kind' i' \<longleftrightarrow> kind' = kind \<and> i' = i"
    by (simp add: intent_eq_iff power_changed_def intents_current_advance replacements_of_def)
  show "intent (s\<lparr>rp_lanes := lanes\<rparr>) kind i \<noteq> intent s kind i \<longleftrightarrow>
      (\<exists>w. starts_holding (rp_lanes s) lanes (resource_lane_key kind i) w)"
    if "lanes_step (rp_lanes s) lanes"
    using step_generation [OF that power_run.inv_reach [OF assms], of "resource_lane_key kind i"]
    by (simp add: intent_eq_iff replacements_of_def)
  have "exclusive (resource_lane_key kind i) \<notin> set (resource_power_locks kind i action)"
    by (cases kind) (auto simp: resource_power_locks_def resource_lane_key_def instance_power_locks_def
        instance_start_locks_def instance_lifecycle_locks_def app_lifecycle_locks_def database_lifecycle_locks_def
        lane_key_defs exclusive_def shared_def)
  then show "exclusive (resource_lane_key kind i) \<notin> set (normalize_locks (resource_power_locks kind i action))"
    by (auto simp: set_normalize_locks strongest_def exclusive_def split: if_splits)
qed

definition demo_options :: lanes_options where
  "demo_options = \<lparr>opt_max_waiting = None, opt_busy = None, opt_paused = None\<rparr>"

lemma intent_moves_example:
  "intent (power_changed PApp ''a1'' (power_start demo_options (\<lambda>_. None))) PApp ''a1''
     \<noteq> intent (power_start demo_options (\<lambda>_. None)) PApp ''a1''"
  using intent_moves [where opts = demo_options and replacements = "\<lambda>_. None" and s = "power_start demo_options (\<lambda>_. None)"
      and kind = PApp and i = "''a1''" and kind' = PApp and i' = "''a1''", OF reach_init]
  by simp


text \<open>A power action holds the App as the schedule's step is admitted and waits.\<close>

definition demo_power :: resource_power where
  "demo_power = power_start demo_options (\<lambda>_. None)"

definition demo_acting :: resource_power where
  "demo_acting = demo_power\<lparr>rp_lanes := fst (lanes_admit (power_env (\<lambda>_ _. None) demo_power)
     \<lparr>ad_label = ''app.action'', ad_locks = Some (resource_power_locks PApp ''a1'' ''stop''), ad_precondition = None,
      ad_continuation = False, ad_when_busy = None, ad_carries_on = False\<rparr> False (rp_lanes demo_power))\<rparr>"

definition demo_scheduled :: resource_power where
  "demo_scheduled = demo_acting\<lparr>rp_lanes := fst (lanes_admit (power_env (\<lambda>_ _. None) demo_acting)
     (scheduled_admission PApp ''a1'' (intent demo_power PApp ''a1'') (resource_power_locks PApp ''a1'' ''start''))
     False (rp_lanes demo_acting))\<rparr>"

lemma demo_scheduled_steps: "power_step\<^sup>*\<^sup>* demo_power demo_scheduled"
proof -
  have "power_step demo_power demo_acting" unfolding demo_acting_def by (intro power_lanes step_admit)
  moreover have "power_step demo_acting demo_scheduled" unfolding demo_scheduled_def by (intro power_lanes step_admit)
  ultimately show ?thesis by (meson r_into_rtranclp rtranclp_trans)
qed

lemma demo_scheduled_waits:
  "w_precondition (l_objs (rp_lanes demo_scheduled) 1) =
     Some \<lparr>pp_kind = PApp, pp_id = ''a1'', pp_intent = intent demo_power PApp ''a1''\<rparr>"
  "w_state (l_objs (rp_lanes demo_scheduled) 1) = SWaiting"
  by code_simp+


end
