(* ===== verification/Transfer_Gate.thy ===== *)
theory Transfer_Gate
  imports Prelude
begin

text \<open>
  \<open>apps/relay/src/transfers/gate.ts\<close>: how many transfers of each kind the Relay serves at once,
  in total and for each principal. \<open>acquireRelease\<close> runs the release exactly once, when the
  scope of an admitted transfer closes; the steps below keep the permits that are held.
\<close>

section \<open>The gate\<close>

datatype transfer_pool = PoolBackup | PoolBrowser | PoolPeer

record transfer_pool_limits =
  tl_total :: nat
  tl_per_principal :: nat

definition default_transfer_pool_limits :: "transfer_pool \<Rightarrow> transfer_pool_limits" where
  "default_transfer_pool_limits pool =
     (case pool of
        PoolBrowser \<Rightarrow> \<lparr>tl_total = 32, tl_per_principal = 8\<rparr>
      | PoolBackup \<Rightarrow> \<lparr>tl_total = 4, tl_per_principal = 4\<rparr>
      | PoolPeer \<Rightarrow> \<lparr>tl_total = 8, tl_per_principal = 4\<rparr>)"

record pool_state =
  ps_active :: int
  ps_by_principal :: "(string \<times> int) list"
  ps_limits :: transfer_pool_limits

type_synonym transfer_gate = "transfer_pool \<Rightarrow> pool_state"

definition new_transfer_gate :: "(transfer_pool \<Rightarrow> transfer_pool_limits) \<Rightarrow> transfer_gate" where
  "new_transfer_gate limits = (\<lambda>pool. \<lparr>ps_active = 0, ps_by_principal = [], ps_limits = limits pool\<rparr>)"

definition gate_active :: "transfer_pool option \<Rightarrow> transfer_gate \<Rightarrow> int" where
  "gate_active pool g =
     (case pool of
        Some p \<Rightarrow> ps_active (g p)
      | None \<Rightarrow> sum_list (map (\<lambda>p. ps_active (g p)) [PoolBackup, PoolBrowser, PoolPeer]))"

record transfer_rejected =
  tx_status :: nat
  tx_reason :: string

definition capacity_reached :: "transfer_pool \<Rightarrow> transfer_rejected" where
  "capacity_reached pool = \<lparr>tx_status = 429, tx_reason =
     (case pool of
        PoolBackup \<Rightarrow> ''Relay backup download capacity reached''
      | PoolPeer \<Rightarrow> ''Relay transfer capacity reached''
      | PoolBrowser \<Rightarrow> ''Relay file transfer capacity reached'')\<rparr>"

definition held_by :: "string \<Rightarrow> pool_state \<Rightarrow> int" where
  "held_by who s = (case map_of (ps_by_principal s) who of None \<Rightarrow> 0 | Some n \<Rightarrow> n)"

definition gate_admit :: "transfer_pool \<Rightarrow> string \<Rightarrow> transfer_gate \<Rightarrow> (transfer_rejected + unit) \<times> transfer_gate" where
  "gate_admit pool who g =
     (let s = g pool; held = held_by who s in
      if ps_active s \<ge> int (tl_total (ps_limits s)) \<or> held \<ge> int (tl_per_principal (ps_limits s))
      then (Inl (capacity_reached pool), g)
      else (Inr (), g(pool := s\<lparr>ps_active := ps_active s + 1,
              ps_by_principal := AList.update who (held + 1) (ps_by_principal s)\<rparr>)))"

definition gate_release :: "transfer_pool \<Rightarrow> string \<Rightarrow> transfer_gate \<Rightarrow> transfer_gate" where
  "gate_release pool who g =
     (let s = g pool;
          remaining = (case map_of (ps_by_principal s) who of None \<Rightarrow> 1 | Some n \<Rightarrow> n) - 1
      in g(pool := s\<lparr>ps_active := ps_active s - 1,
           ps_by_principal := (if remaining > 0 then AList.update who remaining (ps_by_principal s)
                               else AList.delete who (ps_by_principal s))\<rparr>))"

section \<open>Permits\<close>

type_synonym permits = "(transfer_pool \<times> string) multiset"

inductive gate_step :: "transfer_gate \<times> permits \<Rightarrow> transfer_gate \<times> permits \<Rightarrow> bool" where
  gate_admitted: "gate_admit pool who g = (Inr (), g') \<Longrightarrow> gate_step (g, held) (g', add_mset (pool, who) held)"
| gate_refused: "gate_admit pool who g = (Inl e, g') \<Longrightarrow> gate_step (g, held) (g', held)"
| gate_closed: "(pool, who) \<in># held \<Longrightarrow>
    gate_step (g, held) (gate_release pool who g, held - {#(pool, who)#})"

text \<open>The counts are those of the permits, and within the limits.\<close>

definition pool_ok :: "transfer_pool_limits \<Rightarrow> pool_state \<Rightarrow> transfer_pool \<Rightarrow> permits \<Rightarrow> bool" where
  "pool_ok limits s pool held \<longleftrightarrow>
     ps_limits s = limits \<and>
     ps_active s = int (size (filter_mset (\<lambda>x. fst x = pool) held)) \<and>
     ps_active s \<le> int (tl_total limits) \<and>
     (\<forall>who. held_by who s = int (count held (pool, who)) \<and>
        count held (pool, who) \<le> tl_per_principal limits \<and>
        (map_of (ps_by_principal s) who \<noteq> None \<longrightarrow> 0 < count held (pool, who)))"

definition gate_inv :: "(transfer_pool \<Rightarrow> transfer_pool_limits) \<Rightarrow> transfer_gate \<times> permits \<Rightarrow> bool" where
  "gate_inv limits s \<longleftrightarrow> (\<forall>pool. pool_ok (limits pool) (fst s pool) pool (snd s))"

lemma gate_invD: "gate_inv limits (g, held) \<Longrightarrow> pool_ok (limits pool) (g pool) pool held"
  by (simp add: gate_inv_def)

text \<open>A permit of one pool leaves the others as they are.\<close>

lemma pool_ok_other:
  assumes "fst x \<noteq> pool"
  shows "pool_ok limits s pool (add_mset x held) \<longleftrightarrow> pool_ok limits s pool held"
    and "pool_ok limits s pool (held - {#x#}) \<longleftrightarrow> pool_ok limits s pool held"
proof -
  have "x \<noteq> (pool, who)" for who using assms by auto
  with assms show "pool_ok limits s pool (add_mset x held) \<longleftrightarrow> pool_ok limits s pool held"
    "pool_ok limits s pool (held - {#x#}) \<longleftrightarrow> pool_ok limits s pool held"
    by (simp_all add: pool_ok_def filter_diff_mset)
qed

lemma held_by_cases: "map_of (ps_by_principal s) who = (if held_by who s = 0 then map_of (ps_by_principal s) who else Some (held_by who s))"
  by (auto simp: held_by_def split: option.splits)

lemma gate_admit_inv:
  assumes inv: "gate_inv limits (g, held)" and admit: "gate_admit pool who g = (Inr (), g')"
  shows "gate_inv limits (g', add_mset (pool, who) held)"
proof -
  let ?s = "g pool"
  from admit have room: "ps_active ?s < int (tl_total (ps_limits ?s))"
      "held_by who ?s < int (tl_per_principal (ps_limits ?s))"
    and g': "g' = g(pool := ?s\<lparr>ps_active := ps_active ?s + 1,
        ps_by_principal := AList.update who (held_by who ?s + 1) (ps_by_principal ?s)\<rparr>)"
    by (auto simp: gate_admit_def Let_def split: if_splits)
  have "pool_ok (limits pool) (g' pool) pool (add_mset (pool, who) held)"
    using gate_invD [OF inv, of pool] room
    unfolding pool_ok_def g' held_by_def by auto
  with gate_invD [OF inv] show ?thesis
    by (auto simp: gate_inv_def g' pool_ok_other)
qed

lemma gate_release_inv:
  assumes inv: "gate_inv limits (g, held)" and permit: "(pool, who) \<in># held"
  shows "gate_inv limits (gate_release pool who g, held - {#(pool, who)#})"
proof -
  let ?s = "g pool" and ?rest = "held - {#(pool, who)#}"
  have held: "held = add_mset (pool, who) ?rest" using permit by simp
  note ok = gate_invD [OF inv, of pool]
  have "held_by who ?s = int (Suc (count ?rest (pool, who)))"
    using ok unfolding pool_ok_def by (subst (asm) held) auto
  then have entry: "map_of (ps_by_principal ?s) who = Some (int (count ?rest (pool, who)) + 1)"
    using held_by_cases [of ?s who] by simp
  have "pool_ok (limits pool) (gate_release pool who g pool) pool ?rest"
  proof -
    have active: "ps_active (gate_release pool who g pool) = ps_active ?s - 1"
      and limits: "ps_limits (gate_release pool who g pool) = ps_limits ?s"
      and map: "map_of (ps_by_principal (gate_release pool who g pool)) =
        (map_of (ps_by_principal ?s))(who := if 0 < count ?rest (pool, who) then Some (int (count ?rest (pool, who))) else None)"
      by (simp_all add: gate_release_def Let_def entry)
    have mine: "held_by q (gate_release pool who g pool) = int (count ?rest (pool, q)) \<and>
        count ?rest (pool, q) \<le> tl_per_principal (limits pool) \<and>
        (map_of (ps_by_principal (gate_release pool who g pool)) q \<noteq> None \<longrightarrow> 0 < count ?rest (pool, q))" for q
    proof -
      from ok have q: "held_by q ?s = int (count held (pool, q))" "count held (pool, q) \<le> tl_per_principal (limits pool)"
        "map_of (ps_by_principal ?s) q \<noteq> None \<longrightarrow> 0 < count held (pool, q)"
        by (auto simp: pool_ok_def)
      show ?thesis
        by (cases "q = who") (use q in \<open>auto simp: held_by_def map simp flip: count_greater_zero_iff\<close>)
    qed
    have "size (filter_mset (\<lambda>x. fst x = pool) held) = Suc (size (filter_mset (\<lambda>x. fst x = pool) ?rest))"
      by (subst held) simp
    with ok mine show ?thesis by (simp add: pool_ok_def active limits)
  qed
  with gate_invD [OF inv] show ?thesis
    by (auto simp: gate_inv_def gate_release_def Let_def pool_ok_other)
qed

interpretation gate_run: invariant_system "(new_transfer_gate limits, {#})" gate_step "gate_inv limits"
proof
  show "gate_inv limits (new_transfer_gate limits, {#})"
    by (simp add: gate_inv_def pool_ok_def new_transfer_gate_def held_by_def)
  show "gate_inv limits t" if "gate_inv limits s" "gate_step s t" for s t
    using that(2,1)
  proof (cases rule: gate_step.cases)
    case (gate_refused pool who g e g' held)
    then show ?thesis using that(1) by (auto simp: gate_admit_def Let_def split: if_splits)
  qed (auto intro: gate_admit_inv gate_release_inv)
qed

text \<open>C20: The gate never serves more transfers of a kind than the pool holds, nor more for one
  principal than its share; it refuses a transfer only when one of the two is full, and a
  permit returned makes room: after every transfer has ended nothing is held.\<close>

theorem transfer_gate_bounds:
  assumes "reach (new_transfer_gate limits, {#}) gate_step (g, held)"
  shows "size (filter_mset (\<lambda>x. fst x = pool) held) \<le> tl_total (limits pool) \<and>
    count held (pool, who) \<le> tl_per_principal (limits pool) \<and>
    ((\<exists>e g'. gate_admit pool who g = (Inl e, g')) \<longleftrightarrow>
       size (filter_mset (\<lambda>x. fst x = pool) held) = tl_total (limits pool) \<or>
       count held (pool, who) = tl_per_principal (limits pool)) \<and>
    (held = {#} \<longrightarrow> gate_active None g = 0 \<and> ps_by_principal (g pool) = [])"
proof -
  have inv: "gate_inv limits (g, held)" by (rule gate_run.inv_reach [OF assms])
  have ok: "pool_ok (limits p) (g p) p held" for p by (rule gate_invD [OF inv])
  from ok [of pool] have counts: "ps_limits (g pool) = limits pool"
    "ps_active (g pool) = int (size (filter_mset (\<lambda>x. fst x = pool) held))"
    "size (filter_mset (\<lambda>x. fst x = pool) held) \<le> tl_total (limits pool)"
    "held_by who (g pool) = int (count held (pool, who))"
    "count held (pool, who) \<le> tl_per_principal (limits pool)"
    by (auto simp: pool_ok_def)
  then have "(\<exists>e g'. gate_admit pool who g = (Inl e, g')) \<longleftrightarrow>
      size (filter_mset (\<lambda>x. fst x = pool) held) = tl_total (limits pool) \<or>
      count held (pool, who) = tl_per_principal (limits pool)"
    by (auto simp: gate_admit_def Let_def)
  moreover have "ps_by_principal (g pool) = []" if "held = {#}"
  proof -
    have "map_of (ps_by_principal (g pool)) p = None" for p
      using ok [of pool] that by (auto simp: pool_ok_def)
    then have "map_of (ps_by_principal (g pool)) = Map.empty" by (rule ext)
    then show ?thesis by simp
  qed
  moreover have "gate_active None g = 0" if "held = {#}"
    using ok that by (simp add: pool_ok_def gate_active_def)
  ultimately show ?thesis using counts(3,5) by blast
qed

theorem transfer_gate_bounds_witness:
  "\<exists>e g'. gate_admit PoolPeer ''relay'' (new_transfer_gate (\<lambda>_. \<lparr>tl_total = 0, tl_per_principal = 4\<rparr>)) = (Inl e, g')"
  using transfer_gate_bounds [where limits = "\<lambda>_. \<lparr>tl_total = 0, tl_per_principal = 4\<rparr>" and pool = PoolPeer
      and who = "''relay''", OF reach_init]
  by simp

end
