(* ===== verification/Js_Text.thy ===== *)
theory Js_Text
  imports Prelude "HOL-Library.Word"
begin

text \<open>
  Text as JavaScript has it and as it leaves the process: a string is its UTF-16 code units, and
  \<open>Buffer.from(s, "utf8")\<close>, \<open>Buffer.byteLength(s)\<close> and a fatal \<open>TextDecoder\<close> go to UTF-8
  and back. A lone surrogate is written as U+FFFD; the decoder refuses anything but shortest
  forms of scalar values and drops a byte order mark at the start.
\<close>

type_synonym byte = "8 word"
type_synonym code_units = "16 word list"

definition byte_of :: "nat \<Rightarrow> byte" where
  "byte_of n = word_of_nat n"

definition unit_of :: "nat \<Rightarrow> 16 word" where
  "unit_of n = word_of_nat n"

lemma unat_byte_of [simp]: "n < 256 \<Longrightarrow> unat (byte_of n) = n"
  by (simp add: byte_of_def unat_of_nat)

lemma unat_unit_of [simp]: "n < 65536 \<Longrightarrow> unat (unit_of n) = n"
  by (simp add: unit_of_def unat_of_nat)

lemma byte_of_unat [simp]: "byte_of (unat b) = b"
  by (simp add: byte_of_def)

lemma unit_of_unat [simp]: "unit_of (unat u) = u"
  by (simp add: unit_of_def)

lemma unat_byte_less: "unat (b :: byte) < 256"
  using unsigned_less [of b] by simp

lemma unat_unit_less: "unat (u :: 16 word) < 65536"
  using unsigned_less [of u] by simp

section \<open>Code points\<close>

definition high_surrogate :: "nat \<Rightarrow> bool" where
  "high_surrogate u \<longleftrightarrow> 55296 \<le> u \<and> u < 56320"

definition low_surrogate :: "nat \<Rightarrow> bool" where
  "low_surrogate u \<longleftrightarrow> 56320 \<le> u \<and> u < 57344"

definition scalar :: "nat \<Rightarrow> bool" where
  "scalar c \<longleftrightarrow> c < 55296 \<or> 57344 \<le> c \<and> c < 1114112"

definition unit_point :: "nat \<Rightarrow> nat" where
  "unit_point u = (if high_surrogate u \<or> low_surrogate u then 65533 else u)"

fun code_points :: "code_units \<Rightarrow> nat list" where
  "code_points [] = []"
| "code_points [u] = [unit_point (unat u)]"
| "code_points (u # v # us) =
     (if high_surrogate (unat u) \<and> low_surrogate (unat v)
      then (65536 + (unat u - 55296) * 1024 + (unat v - 56320)) # code_points us
      else unit_point (unat u) # code_points (v # us))"

definition point_units :: "nat \<Rightarrow> code_units" where
  "point_units c =
     (if c < 65536 then [unit_of c]
      else [unit_of (55296 + (c - 65536) div 1024), unit_of (56320 + (c - 65536) mod 1024)])"

definition units_of_points :: "nat list \<Rightarrow> code_units" where
  "units_of_points cs = concat (map point_units cs)"

section \<open>UTF-8\<close>

definition utf8_point :: "nat \<Rightarrow> byte list" where
  "utf8_point c =
     (if c < 128 then [byte_of c]
      else if c < 2048 then [byte_of (192 + c div 64), byte_of (128 + c mod 64)]
      else if c < 65536
      then [byte_of (224 + c div 4096), byte_of (128 + c div 64 mod 64), byte_of (128 + c mod 64)]
      else [byte_of (240 + c div 262144), byte_of (128 + c div 4096 mod 64),
            byte_of (128 + c div 64 mod 64), byte_of (128 + c mod 64)])"

definition utf8_encode :: "code_units \<Rightarrow> byte list" where
  "utf8_encode us = concat (map utf8_point (code_points us))"

definition byte_length :: "code_units \<Rightarrow> nat" where
  "byte_length us = length (utf8_encode us)"

text \<open>A continuation byte within bounds, and the six bits it carries.\<close>

definition continues :: "nat \<Rightarrow> nat \<Rightarrow> byte \<Rightarrow> bool" where
  "continues lo hi b \<longleftrightarrow> lo \<le> unat b \<and> unat b \<le> hi"

definition six_bits :: "byte \<Rightarrow> nat" where
  "six_bits b = unat b - 128"

fun utf8_points :: "byte list \<Rightarrow> nat list option" where
  "utf8_points [] = Some []"
| "utf8_points (a # bs) =
     (let n = unat a in
      if n < 128 then map_option (Cons n) (utf8_points bs)
      else if 194 \<le> n \<and> n \<le> 223 then
        (case bs of
           b # rest \<Rightarrow>
             if continues 128 191 b
             then map_option (Cons ((n - 192) * 64 + six_bits b)) (utf8_points rest) else None
         | _ \<Rightarrow> None)
      else if 224 \<le> n \<and> n \<le> 239 then
        (case bs of
           b # c # rest \<Rightarrow>
             if continues (if n = 224 then 160 else 128) (if n = 237 then 159 else 191) b \<and> continues 128 191 c
             then map_option (Cons ((n - 224) * 4096 + six_bits b * 64 + six_bits c)) (utf8_points rest) else None
         | _ \<Rightarrow> None)
      else if 240 \<le> n \<and> n \<le> 244 then
        (case bs of
           b # c # d # rest \<Rightarrow>
             if continues (if n = 240 then 144 else 128) (if n = 244 then 143 else 191) b \<and>
                continues 128 191 c \<and> continues 128 191 d
             then map_option (Cons ((n - 240) * 262144 + six_bits b * 4096 + six_bits c * 64 + six_bits d)) (utf8_points rest)
             else None
         | _ \<Rightarrow> None)
      else None)"

definition drop_bom :: "nat list \<Rightarrow> nat list" where
  "drop_bom cs = (case cs of c # rest \<Rightarrow> if c = 65279 then rest else cs | [] \<Rightarrow> [])"

definition utf8_decode :: "byte list \<Rightarrow> code_units option" where
  "utf8_decode bs = map_option (units_of_points \<circ> drop_bom) (utf8_points bs)"

section \<open>Laws\<close>

lemma unit_point_scalar: "scalar (unit_point (unat (u :: 16 word)))"
  using unat_unit_less [of u] by (auto simp: scalar_def unit_point_def high_surrogate_def low_surrogate_def)

lemma code_points_scalar: "c \<in> set (code_points us) \<Longrightarrow> scalar c"
proof (induction us rule: code_points.induct)
  case (3 u v us)
  then show ?case
    by (auto simp: unit_point_scalar split: if_splits)
      (auto simp: scalar_def high_surrogate_def low_surrogate_def)
qed (auto simp: unit_point_scalar)

lemma horner64: "a = b * 64 + r \<Longrightarrow> b = d * 64 + s \<Longrightarrow> d = e * 64 + t \<Longrightarrow> e * 262144 + t * 4096 + s * 64 + r = (a :: nat)"
  by simp

lemma utf8_point_decodes:
  assumes "scalar c"
  shows "utf8_points (utf8_point c @ rest) = map_option (Cons c) (utf8_points rest)"
proof -
  consider "c < 128" | "128 \<le> c" "c < 2048" | "2048 \<le> c" "c < 65536" | "65536 \<le> c" "c < 1114112"
    using assms unfolding scalar_def by linarith
  then show ?thesis
  proof cases
    case 1
    then show ?thesis by (simp add: utf8_point_def)
  next
    case 2
    then have "c div 64 < 32" "2 \<le> c div 64" "c mod 64 \<le> 63" by auto
    with 2 show ?thesis
      by (simp add: utf8_point_def continues_def six_bits_def Let_def)
  next
    case 3
    then have d: "c div 4096 < 16" by auto
    have b: "c div 64 mod 64 < 64" "c mod 64 < 64" by simp_all
    have lo: "c div 4096 = 0 \<Longrightarrow> 32 \<le> c div 64 mod 64" using 3 by auto
    have hi: "c div 64 mod 64 \<le> 31" if "c div 4096 = 13"
    proof -
      have "c < 55296" using assms 3 that unfolding scalar_def by auto
      then have "c div 64 < 864" by auto
      moreover have "c div 64 = c div 64 div 64 * 64 + c div 64 mod 64" by simp
      moreover have "c div 64 div 64 = 13" using that by (simp add: div_mult2_eq [symmetric])
      ultimately show ?thesis by linarith
    qed
    have "c div 4096 = c div 64 div 64" by (simp add: div_mult2_eq [symmetric])
    then have "c div 4096 * 4096 + c div 64 mod 64 * 64 + c mod 64 = c"
      using div_mult_mod_eq [of "c div 64" 64] div_mult_mod_eq [of c 64] by linarith
    moreover define p q r where "p = c div 4096" and "q = c div 64 mod 64" and "r = c mod 64"
    ultimately have "p < 16" "q < 64" "r < 64" "p = 0 \<Longrightarrow> 32 \<le> q" "p = 13 \<Longrightarrow> q \<le> 31" "p * 4096 + q * 64 + r = c"
      and u: "utf8_point c = [byte_of (224 + p), byte_of (128 + q), byte_of (128 + r)]"
      using d b lo hi 3 by (simp_all add: utf8_point_def)
    then show ?thesis
      unfolding u by (simp add: continues_def six_bits_def Let_def)
  next
    case 4
    define p q r t where "p = c div 262144" and "q = c div 4096 mod 64" and "r = c div 64 mod 64" and "t = c mod 64"
    have mid: "c div 4096 = c div 64 div 64" "c div 262144 = c div 64 div 64 div 64"
      by (simp_all add: div_mult2_eq [symmetric])
    have c: "p * 262144 + q * 4096 + r * 64 + t = c"
      unfolding p_def q_def r_def t_def mid by (rule horner64) simp_all
    have small: "q < 64" "r < 64" "t < 64" by (simp_all add: q_def r_def t_def)
    from c small 4 have "p \<le> 4" "p = 0 \<Longrightarrow> 16 \<le> q" "p = 4 \<Longrightarrow> q \<le> 15" by linarith+
    moreover have u: "utf8_point c = [byte_of (240 + p), byte_of (128 + q), byte_of (128 + r), byte_of (128 + t)]"
      using 4 by (simp add: utf8_point_def p_def q_def r_def t_def)
    ultimately show ?thesis
      unfolding u using c small by (simp add: continues_def six_bits_def Let_def)
  qed
qed

lemma utf8_points_encode:
  "(\<And>c. c \<in> set cs \<Longrightarrow> scalar c) \<Longrightarrow> utf8_points (concat (map utf8_point cs)) = Some cs"
  by (induction cs) (simp_all add: utf8_point_decodes)

lemma utf8_points_of_encode: "utf8_points (utf8_encode us) = Some (code_points us)"
  by (simp add: utf8_encode_def utf8_points_encode code_points_scalar)

text \<open>What decodes is made of scalar values in their only form, so encoding gives the bytes back.\<close>

lemma continues_bound: "continues 128 191 b \<Longrightarrow> six_bits b < 64 \<and> byte_of (128 + six_bits b) = b"
proof -
  assume "continues 128 191 b"
  then have "128 \<le> unat b" "unat b \<le> 191" by (simp_all add: continues_def)
  then show ?thesis by (simp add: six_bits_def)
qed

lemma continues_weaken: "continues lo hi b \<Longrightarrow> 128 \<le> lo \<Longrightarrow> hi \<le> 191 \<Longrightarrow> continues 128 191 b"
  by (simp add: continues_def)

lemma digit64: "x < 64 \<Longrightarrow> (a * 64 + x) mod 64 = x" "x < 64 \<Longrightarrow> (a * 64 + x) div 64 = (a :: nat)"
  by simp_all

lemma two_bytes:
  assumes "194 \<le> n" "n \<le> 223" "continues 128 191 b" "c = (n - 192) * 64 + six_bits b"
  shows "scalar c \<and> utf8_point c = [byte_of n, b]"
proof -
  note b = continues_bound [OF assms(3)]
  have "c div 64 = n - 192" "c mod 64 = six_bits b" "128 \<le> c" "c < 2048" using b assms by auto
  with b assms(1,2) show ?thesis by (simp add: utf8_point_def scalar_def)
qed

lemma three_bytes:
  assumes "224 \<le> n" "n \<le> 239" "continues (if n = 224 then 160 else 128) (if n = 237 then 159 else 191) b"
    "continues 128 191 d" "c = (n - 224) * 4096 + six_bits b * 64 + six_bits d"
  shows "scalar c \<and> utf8_point c = [byte_of n, b, d]"
proof -
  have "continues 128 191 b" by (rule continues_weaken [OF assms(3)]) auto
  note b = continues_bound [OF this] and d = continues_bound [OF assms(4)]
  define k where "k = n - 224"
  have k: "n = 224 + k" "k < 16" using assms(1,2) by (auto simp: k_def)
  have c: "c = k * 4096 + six_bits b * 64 + six_bits d" using assms(5) by (simp add: k)
  have lo: "k = 0 \<Longrightarrow> 32 \<le> six_bits b" and hi: "k = 13 \<Longrightarrow> six_bits b < 32"
    using assms(3) b by (auto simp: k continues_def six_bits_def)
  have digits: "c div 4096 = k" "c div 64 mod 64 = six_bits b" "c mod 64 = six_bits d"
  proof -
    have h: "c = (k * 64 + six_bits b) * 64 + six_bits d" by (simp add: c)
    have low: "c mod 64 = six_bits d" "c div 64 = k * 64 + six_bits b" using d by (simp_all only: h digit64)
    then show "c mod 64 = six_bits d" "c div 64 mod 64 = six_bits b" using b by (simp_all add: digit64)
    have "c div 4096 = c div 64 div 64" by (simp add: div_mult2_eq [symmetric])
    then show "c div 4096 = k" using low b by (simp add: digit64)
  qed
  have "2048 \<le> c" using lo unfolding c by (cases "k = 0") auto
  moreover have "c < 65536" using b d k(2) unfolding c by linarith
  moreover have "scalar c"
  proof (cases "k \<le> 12")
    case True
    then show ?thesis using b d unfolding c scalar_def by linarith
  next
    case False
    then show ?thesis using b d hi k(2) unfolding c scalar_def by (cases "k = 13") auto
  qed
  ultimately show ?thesis using b d k by (simp add: utf8_point_def digits)
qed

lemma four_bytes:
  assumes "240 \<le> n" "n \<le> 244" "continues (if n = 240 then 144 else 128) (if n = 244 then 143 else 191) b"
    "continues 128 191 d" "continues 128 191 e"
    "c = (n - 240) * 262144 + six_bits b * 4096 + six_bits d * 64 + six_bits e"
  shows "scalar c \<and> utf8_point c = [byte_of n, b, d, e]"
proof -
  have "continues 128 191 b" by (rule continues_weaken [OF assms(3)]) auto
  note b = continues_bound [OF this] and d = continues_bound [OF assms(4)] and e = continues_bound [OF assms(5)]
  define k where "k = n - 240"
  have k: "n = 240 + k" "k \<le> 4" using assms(1,2) by (auto simp: k_def)
  have c: "c = k * 262144 + six_bits b * 4096 + six_bits d * 64 + six_bits e" using assms(6) by (simp add: k)
  have lo: "k = 0 \<Longrightarrow> 16 \<le> six_bits b" and hi: "k = 4 \<Longrightarrow> six_bits b < 16"
    using assms(3) b by (auto simp: k continues_def six_bits_def)
  have digits: "c div 262144 = k" "c div 4096 mod 64 = six_bits b" "c div 64 mod 64 = six_bits d" "c mod 64 = six_bits e"
  proof -
    have h: "c = ((k * 64 + six_bits b) * 64 + six_bits d) * 64 + six_bits e" by (simp add: c)
    have low: "c mod 64 = six_bits e" "c div 64 = (k * 64 + six_bits b) * 64 + six_bits d"
      using e by (simp_all only: h digit64)
    have mid: "c div 4096 = c div 64 div 64" "c div 262144 = c div 64 div 64 div 64"
      by (simp_all add: div_mult2_eq [symmetric])
    show "c div 262144 = k" "c div 4096 mod 64 = six_bits b" "c div 64 mod 64 = six_bits d" "c mod 64 = six_bits e"
      unfolding mid low using b d by (simp_all only: digit64)
  qed
  have "65536 \<le> c" using lo unfolding c by (cases "k = 0") auto
  moreover have "c < 1114112"
  proof (cases "k = 4")
    case True
    then show ?thesis using b d e hi unfolding c by auto
  next
    case False
    then show ?thesis using b d e k(2) unfolding c by linarith
  qed
  ultimately show ?thesis using b d e k by (simp add: utf8_point_def digits scalar_def)
qed

lemma utf8_points_sound:
  "utf8_points bs = Some cs \<Longrightarrow> concat (map utf8_point cs) = bs \<and> (\<forall>c\<in>set cs. scalar c)"
proof (induction bs arbitrary: cs rule: utf8_points.induct)
  case (2 a bs)
  let ?n = "unat a"
  note res = 2(5)
  consider "?n < 128" | "194 \<le> ?n" "?n \<le> 223" | "224 \<le> ?n" "?n \<le> 239" | "240 \<le> ?n" "?n \<le> 244"
    using res by (auto simp: Let_def split: if_splits)
  then show ?case
  proof cases
    case 1
    with res obtain r where r: "utf8_points bs = Some r" "cs = ?n # r" by (auto simp: Let_def)
    with 2(1) [OF refl 1 r(1)] 1 show ?thesis by (simp add: utf8_point_def scalar_def)
  next
    case n: 2
    with res obtain b rest r where
      r: "bs = b # rest" "continues 128 191 b" "utf8_points rest = Some r" "cs = ((?n - 192) * 64 + six_bits b) # r"
      by (auto simp: Let_def split: list.splits if_splits)
    from 2(2) [OF refl _ _ r(1,2,3)] n two_bytes [OF n r(2) refl] r(1,4) show ?thesis by simp
  next
    case n: 3
    with res obtain b d rest r where
      r: "bs = b # d # rest" "continues (if ?n = 224 then 160 else 128) (if ?n = 237 then 159 else 191) b"
        "continues 128 191 d" "utf8_points rest = Some r" "cs = ((?n - 224) * 4096 + six_bits b * 64 + six_bits d) # r"
      by (auto simp: Let_def split: list.splits if_splits)
    from 2(3) [OF refl _ _ _ r(1) refl _ r(4)] n three_bytes [OF n r(2,3) refl] r(1,2,3,5) show ?thesis by simp
  next
    case n: 4
    with res obtain b d e rest r where
      r: "bs = b # d # e # rest" "continues (if ?n = 240 then 144 else 128) (if ?n = 244 then 143 else 191) b"
        "continues 128 191 d" "continues 128 191 e" "utf8_points rest = Some r"
        "cs = ((?n - 240) * 262144 + six_bits b * 4096 + six_bits d * 64 + six_bits e) # r"
      by (auto simp: Let_def split: list.splits if_splits)
    from 2(4) [OF refl _ _ _ _ r(1) refl refl _ r(5)] n four_bytes [OF n r(2,3,4) refl] r(1,2,3,4,6) show ?thesis by simp
  qed
qed simp

section \<open>Back to code units\<close>

lemma point_units_code_points:
  assumes "scalar c"
  shows "code_points (point_units c @ us) = c # code_points us"
proof (cases "c < 65536")
  case True
  then have c: "\<not> high_surrogate c" "\<not> low_surrogate c" using assms by (auto simp: scalar_def high_surrogate_def low_surrogate_def)
  with True show ?thesis by (cases us) (simp_all add: point_units_def unit_point_def)
next
  case False
  then have d: "(c - 65536) div 1024 < 1024" "c < 1114112" using assms by (auto simp: scalar_def)
  define p q where "p = (c - 65536) div 1024" and "q = (c - 65536) mod 1024"
  have pq: "p < 1024" "q < 1024" "65536 + p * 1024 + q = c" using d False by (auto simp: p_def q_def)
  have u: "point_units c = [unit_of (55296 + p), unit_of (56320 + q)]" using False by (simp add: point_units_def p_def q_def)
  show ?thesis unfolding u using pq by (simp add: high_surrogate_def low_surrogate_def)
qed

lemma code_points_units: "(\<And>c. c \<in> set cs \<Longrightarrow> scalar c) \<Longrightarrow> code_points (units_of_points cs) = cs"
  by (induction cs) (simp_all add: units_of_points_def point_units_code_points)

text \<open>What a string is after a trip through UTF-8, and the strings that come back as they were.\<close>

definition stored_text :: "code_units \<Rightarrow> code_units" where
  "stored_text us = units_of_points (drop_bom (code_points us))"

definition plain_text :: "code_units \<Rightarrow> bool" where
  "plain_text us \<longleftrightarrow> units_of_points (code_points us) = us \<and> (us = [] \<or> hd (code_points us) \<noteq> 65279)"

lemma stored_plain: "plain_text us \<Longrightarrow> stored_text us = us"
  by (auto simp: plain_text_def stored_text_def drop_bom_def units_of_points_def split: list.splits)

lemma utf8_decode_encode: "utf8_decode (utf8_encode us) = Some (stored_text us)"
  by (simp add: utf8_decode_def utf8_points_of_encode stored_text_def)

lemma drop_bom_subset: "set (drop_bom cs) \<subseteq> set cs"
  by (auto simp: drop_bom_def split: list.splits)

lemma utf8_encode_decode:
  assumes "utf8_decode bs = Some us"
  shows "utf8_encode us = bs \<or> bs = utf8_point 65279 @ utf8_encode us"
proof -
  from assms obtain cs where cs: "utf8_points bs = Some cs" "us = units_of_points (drop_bom cs)"
    by (auto simp: utf8_decode_def)
  note sound = utf8_points_sound [OF cs(1)]
  have "utf8_encode us = concat (map utf8_point (drop_bom cs))"
    using sound drop_bom_subset [of cs] by (auto simp: utf8_encode_def cs(2) code_points_units subset_iff)
  then show ?thesis using sound by (auto simp: drop_bom_def split: list.splits if_splits)
qed

end
