(* ===== verification/Browser_Outbox.thy ===== *)
theory Browser_Outbox
  imports Js_Text "HOL-Library.Sublist"
begin

text \<open>
  \<open>apps/relay/src/browser-outbox.ts\<close>: the messages on their way to one browser. The Relay keeps
  no more than a number of bytes and of messages for a browser that reads slowly, hands the
  socket one message at a time, and lets a burst wait for room. The socket, the promises and
  \<open>setImmediate\<close> are events: what the outbox asks of them is recorded in the order it asked.
  Whether the browser may still see an action's messages is asked anew at each step.
\<close>

section \<open>The outbox\<close>

record outbox_item =
  oi_action :: "string option"
  oi_bytes :: nat
  oi_encoded :: code_units

datatype outbox_kind = KConsole | KPriority | KResource

datatype socket_state = SockConnecting | SockOpen | SockClosing | SockClosed

text \<open>
  What the outbox did: a message handed to the socket or withheld because the browser may no
  longer see it, with the place it was kept in; the socket closed; a promise of room resolved.
\<close>

datatype outbox_event =
    Handed outbox_kind outbox_item
  | Withheld outbox_kind outbox_item
  | CloseSocket nat string
  | Resolved nat bool

record room_waiter =
  rw_bytes :: nat
  rw_promise :: nat

record outbox =
  ob_max_bytes :: nat
  ob_max_messages :: nat
  ob_normal :: "outbox_item list"
  ob_priority :: "outbox_item list"
  ob_waiters :: "room_waiter list"
  ob_bytes :: int
  ob_closed :: bool
  ob_resource :: "outbox_item option"
  ob_sending :: bool
  ob_socket :: socket_state
  ob_wakes :: nat
  ob_events :: "outbox_event list"

definition new_outbox :: "nat \<Rightarrow> nat \<Rightarrow> socket_state \<Rightarrow> outbox" where
  "new_outbox max_bytes max_messages socket =
     \<lparr>ob_max_bytes = max_bytes, ob_max_messages = max_messages, ob_normal = [], ob_priority = [],
      ob_waiters = [], ob_bytes = 0, ob_closed = False, ob_resource = None, ob_sending = False,
      ob_socket = socket, ob_wakes = 0, ob_events = []\<rparr>"

definition log_event :: "outbox_event \<Rightarrow> outbox \<Rightarrow> outbox" where
  "log_event e s = s\<lparr>ob_events := ob_events s @ [e]\<rparr>"

definition outbox_close :: "outbox \<Rightarrow> outbox" where
  "outbox_close s = s\<lparr>ob_closed := True, ob_priority := [], ob_normal := [], ob_resource := None,
     ob_bytes := 0, ob_waiters := [],
     ob_events := ob_events s @ map (\<lambda>w. Resolved (rw_promise w) False) (ob_waiters s)\<rparr>"

definition message_count :: "outbox \<Rightarrow> nat" where
  "message_count s = length (ob_priority s) + length (ob_normal s) + (if ob_resource s \<noteq> None then 1 else 0)"

text \<open>Half of an odd limit is not an integer in JavaScript: both sides are doubled.\<close>

definition has_room_for :: "nat \<Rightarrow> outbox \<Rightarrow> bool" where
  "has_room_for bytes s \<longleftrightarrow>
     message_count s = 0 \<or>
     2 * (ob_bytes s + int bytes) \<le> int (ob_max_bytes s) \<and> 2 * message_count s < ob_max_messages s"

definition when_room_for :: "nat \<Rightarrow> nat \<Rightarrow> outbox \<Rightarrow> outbox" where
  "when_room_for bytes promise s =
     (if ob_closed s then log_event (Resolved promise False) s
      else if ob_waiters s = [] \<and> has_room_for bytes s then log_event (Resolved promise True) s
      else s\<lparr>ob_waiters := ob_waiters s @ [\<lparr>rw_bytes = bytes, rw_promise = promise\<rparr>]\<rparr>)"

definition wake_room_waiter :: "outbox \<Rightarrow> outbox" where
  "wake_room_waiter s =
     (case ob_waiters s of
        [] \<Rightarrow> s
      | w # ws \<Rightarrow>
          if ob_closed s \<or> \<not> has_room_for (rw_bytes w) s then s
          else
            let s = log_event (Resolved (rw_promise w) True) (s\<lparr>ob_waiters := ws\<rparr>)
            in if ws \<noteq> [] then s\<lparr>ob_wakes := ob_wakes s + 1\<rparr> else s)"

definition outbox_next :: "outbox \<Rightarrow> (outbox_kind \<times> outbox_item) option \<times> outbox" where
  "outbox_next s =
     (case ob_priority s of
        x # xs \<Rightarrow> (Some (KPriority, x), s\<lparr>ob_priority := xs, ob_bytes := ob_bytes s - int (oi_bytes x)\<rparr>)
      | [] \<Rightarrow>
          (case ob_normal s of
             x # xs \<Rightarrow> (Some (KConsole, x), s\<lparr>ob_normal := xs, ob_bytes := ob_bytes s - int (oi_bytes x)\<rparr>)
           | [] \<Rightarrow>
               (case ob_resource s of
                  Some x \<Rightarrow> (Some (KResource, x), s\<lparr>ob_resource := None, ob_bytes := ob_bytes s - int (oi_bytes x)\<rparr>)
                | None \<Rightarrow> (None, s))))"

lemma outbox_next_count: "outbox_next s = (Some m, s') \<Longrightarrow> message_count s' < message_count s"
  by (auto simp: outbox_next_def message_count_def split: list.splits option.splits)

function outbox_drain :: "(string option \<Rightarrow> bool) \<Rightarrow> outbox \<Rightarrow> outbox" where
  "outbox_drain authorize s =
     (if ob_sending s \<or> ob_closed s then s
      else case outbox_next s of
        (None, s) \<Rightarrow> wake_room_waiter s
      | (Some (kind, item), s) \<Rightarrow>
          if \<not> authorize (oi_action item) then outbox_drain authorize (log_event (Withheld kind item) s)
          else log_event (Handed kind item) (s\<lparr>ob_sending := True\<rparr>))"
  by pat_completeness auto

termination
proof (relation "measure (\<lambda>(authorize, s). message_count s)", goal_cases)
  case (2 authorize s m s' x kind item)
  then show ?case using outbox_next_count [of s "(kind, item)" s'] by (simp add: log_event_def message_count_def)
qed simp

declare outbox_drain.simps [simp del]

definition outbox_overflow :: "outbox \<Rightarrow> outbox" where
  "outbox_overflow s =
     (let s = outbox_close s in
      if ob_socket s = SockOpen \<or> ob_socket s = SockConnecting
      then log_event (CloseSocket 1013 ''Browser is not consuming messages'') (s\<lparr>ob_socket := SockClosing\<rparr>)
      else s)"

text \<open>A message put where its kind is kept; a resource's replaces the one before it.\<close>

definition outbox_keep :: "outbox_kind \<Rightarrow> outbox_item \<Rightarrow> outbox \<Rightarrow> outbox" where
  "outbox_keep kind item s =
     (case kind of
        KResource \<Rightarrow>
          s\<lparr>ob_resource := Some item,
            ob_bytes := ob_bytes s - (case ob_resource s of None \<Rightarrow> 0 | Some old \<Rightarrow> int (oi_bytes old)) + int (oi_bytes item)\<rparr>
      | KPriority \<Rightarrow> s\<lparr>ob_priority := ob_priority s @ [item], ob_bytes := ob_bytes s + int (oi_bytes item)\<rparr>
      | KConsole \<Rightarrow> s\<lparr>ob_normal := ob_normal s @ [item], ob_bytes := ob_bytes s + int (oi_bytes item)\<rparr>)"

definition outbox_send ::
  "(string option \<Rightarrow> bool) \<Rightarrow> code_units \<Rightarrow> outbox_kind \<Rightarrow> string option \<Rightarrow> outbox \<Rightarrow> bool \<times> outbox" where
  "outbox_send authorize encoded kind action s =
     (if ob_closed s \<or> ob_socket s \<noteq> SockOpen \<or> \<not> authorize action then (False, s)
      else
        let item = \<lparr>oi_action = action, oi_bytes = byte_length encoded, oi_encoded = encoded\<rparr> in
        if oi_bytes item > ob_max_bytes s then (False, outbox_overflow s)
        else
          let s = outbox_keep kind item s in
          if ob_bytes s > int (ob_max_bytes s) \<or> message_count s > ob_max_messages s
          then (False, outbox_overflow s)
          else (True, outbox_drain authorize s))"

text \<open>What \<open>socket.send\<close> calls back with: nothing went wrong, or something did.\<close>

definition outbox_sent :: "(string option \<Rightarrow> bool) \<Rightarrow> bool \<Rightarrow> outbox \<Rightarrow> outbox" where
  "outbox_sent authorize failed s =
     (let s = s\<lparr>ob_sending := False\<rparr> in
      if failed then
        let s = s\<lparr>ob_closed := True\<rparr> in
        (if ob_socket s = SockOpen
         then log_event (CloseSocket 1013 ''Browser delivery failed'') (s\<lparr>ob_socket := SockClosing\<rparr>)
         else s)
      else outbox_drain authorize (wake_room_waiter s))"

section \<open>What is kept and what has passed\<close>

fun kept :: "outbox_kind \<Rightarrow> outbox \<Rightarrow> outbox_item list" where
  "kept KConsole s = ob_normal s"
| "kept KPriority s = ob_priority s"
| "kept KResource s = (case ob_resource s of None \<Rightarrow> [] | Some x \<Rightarrow> [x])"

definition sizes :: "outbox_item list \<Rightarrow> int" where
  "sizes xs = sum_list (map (\<lambda>x. int (oi_bytes x)) xs)"

definition kept_bytes :: "outbox \<Rightarrow> int" where
  "kept_bytes s = sizes (kept KPriority s) + sizes (kept KConsole s) + sizes (kept KResource s)"

fun passed :: "outbox_kind \<Rightarrow> outbox_event list \<Rightarrow> outbox_item list" where
  "passed k [] = []"
| "passed k (Handed k' x # es) = (if k' = k then x # passed k es else passed k es)"
| "passed k (Withheld k' x # es) = (if k' = k then x # passed k es else passed k es)"
| "passed k (CloseSocket _ _ # es) = passed k es"
| "passed k (Resolved _ _ # es) = passed k es"

lemma passed_append [simp]: "passed k (xs @ ys) = passed k xs @ passed k ys"
  by (induction k xs rule: passed.induct) auto

lemma passed_resolved [simp]: "passed k (map (\<lambda>w. Resolved (f w) b) ws) = []"
  by (induction ws) auto

lemma sizes_simps [simp]: "sizes [] = 0" "sizes (x # xs) = int (oi_bytes x) + sizes xs" "sizes (xs @ ys) = sizes xs + sizes ys"
  by (simp_all add: sizes_def)

lemma message_count_kept: "message_count s = length (kept KPriority s) + length (kept KConsole s) + length (kept KResource s)"
  by (simp add: message_count_def split: option.splits)

text \<open>Which fields an operation on waiters leaves alone.\<close>

definition same_messages :: "outbox \<Rightarrow> outbox \<Rightarrow> bool" where
  "same_messages s t \<longleftrightarrow>
     (\<forall>k. kept k t = kept k s \<and> passed k (ob_events t) = passed k (ob_events s)) \<and>
     ob_bytes t = ob_bytes s \<and> ob_max_bytes t = ob_max_bytes s \<and> ob_max_messages t = ob_max_messages s \<and>
     ob_closed t = ob_closed s"

lemma wake_room_waiter_same: "same_messages s (wake_room_waiter s)"
proof -
  have "kept k (wake_room_waiter s) = kept k s" "passed k (ob_events (wake_room_waiter s)) = passed k (ob_events s)" for k
    by (cases k; simp add: wake_room_waiter_def log_event_def Let_def split: list.splits)+
  then show ?thesis
    by (auto simp: same_messages_def wake_room_waiter_def log_event_def Let_def split: list.splits)
qed

lemma wake_room_waiter_events:
  "\<exists>es. ob_events (wake_room_waiter s) = ob_events s @ es \<and> (\<forall>k x. Handed k x \<notin> set es) \<and> (\<forall>k x. Withheld k x \<notin> set es)"
  by (auto simp: wake_room_waiter_def log_event_def Let_def split: list.splits)

lemma wake_room_waiter_sending [simp]: "ob_sending (wake_room_waiter s) = ob_sending s"
  by (auto simp: wake_room_waiter_def log_event_def Let_def split: list.splits)

lemma wake_room_waiter_idle:
  "\<not> ob_closed s \<Longrightarrow> message_count s = 0 \<Longrightarrow> ob_waiters (wake_room_waiter s) \<noteq> [] \<Longrightarrow> 0 < ob_wakes (wake_room_waiter s)"
  by (auto simp: wake_room_waiter_def log_event_def has_room_for_def Let_def split: list.splits)

text \<open>The next message is the first of the first place that holds one.\<close>

lemma outbox_next_Some:
  assumes "outbox_next s = (Some (k, x), s')"
  shows "kept k s = x # kept k s' \<and> (\<forall>k'. k' \<noteq> k \<longrightarrow> kept k' s' = kept k' s) \<and>
    ob_bytes s' = ob_bytes s - int (oi_bytes x) \<and> ob_events s' = ob_events s \<and>
    ob_max_bytes s' = ob_max_bytes s \<and> ob_max_messages s' = ob_max_messages s \<and> ob_closed s' = ob_closed s \<and>
    (k \<noteq> KPriority \<longrightarrow> kept KPriority s' = []) \<and> (k = KResource \<longrightarrow> kept KConsole s' = [])"
proof -
  have "kept k' s' = kept k' s" if "k' \<noteq> k" for k'
    using assms that by (cases k') (auto simp: outbox_next_def split: list.splits option.splits)
  with assms show ?thesis by (auto simp: outbox_next_def split: list.splits option.splits)
qed

lemma outbox_next_None: "outbox_next s = (None, s') \<Longrightarrow> s' = s \<and> message_count s = 0"
  by (auto simp: outbox_next_def message_count_def split: list.splits option.splits)

section \<open>Draining\<close>

text \<open>
  A drain moves messages from the front of where they're kept to the socket's, those withheld
  first, and stops with one handed over or with nothing kept.
\<close>

definition drained :: "(string option \<Rightarrow> bool) \<Rightarrow> outbox \<Rightarrow> outbox \<Rightarrow> bool" where
  "drained authorize s t \<longleftrightarrow>
     (\<forall>k. passed k (ob_events t) @ kept k t = passed k (ob_events s) @ kept k s) \<and>
     ob_bytes t - kept_bytes t = ob_bytes s - kept_bytes s \<and>
     ob_max_bytes t = ob_max_bytes s \<and> ob_max_messages t = ob_max_messages s \<and> ob_closed t = ob_closed s \<and>
     message_count t \<le> message_count s \<and> kept_bytes t \<le> kept_bytes s \<and>
     (\<exists>es. ob_events t = ob_events s @ es \<and>
        (\<forall>k x. Handed k x \<in> set es \<longrightarrow> authorize (oi_action x) \<and> \<not> ob_closed s \<and>
           (k \<noteq> KPriority \<longrightarrow> ob_priority t = []) \<and> (k = KResource \<longrightarrow> ob_normal t = [])) \<and>
        (\<forall>k x. Withheld k x \<in> set es \<longrightarrow> \<not> authorize (oi_action x)))"

lemma drained_refl: "drained authorize s s"
  by (simp add: drained_def)

lemma kept_bytes_next:
  assumes "outbox_next s = (Some (k, x), s')"
  shows "kept_bytes s' = kept_bytes s - int (oi_bytes x)"
  using outbox_next_Some [OF assms] by (cases k) (auto simp: kept_bytes_def simp del: kept.simps)

lemma kept_log_event [simp]: "kept k (log_event e s) = kept k s"
  by (cases k) (simp_all add: log_event_def)

lemma kept_sending [simp]: "kept k (s\<lparr>ob_sending := b\<rparr>) = kept k s"
  by (cases k) simp_all

lemma log_event_fields [simp]:
  "ob_events (log_event e s) = ob_events s @ [e]" "ob_bytes (log_event e s) = ob_bytes s"
  "ob_max_bytes (log_event e s) = ob_max_bytes s" "ob_max_messages (log_event e s) = ob_max_messages s"
  "ob_closed (log_event e s) = ob_closed s" "ob_sending (log_event e s) = ob_sending s"
  "ob_waiters (log_event e s) = ob_waiters s" "ob_wakes (log_event e s) = ob_wakes s"
  "ob_priority (log_event e s) = ob_priority s" "ob_normal (log_event e s) = ob_normal s"
  "ob_resource (log_event e s) = ob_resource s" "ob_socket (log_event e s) = ob_socket s"
  by (simp_all add: log_event_def)

lemma kept_bytes_log_event [simp]: "kept_bytes (log_event e s) = kept_bytes s"
  "kept_bytes (s\<lparr>ob_sending := b\<rparr>) = kept_bytes s"
  by (simp_all add: kept_bytes_def del: kept.simps)

lemma message_count_log_event [simp]: "message_count (log_event e s) = message_count s"
  "message_count (s\<lparr>ob_sending := b\<rparr>) = message_count s"
  by (simp_all add: message_count_def)

lemma sizes_nonneg [simp]: "0 \<le> sizes xs"
  by (induction xs) simp_all

lemma drainedI:
  assumes "\<And>k. passed k (ob_events t) @ kept k t = passed k (ob_events s) @ kept k s"
    and "ob_bytes t - kept_bytes t = ob_bytes s - kept_bytes s"
    and "ob_max_bytes t = ob_max_bytes s \<and> ob_max_messages t = ob_max_messages s \<and> ob_closed t = ob_closed s"
    and "message_count t \<le> message_count s" and "kept_bytes t \<le> kept_bytes s"
    and "ob_events t = ob_events s @ es"
    and "\<And>k x. Handed k x \<in> set es \<Longrightarrow> authorize (oi_action x) \<and> \<not> ob_closed s \<and>
           (k \<noteq> KPriority \<longrightarrow> ob_priority t = []) \<and> (k = KResource \<longrightarrow> ob_normal t = [])"
    and "\<And>k x. Withheld k x \<in> set es \<Longrightarrow> \<not> authorize (oi_action x)"
  shows "drained authorize s t"
  unfolding drained_def using assms by blast

text \<open>Taking the next message from its place.\<close>

lemma passed_next:
  assumes "outbox_next s = (Some (k, x), s')" and "e = Handed k x \<or> e = Withheld k x"
    and "kept k' t = kept k' s'" and "ob_events t = ob_events s' @ [e]"
  shows "passed k' (ob_events t) @ kept k' t = passed k' (ob_events s) @ kept k' s"
proof -
  have events: "ob_events s' = ob_events s" and mine: "kept k s = x # kept k s'"
    and others: "k' \<noteq> k \<Longrightarrow> kept k' s' = kept k' s"
    using outbox_next_Some [OF assms(1)] by blast+
  show ?thesis
  proof (cases "k' = k")
    case True
    with events mine assms(2-4) show ?thesis by (auto simp del: kept.simps)
  next
    case False
    with events others [OF False] assms(2-4) show ?thesis by (auto simp del: kept.simps)
  qed
qed

lemma drained_withheld:
  assumes nx: "outbox_next s = (Some (k, x), s1)" and no: "\<not> authorize (oi_action x)"
    and rest: "drained authorize (log_event (Withheld k x) s1) t"
  shows "drained authorize s t"
proof -
  let ?s = "log_event (Withheld k x) s1"
  note facts = outbox_next_Some [OF nx] kept_bytes_next [OF nx] outbox_next_count [OF nx]
  from rest obtain es where es: "ob_events t = ob_events ?s @ es"
      "\<And>k x. Handed k x \<in> set es \<Longrightarrow> authorize (oi_action x) \<and> \<not> ob_closed ?s \<and>
         (k \<noteq> KPriority \<longrightarrow> ob_priority t = []) \<and> (k = KResource \<longrightarrow> ob_normal t = [])"
      "\<And>k x. Withheld k x \<in> set es \<Longrightarrow> \<not> authorize (oi_action x)"
    unfolding drained_def by blast
  show ?thesis
  proof (rule drainedI [where es = "Withheld k x # es"])
    show "passed k' (ob_events t) @ kept k' t = passed k' (ob_events s) @ kept k' s" for k'
      using passed_next [OF nx, of "Withheld k x" k' ?s] rest unfolding drained_def by simp
    show "ob_bytes t - kept_bytes t = ob_bytes s - kept_bytes s"
      "ob_max_bytes t = ob_max_bytes s \<and> ob_max_messages t = ob_max_messages s \<and> ob_closed t = ob_closed s"
      "message_count t \<le> message_count s" "kept_bytes t \<le> kept_bytes s"
      using rest facts unfolding drained_def by simp_all
    show "ob_events t = ob_events s @ Withheld k x # es" using es(1) facts by simp
  qed (use es(2,3) no facts in auto)
qed

lemma drained_handed:
  assumes nx: "outbox_next s = (Some (k, x), s1)" and yes: "authorize (oi_action x)" and "\<not> ob_closed s"
  shows "drained authorize s (log_event (Handed k x) (s1\<lparr>ob_sending := True\<rparr>))"
proof (rule drainedI [where es = "[Handed k x]"])
  note facts = outbox_next_Some [OF nx] kept_bytes_next [OF nx] outbox_next_count [OF nx]
  let ?t = "log_event (Handed k x) (s1\<lparr>ob_sending := True\<rparr>)"
  show "passed k' (ob_events ?t) @ kept k' ?t = passed k' (ob_events s) @ kept k' s" for k'
    using passed_next [OF nx, of "Handed k x" k' ?t] by simp
  show "ob_bytes ?t - kept_bytes ?t = ob_bytes s - kept_bytes s"
    "ob_max_bytes ?t = ob_max_bytes s \<and> ob_max_messages ?t = ob_max_messages s \<and> ob_closed ?t = ob_closed s"
    "message_count ?t \<le> message_count s" "kept_bytes ?t \<le> kept_bytes s" "ob_events ?t = ob_events s @ [Handed k x]"
    using facts by simp_all
qed (use outbox_next_Some [OF nx] yes assms(3) in auto)

lemma drained_wake: "drained authorize s (wake_room_waiter s)"
proof -
  obtain es where es: "ob_events (wake_room_waiter s) = ob_events s @ es" "\<forall>k x. Handed k x \<notin> set es"
      "\<forall>k x. Withheld k x \<notin> set es"
    using wake_room_waiter_events by blast
  show ?thesis
    by (rule drainedI [where es = es])
      (use es wake_room_waiter_same [of s] in \<open>auto simp: same_messages_def kept_bytes_def message_count_kept simp del: kept.simps\<close>)
qed

lemma drain_drained: "drained authorize s (outbox_drain authorize s)"
proof (induction authorize s rule: outbox_drain.induct)
  case (1 authorize s)
  show ?case
  proof (cases "ob_sending s \<or> ob_closed s")
    case True
    then show ?thesis by (simp add: outbox_drain.simps drained_refl)
  next
    case False
    obtain m s1 where nx: "outbox_next s = (m, s1)" by (cases "outbox_next s")
    show ?thesis
    proof (cases m)
      case None
      have "s1 = s" using outbox_next_None nx None by blast
      with nx None False have "outbox_drain authorize s = wake_room_waiter s" by (simp add: outbox_drain.simps)
      then show ?thesis by (simp add: drained_wake)
    next
      case (Some p)
      obtain k x where p: "p = (k, x)" by (cases p)
      note n = nx [unfolded Some p]
      show ?thesis
      proof (cases "authorize (oi_action x)")
        case True
        with False n have "outbox_drain authorize s = log_event (Handed k x) (s1\<lparr>ob_sending := True\<rparr>)"
          by (simp add: outbox_drain.simps)
        then show ?thesis using drained_handed [OF n, of authorize] True False by simp
      next
        case no: False
        with False n have "outbox_drain authorize s = outbox_drain authorize (log_event (Withheld k x) s1)"
          by (subst outbox_drain.simps) simp
        moreover have "drained authorize (log_event (Withheld k x) s1) (outbox_drain authorize (log_event (Withheld k x) s1))"
          using 1 [OF False n [symmetric] refl refl no] .
        ultimately show ?thesis using drained_withheld [OF n, of authorize] no by simp
      qed
    qed
  qed
qed

lemma drain_idle:
  "\<not> ob_closed s \<Longrightarrow> \<not> ob_sending (outbox_drain authorize s) \<Longrightarrow>
   message_count (outbox_drain authorize s) = 0 \<and>
   (ob_waiters (outbox_drain authorize s) \<noteq> [] \<longrightarrow> 0 < ob_wakes (outbox_drain authorize s)) \<or> ob_sending s"
proof (induction authorize s rule: outbox_drain.induct)
  case (1 authorize s)
  show ?case
  proof (cases "ob_sending s")
    case False
    obtain m s1 where nx: "outbox_next s = (m, s1)" by (cases "outbox_next s")
    show ?thesis
    proof (cases m)
      case None
      have s1: "s1 = s" "message_count s = 0" using outbox_next_None nx None by blast+
      with nx None False 1(2) have "outbox_drain authorize s = wake_room_waiter s" by (simp add: outbox_drain.simps)
      moreover have "message_count (wake_room_waiter s) = 0"
        using s1(2) wake_room_waiter_same [of s] by (simp add: same_messages_def message_count_kept del: kept.simps)
      ultimately show ?thesis using wake_room_waiter_idle [OF 1(2) s1(2)] by simp
    next
      case (Some p)
      obtain k x where p: "p = (k, x)" by (cases p)
      note n = nx [unfolded Some p]
      have closed: "\<not> ob_closed s1" using outbox_next_Some [OF n] 1(2) by simp
      have sending: "\<not> ob_sending s1" using n False by (auto simp: outbox_next_def split: list.splits option.splits)
      show ?thesis
      proof (cases "authorize (oi_action x)")
        case True
        with False n 1(2,3) show ?thesis by (simp add: outbox_drain.simps)
      next
        case no: False
        with False n 1(2) have "outbox_drain authorize s = outbox_drain authorize (log_event (Withheld k x) s1)"
          by (subst outbox_drain.simps) simp
        moreover have "\<not> (ob_sending s \<or> ob_closed s)" using False 1(2) by simp
        ultimately show ?thesis
          using 1(1) [OF _ n [symmetric] refl refl no] closed sending 1(3) by simp
      qed
    qed
  qed simp
qed

section \<open>The life of an outbox\<close>

text \<open>With the messages it accepted, in order. Every step may find other permissions in force.\<close>

type_synonym outbox_run = "outbox \<times> (outbox_kind \<times> outbox_item) list"

inductive outbox_step :: "(string option \<Rightarrow> bool) \<Rightarrow> outbox_run \<Rightarrow> outbox_run \<Rightarrow> bool" where
  send_accepted: "outbox_send authorize encoded kind action s = (True, t) \<Longrightarrow>
    item = \<lparr>oi_action = action, oi_bytes = byte_length encoded, oi_encoded = encoded\<rparr> \<Longrightarrow>
    outbox_step authorize (s, h) (t, h @ [(kind, item)])"
| send_refused: "outbox_send authorize encoded kind action s = (False, t) \<Longrightarrow> outbox_step authorize (s, h) (t, h)"
| room_asked: "outbox_step authorize (s, h) (when_room_for bytes promise s, h)"
| socket_moves: "outbox_step authorize (s, h) (s\<lparr>ob_socket := state\<rparr>, h)"
| owner_closes: "outbox_step authorize (s, h) (outbox_close s, h)"
| socket_sent: "ob_sending s \<Longrightarrow> outbox_step authorize (s, h) (outbox_sent authorize failed s, h)"
| immediate: "ob_wakes s = Suc n \<Longrightarrow> outbox_step authorize (s, h) (wake_room_waiter (s\<lparr>ob_wakes := n\<rparr>), h)"

inductive_cases outbox_stepE: "outbox_step authorize x y"

definition accepted :: "outbox_kind \<Rightarrow> (outbox_kind \<times> outbox_item) list \<Rightarrow> outbox_item list" where
  "accepted k h = map snd (filter (\<lambda>m. fst m = k) h)"

lemma accepted_append [simp]: "accepted k (h @ [(k', x)]) = accepted k h @ (if k' = k then [x] else [])"
  by (simp add: accepted_def)

text \<open>
  What a queue keeps is what it accepted and hasn't passed on. Of a resource's messages only the
  last is kept; those before it that weren't passed on are lost.
\<close>

definition ordered :: "outbox_kind \<Rightarrow> bool \<Rightarrow> outbox_item list \<Rightarrow> outbox_item list \<Rightarrow> bool" where
  "ordered k closed there was \<longleftrightarrow>
     (if k = KResource
      then subseq there was \<and>
        (\<not> closed \<longrightarrow> (there = [] \<longleftrightarrow> was = []) \<and> (there \<noteq> [] \<longrightarrow> last there = last was))
      else prefix there was \<and> (\<not> closed \<longrightarrow> there = was))"

definition in_order :: "outbox_kind \<Rightarrow> outbox_run \<Rightarrow> bool" where
  "in_order k r \<longleftrightarrow>
     ordered k (ob_closed (fst r)) (passed k (ob_events (fst r)) @ kept k (fst r)) (accepted k (snd r))"

lemma ordered_cleared: "ordered k closed (xs @ ys) was \<Longrightarrow> ordered k True xs was"
  using subseq_order.trans [OF subseq_rev_drop_many [OF subseq_order.refl [of xs], of ys]]
  by (auto simp: ordered_def append_prefixD split: if_splits)

lemma ordered_closes: "ordered k closed xs was \<Longrightarrow> ordered k True xs was"
  by (auto simp: ordered_def)

lemma ordered_kept:
  "k \<noteq> KResource \<Longrightarrow> ordered k False xs was \<Longrightarrow> ordered k False (xs @ [x]) (was @ [x])"
  by (simp add: ordered_def)

lemma ordered_replaced:
  assumes "ordered KResource False (xs @ ys) was"
  shows "ordered KResource False (xs @ [x]) (was @ [x])"
proof -
  have "subseq xs was" using ordered_cleared [OF assms] by (simp add: ordered_def)
  then show ?thesis by (auto simp: ordered_def intro: list_emb_append_mono)
qed

declare kept.simps [simp del]

definition outbox_ok :: "nat \<Rightarrow> nat \<Rightarrow> outbox \<Rightarrow> bool" where
  "outbox_ok max_bytes max_messages s \<longleftrightarrow>
     ob_max_bytes s = max_bytes \<and> ob_max_messages s = max_messages \<and>
     ob_bytes s = kept_bytes s \<and> kept_bytes s \<le> int max_bytes \<and> message_count s \<le> max_messages \<and>
     (\<not> ob_closed s \<longrightarrow> \<not> ob_sending s \<longrightarrow>
        message_count s = 0 \<and> (ob_waiters s \<noteq> [] \<longrightarrow> 0 < ob_wakes s))"

definition outbox_inv :: "nat \<Rightarrow> nat \<Rightarrow> outbox_run \<Rightarrow> bool" where
  "outbox_inv max_bytes max_messages r \<longleftrightarrow>
     outbox_ok max_bytes max_messages (fst r) \<and> (\<forall>k. in_order k r)"

lemma in_order_drained: "drained authorize s t \<Longrightarrow> in_order k (s, h) \<Longrightarrow> in_order k (t, h)"
  unfolding drained_def in_order_def by auto

lemma in_order_same: "same_messages s t \<Longrightarrow> in_order k (s, h) \<Longrightarrow> in_order k (t, h)"
  by (simp add: same_messages_def in_order_def)

lemma close_kept [simp]: "kept k (outbox_close s) = []" "passed k (ob_events (outbox_close s)) = passed k (ob_events s)"
  by (cases k; simp add: outbox_close_def kept.simps)+

lemma close_fields [simp]: "ob_closed (outbox_close s)" "ob_bytes (outbox_close s) = 0"
  "message_count (outbox_close s) = 0" "kept_bytes (outbox_close s) = 0"
  "ob_max_bytes (outbox_close s) = ob_max_bytes s" "ob_max_messages (outbox_close s) = ob_max_messages s"
  by (simp_all add: outbox_close_def message_count_def kept_bytes_def kept.simps)

lemma in_order_cleared:
  "in_order k (s, h) \<Longrightarrow> kept k t = [] \<Longrightarrow> passed k (ob_events t) = passed k (ob_events s) \<Longrightarrow> ob_closed t \<Longrightarrow>
   in_order k (t, h)"
  unfolding in_order_def by (auto intro: ordered_cleared)

lemma overflow_cleared:
  "kept k (outbox_overflow s) = []" "passed k (ob_events (outbox_overflow s)) = passed k (ob_events s)"
  "ob_closed (outbox_overflow s)" "ob_bytes (outbox_overflow s) = 0" "message_count (outbox_overflow s) = 0"
  "kept_bytes (outbox_overflow s) = 0" "ob_max_bytes (outbox_overflow s) = ob_max_bytes s"
  "ob_max_messages (outbox_overflow s) = ob_max_messages s"
proof -
  have socket: "kept k (x\<lparr>ob_socket := b\<rparr>) = kept k x" "kept_bytes (x\<lparr>ob_socket := b\<rparr>) = kept_bytes x"
    "message_count (x\<lparr>ob_socket := b\<rparr>) = message_count x" for k x b
    by (cases k; simp add: kept_bytes_def message_count_def kept.simps)+
  show "kept k (outbox_overflow s) = []" "passed k (ob_events (outbox_overflow s)) = passed k (ob_events s)"
  "ob_closed (outbox_overflow s)" "ob_bytes (outbox_overflow s) = 0" "message_count (outbox_overflow s) = 0"
  "kept_bytes (outbox_overflow s) = 0" "ob_max_bytes (outbox_overflow s) = ob_max_bytes s"
  "ob_max_messages (outbox_overflow s) = ob_max_messages s"
    by (simp_all add: outbox_overflow_def Let_def socket)
qed

lemma keep_fields:
  "kept_bytes (outbox_keep k x s) - ob_bytes (outbox_keep k x s) = kept_bytes s - ob_bytes s"
  "ob_max_bytes (outbox_keep k x s) = ob_max_bytes s" "ob_max_messages (outbox_keep k x s) = ob_max_messages s"
  "ob_closed (outbox_keep k x s) = ob_closed s" "ob_events (outbox_keep k x s) = ob_events s"
  "ob_sending (outbox_keep k x s) = ob_sending s"
  by (cases k; simp add: outbox_keep_def kept_bytes_def kept.simps split: option.splits)+

lemma keep_kept:
  "kept k' (outbox_keep k x s) = (if k' = k then (if k = KResource then [x] else kept k s @ [x]) else kept k' s)"
  by (cases k; cases k'; simp add: outbox_keep_def kept.simps)

lemma in_order_keep:
  assumes "in_order k' (s, h)" and "\<not> ob_closed s"
  shows "in_order k' (outbox_keep k x s, h @ [(k, x)])"
proof (cases "k' = k")
  case True
  from assms have now: "ordered k False (passed k (ob_events s) @ kept k s) (accepted k h)"
    by (simp add: in_order_def True)
  show ?thesis
  proof (cases "k = KResource")
    case res: True
    then show ?thesis
      using ordered_replaced [OF now [unfolded res]] assms(2) by (simp add: in_order_def True keep_kept keep_fields)
  next
    case False
    then show ?thesis
      using ordered_kept [OF False now, of x] assms(2) by (simp add: in_order_def True keep_kept keep_fields)
  qed
next
  case False
  with assms show ?thesis by (simp add: in_order_def keep_kept keep_fields)
qed

lemma outbox_ok_cleared:
  "ob_max_bytes t = max_bytes \<Longrightarrow> ob_max_messages t = max_messages \<Longrightarrow> ob_bytes t = 0 \<Longrightarrow> kept_bytes t = 0 \<Longrightarrow>
   message_count t = 0 \<Longrightarrow> ob_closed t \<Longrightarrow> outbox_ok max_bytes max_messages t"
  by (simp add: outbox_ok_def)

text \<open>The state an outbox is in while it works: idle or not.\<close>

definition within :: "nat \<Rightarrow> nat \<Rightarrow> outbox \<Rightarrow> bool" where
  "within max_bytes max_messages s \<longleftrightarrow>
     ob_max_bytes s = max_bytes \<and> ob_max_messages s = max_messages \<and>
     ob_bytes s = kept_bytes s \<and> kept_bytes s \<le> int max_bytes \<and> message_count s \<le> max_messages"

lemma drain_ok:
  assumes "within max_bytes max_messages s" and "ob_sending s \<Longrightarrow> outbox_ok max_bytes max_messages s"
  shows "outbox_ok max_bytes max_messages (outbox_drain authorize s)"
proof (cases "ob_sending s \<or> ob_closed s")
  case True
  then show ?thesis using assms by (auto simp: outbox_drain.simps outbox_ok_def within_def)
next
  case False
  have d: "drained authorize s (outbox_drain authorize s)" by (rule drain_drained)
  with False drain_idle [of s authorize] assms(1) show ?thesis
    unfolding outbox_ok_def within_def drained_def by auto
qed

lemma outbox_send_inv:
  assumes inv: "outbox_inv max_bytes max_messages (s, h)" and send: "outbox_send authorize encoded kind action s = (ok, t)"
  shows "outbox_inv max_bytes max_messages
    (t, h @ (if ok then [(kind, \<lparr>oi_action = action, oi_bytes = byte_length encoded, oi_encoded = encoded\<rparr>)] else []))"
proof -
  let ?x = "\<lparr>oi_action = action, oi_bytes = byte_length encoded, oi_encoded = encoded\<rparr>"
  from inv have ok: "outbox_ok max_bytes max_messages s" and order: "in_order k (s, h)" for k
    by (auto simp: outbox_inv_def)
  consider "\<not> ok" "t = s" | "\<not> ok" "t = outbox_overflow s" | "\<not> ok" "t = outbox_overflow (outbox_keep kind ?x s)"
    | "ok" "\<not> ob_closed s" "ob_bytes (outbox_keep kind ?x s) \<le> int (ob_max_bytes (outbox_keep kind ?x s))"
      "message_count (outbox_keep kind ?x s) \<le> ob_max_messages (outbox_keep kind ?x s)"
      "t = outbox_drain authorize (outbox_keep kind ?x s)"
  proof (cases "ob_closed s \<or> ob_socket s \<noteq> SockOpen \<or> \<not> authorize action")
    case True
    with send show ?thesis by (intro that(1)) (simp_all add: outbox_send_def)
  next
    case takes: False
    show ?thesis
    proof (cases "byte_length encoded > ob_max_bytes s")
      case True
      with takes send show ?thesis by (intro that(2)) (auto simp: outbox_send_def Let_def)
    next
      case fits: False
      show ?thesis
      proof (cases "ob_bytes (outbox_keep kind ?x s) > int (ob_max_bytes (outbox_keep kind ?x s)) \<or>
          message_count (outbox_keep kind ?x s) > ob_max_messages (outbox_keep kind ?x s)")
        case True
        with takes fits send show ?thesis by (intro that(3)) (auto simp: outbox_send_def Let_def)
      next
        case False
        with takes fits send show ?thesis by (intro that(4)) (auto simp: outbox_send_def Let_def)
      qed
    qed
  qed
  then show ?thesis
  proof cases
    case 1
    with inv show ?thesis by simp
  next
    case 2
    have "in_order k (t, h)" for k
      by (rule in_order_cleared [OF order [of k]]) (simp_all add: 2 overflow_cleared)
    moreover have "outbox_ok max_bytes max_messages t"
      using ok by (intro outbox_ok_cleared) (simp_all add: 2 overflow_cleared outbox_ok_def)
    ultimately show ?thesis using 2 by (simp add: outbox_inv_def)
  next
    case 3
    let ?s = "outbox_keep kind ?x s"
    have "in_order k (t, h)" for k
      by (rule in_order_cleared [OF order [of k]]) (simp_all add: 3 overflow_cleared keep_fields)
    moreover have "outbox_ok max_bytes max_messages t"
      using ok by (intro outbox_ok_cleared) (simp_all add: 3 overflow_cleared keep_fields outbox_ok_def)
    ultimately show ?thesis using 3 by (simp add: outbox_inv_def)
  next
    case 4
    let ?s = "outbox_keep kind ?x s"
    have w: "within max_bytes max_messages ?s"
    proof -
      have "ob_bytes s = kept_bytes s" using ok by (simp add: outbox_ok_def)
      then have "ob_bytes ?s = kept_bytes ?s" using keep_fields(1) [of kind ?x s] by linarith
      with ok 4 show ?thesis by (simp add: within_def outbox_ok_def keep_fields)
    qed
    have "outbox_ok max_bytes max_messages t"
      unfolding 4 by (rule drain_ok [OF w]) (use w in \<open>simp add: outbox_ok_def within_def\<close>)
    moreover have "in_order k (t, h @ [(kind, ?x)])" for k
      unfolding 4 by (rule in_order_drained [OF drain_drained in_order_keep [OF order 4(2)]])
    ultimately show ?thesis using 4 by (simp add: outbox_inv_def)
  qed
qed

lemma same_messages_ok:
  assumes "same_messages s t" and "outbox_ok max_bytes max_messages s"
    and "\<not> ob_closed s \<Longrightarrow> \<not> ob_sending t \<Longrightarrow> message_count t = 0 \<and> (ob_waiters t \<noteq> [] \<longrightarrow> 0 < ob_wakes t)"
  shows "outbox_ok max_bytes max_messages t"
  using assms by (auto simp: outbox_ok_def same_messages_def kept_bytes_def message_count_kept)

lemma same_messages_inv:
  assumes "same_messages s t" and "outbox_inv max_bytes max_messages (s, h)"
    and "\<not> ob_closed s \<Longrightarrow> \<not> ob_sending t \<Longrightarrow> message_count t = 0 \<and> (ob_waiters t \<noteq> [] \<longrightarrow> 0 < ob_wakes t)"
  shows "outbox_inv max_bytes max_messages (t, h)"
  using same_messages_ok [OF assms(1) _ assms(3)] in_order_same [OF assms(1)] assms(2) by (simp add: outbox_inv_def)

lemma same_count: "same_messages s t \<Longrightarrow> message_count t = message_count s"
  by (simp add: same_messages_def message_count_kept)

lemma same_messages_trans: "same_messages s t \<Longrightarrow> same_messages t u \<Longrightarrow> same_messages s u"
  by (simp add: same_messages_def)

lemma same_messages_upd:
  "same_messages s (s\<lparr>ob_wakes := n\<rparr>)" "same_messages s (s\<lparr>ob_sending := b\<rparr>)" "same_messages s (s\<lparr>ob_waiters := ws\<rparr>)"
  "same_messages s (s\<lparr>ob_socket := st\<rparr>)" "same_messages s (log_event (Resolved p r) s)" "same_messages s (log_event (CloseSocket c m) s)"
proof -
  have "kept k (s\<lparr>ob_wakes := n\<rparr>) = kept k s" "kept k (s\<lparr>ob_waiters := ws\<rparr>) = kept k s"
    "kept k (s\<lparr>ob_socket := st\<rparr>) = kept k s" for k
    by (cases k; simp add: kept.simps)+
  then show "same_messages s (s\<lparr>ob_wakes := n\<rparr>)" "same_messages s (s\<lparr>ob_sending := b\<rparr>)" "same_messages s (s\<lparr>ob_waiters := ws\<rparr>)"
  "same_messages s (s\<lparr>ob_socket := st\<rparr>)" "same_messages s (log_event (Resolved p r) s)" "same_messages s (log_event (CloseSocket c m) s)"
    by (simp_all add: same_messages_def)
qed

lemma when_room_for_inv:
  assumes "outbox_inv max_bytes max_messages (s, h)"
  shows "outbox_inv max_bytes max_messages (when_room_for bytes promise s, h)"
proof (rule same_messages_inv [OF _ assms])
  show same: "same_messages s (when_room_for bytes promise s)"
    by (simp add: when_room_for_def same_messages_upd)
  assume "\<not> ob_closed s" "\<not> ob_sending (when_room_for bytes promise s)"
  with assms same_count [OF same]
  show "message_count (when_room_for bytes promise s) = 0 \<and>
      (ob_waiters (when_room_for bytes promise s) \<noteq> [] \<longrightarrow> 0 < ob_wakes (when_room_for bytes promise s))"
    by (auto simp: outbox_inv_def outbox_ok_def when_room_for_def has_room_for_def split: if_splits)
qed

lemma immediate_inv:
  assumes "outbox_inv max_bytes max_messages (s, h)"
  shows "outbox_inv max_bytes max_messages (wake_room_waiter (s\<lparr>ob_wakes := n\<rparr>), h)"
proof (rule same_messages_inv [OF _ assms])
  let ?s = "s\<lparr>ob_wakes := n\<rparr>"
  show same: "same_messages s (wake_room_waiter ?s)"
    by (rule same_messages_trans [OF same_messages_upd(1) wake_room_waiter_same])
  assume opened: "\<not> ob_closed s" and idle: "\<not> ob_sending (wake_room_waiter ?s)"
  with assms have none: "message_count s = 0" by (simp add: outbox_inv_def outbox_ok_def)
  then have "message_count ?s = 0" by (simp add: message_count_def)
  with wake_room_waiter_idle [of ?s] opened same_count [OF same] none
  show "message_count (wake_room_waiter ?s) = 0 \<and> (ob_waiters (wake_room_waiter ?s) \<noteq> [] \<longrightarrow> 0 < ob_wakes (wake_room_waiter ?s))"
    by simp
qed

lemma within_same: "same_messages s t \<Longrightarrow> within max_bytes max_messages s \<Longrightarrow> within max_bytes max_messages t"
  by (simp add: within_def same_messages_def kept_bytes_def message_count_kept)

lemma outbox_sent_inv:
  assumes inv: "outbox_inv max_bytes max_messages (s, h)"
  shows "outbox_inv max_bytes max_messages (outbox_sent authorize failed s, h)"
proof (cases failed)
  case True
  let ?s = "s\<lparr>ob_sending := False, ob_closed := True\<rparr>"
  have kept: "kept k ?s = kept k s" for k by (cases k) (simp_all add: kept.simps)
  have base: "outbox_inv max_bytes max_messages (?s, h)"
  proof -
    have "in_order k (?s, h)" for k
      using inv ordered_closes [of k "ob_closed s"] by (simp add: outbox_inv_def in_order_def kept)
    with inv show ?thesis
      by (simp add: outbox_inv_def outbox_ok_def kept kept_bytes_def message_count_kept)
  qed
  have "same_messages ?s (outbox_sent authorize failed s)"
    using same_messages_trans [OF same_messages_upd(4) [where st = SockClosing] same_messages_upd(6), of ?s]
    by (simp add: outbox_sent_def Let_def True same_messages_def)
  from same_messages_inv [OF this base] show ?thesis by simp
next
  case False
  let ?s = "wake_room_waiter (s\<lparr>ob_sending := False\<rparr>)"
  have same: "same_messages s ?s" by (rule same_messages_trans [OF same_messages_upd(2) wake_room_waiter_same])
  have w: "within max_bytes max_messages ?s"
    using inv by (intro within_same [OF same]) (simp add: outbox_inv_def outbox_ok_def within_def)
  have "outbox_ok max_bytes max_messages (outbox_drain authorize ?s)"
    by (rule drain_ok [OF w]) simp
  moreover have "in_order k (outbox_drain authorize ?s, h)" for k
    using inv by (intro in_order_drained [OF drain_drained] in_order_same [OF same]) (simp add: outbox_inv_def)
  ultimately show ?thesis by (simp add: outbox_inv_def outbox_sent_def False)
qed

lemma outbox_step_inv:
  assumes "outbox_inv max_bytes max_messages r" and "outbox_step authorize r r'"
  shows "outbox_inv max_bytes max_messages r'"
  using assms(2,1)
proof (cases rule: outbox_step.cases)
  case (send_accepted encoded kind action s t item h)
  with assms(1) outbox_send_inv [of max_bytes max_messages s h authorize encoded kind action True t] show ?thesis by simp
next
  case (send_refused encoded kind action s t h)
  with assms(1) outbox_send_inv [of max_bytes max_messages s h authorize encoded kind action False t] show ?thesis by simp
next
  case (owner_closes s h)
  with assms(1) show ?thesis
    by (auto simp: outbox_inv_def outbox_ok_def intro: in_order_cleared)
next
  case (socket_moves s h state)
  have "message_count (s\<lparr>ob_socket := state\<rparr>) = message_count s" by (simp add: message_count_def)
  with socket_moves assms(1) same_messages_inv [OF same_messages_upd(4), of max_bytes max_messages s h state] show ?thesis
    by (simp add: outbox_inv_def outbox_ok_def)
qed (use assms(1) in \<open>auto intro: when_room_for_inv immediate_inv outbox_sent_inv\<close>)

interpretation outbox_run: invariant_system "(new_outbox max_bytes max_messages socket, [])"
  "\<lambda>r r'. \<exists>authorize. outbox_step authorize r r'" "outbox_inv max_bytes max_messages"
proof
  show "outbox_inv max_bytes max_messages (new_outbox max_bytes max_messages socket, [])"
  proof -
    have "kept k (new_outbox max_bytes max_messages socket) = []" for k by (cases k) (simp_all add: new_outbox_def kept.simps)
    then show ?thesis
      by (simp add: outbox_inv_def outbox_ok_def in_order_def ordered_def message_count_kept kept_bytes_def)
        (simp add: new_outbox_def accepted_def)
  qed
qed (blast intro: outbox_step_inv)

section \<open>Properties\<close>

text \<open>The messages a step hands over are allowed, and those kept before others go first.\<close>

definition hands_over :: "(string option \<Rightarrow> bool) \<Rightarrow> outbox \<Rightarrow> outbox \<Rightarrow> bool" where
  "hands_over authorize s t \<longleftrightarrow>
     (\<exists>es. ob_events t = ob_events s @ es \<and>
        (\<forall>k x. Handed k x \<in> set es \<longrightarrow> authorize (oi_action x) \<and>
           (k \<noteq> KPriority \<longrightarrow> ob_priority t = []) \<and> (k = KResource \<longrightarrow> ob_normal t = [])) \<and>
        (\<forall>k x. Withheld k x \<in> set es \<longrightarrow> \<not> authorize (oi_action x)))"

lemma hands_over_silent:
  "ob_events t = ob_events s @ es \<Longrightarrow> (\<And>k x. Handed k x \<notin> set es \<and> Withheld k x \<notin> set es) \<Longrightarrow> hands_over authorize s t"
  unfolding hands_over_def by blast

lemma hands_over_drained:
  assumes "drained authorize u t" and "ob_events u = ob_events s @ es" and "\<And>k x. Handed k x \<notin> set es \<and> Withheld k x \<notin> set es"
  shows "hands_over authorize s t"
proof -
  from assms(1) obtain es' where "ob_events t = ob_events u @ es'"
    "\<forall>k x. Handed k x \<in> set es' \<longrightarrow> authorize (oi_action x) \<and>
           (k \<noteq> KPriority \<longrightarrow> ob_priority t = []) \<and> (k = KResource \<longrightarrow> ob_normal t = [])"
    "\<forall>k x. Withheld k x \<in> set es' \<longrightarrow> \<not> authorize (oi_action x)"
    unfolding drained_def by blast
  then show ?thesis
    unfolding hands_over_def using assms(2,3) by (intro exI [of _ "es @ es'"]) simp
qed

lemma overflow_events:
  "\<exists>es. ob_events (outbox_overflow s) = ob_events s @ es \<and> (\<forall>k x. Handed k x \<notin> set es \<and> Withheld k x \<notin> set es)"
  by (auto simp: outbox_overflow_def outbox_close_def log_event_def Let_def)

lemma send_hands_over:
  assumes "outbox_send authorize encoded kind action s = (ok, t)"
  shows "hands_over authorize s t"
proof -
  let ?x = "\<lparr>oi_action = action, oi_bytes = byte_length encoded, oi_encoded = encoded\<rparr>"
  have "hands_over authorize s (outbox_overflow u)" if "ob_events u = ob_events s" for u
    using overflow_events [of u] that hands_over_silent by metis
  moreover have "hands_over authorize s (outbox_drain authorize (outbox_keep kind ?x s))"
    by (rule hands_over_drained [where es = "[]", OF drain_drained]) (simp_all add: keep_fields)
  moreover have "hands_over authorize s s" by (rule hands_over_silent [where es = "[]"]) simp_all
  ultimately show ?thesis using assms by (auto simp: outbox_send_def Let_def keep_fields split: if_splits)
qed

lemma sent_hands_over: "hands_over authorize s (outbox_sent authorize failed s)"
proof (cases failed)
  case True
  have "\<exists>es. ob_events (outbox_sent authorize failed s) = ob_events s @ es \<and> (\<forall>k x. Handed k x \<notin> set es \<and> Withheld k x \<notin> set es)"
    by (auto simp: outbox_sent_def Let_def True)
  then show ?thesis using hands_over_silent by metis
next
  case False
  obtain es where "ob_events (wake_room_waiter (s\<lparr>ob_sending := False\<rparr>)) = ob_events s @ es"
    "\<forall>k x. Handed k x \<notin> set es \<and> Withheld k x \<notin> set es"
    using wake_room_waiter_events [of "s\<lparr>ob_sending := False\<rparr>"] by auto
  then show ?thesis
    using hands_over_drained [OF drain_drained, of "wake_room_waiter (s\<lparr>ob_sending := False\<rparr>)" s es authorize]
    by (simp add: outbox_sent_def False)
qed

lemma step_hands_over:
  assumes "outbox_step authorize (s, h) (t, h')"
  shows "hands_over authorize s t"
  using assms
proof (cases rule: outbox_step.cases)
  case (room_asked bytes promise)
  then show ?thesis
    by (intro hands_over_silent [where es = "drop (length (ob_events s)) (ob_events t)"])
      (auto simp: when_room_for_def split: if_splits)
next
  case (socket_moves state)
  then show ?thesis by (intro hands_over_silent [where es = "[]"]) simp_all
next
  case owner_closes
  then show ?thesis
    by (intro hands_over_silent [where es = "map (\<lambda>w. Resolved (rw_promise w) False) (ob_waiters s)"])
      (auto simp: outbox_close_def)
next
  case (immediate n)
  then show ?thesis
    using wake_room_waiter_events [of "s\<lparr>ob_wakes := n\<rparr>"] hands_over_silent by fastforce
qed (auto intro: send_hands_over sent_hands_over)

text \<open>C21: A browser's outbox never keeps more bytes or messages than its limits, and its count of
  bytes is the sum of those kept. It never stalls: as long as it's open, messages are kept
  only while one is on its way to the socket, and a burst waits for room only while one is or
  a wake is due.\<close>

theorem outbox_bounded_and_live:
  assumes "reach (new_outbox max_bytes max_messages socket, []) (\<lambda>r r'. \<exists>authorize. outbox_step authorize r r') (s, h)"
  shows "ob_bytes s = sum_list (map (int \<circ> oi_bytes) (ob_priority s @ ob_normal s)) +
      (case ob_resource s of None \<Rightarrow> 0 | Some x \<Rightarrow> int (oi_bytes x)) \<and>
    ob_bytes s \<le> int max_bytes \<and> message_count s \<le> max_messages \<and>
    (ob_closed s \<or> ob_sending s \<or> message_count s = 0 \<and> (ob_waiters s = [] \<or> 0 < ob_wakes s))"
proof -
  have "outbox_inv max_bytes max_messages (s, h)" by (rule outbox_run.inv_reach [OF assms])
  then show ?thesis
    by (auto simp: outbox_inv_def outbox_ok_def kept_bytes_def sizes_def comp_def kept.simps split: option.splits)
qed

theorem outbox_bounded_and_live_witness:
  "message_count (snd (outbox_send (\<lambda>_. True) [65] KConsole None (new_outbox 10 2 SockOpen))) \<le> 2"
proof -
  let ?s = "snd (outbox_send (\<lambda>_. True) [65] KConsole None (new_outbox 10 2 SockOpen))"
  have "outbox_send (\<lambda>_. True) [65] KConsole None (new_outbox 10 2 SockOpen) = (True, ?s)"
    by (simp add: outbox_send_def new_outbox_def outbox_keep_def message_count_def byte_length_def utf8_encode_def
        utf8_point_def unit_point_def high_surrogate_def low_surrogate_def)
  then have "reach (new_outbox 10 2 SockOpen, []) (\<lambda>r r'. \<exists>authorize. outbox_step authorize r r')
      (?s, [] @ [(KConsole, \<lparr>oi_action = None, oi_bytes = byte_length [65], oi_encoded = [65]\<rparr>)])"
    by (intro reach_step [OF reach_init] exI send_accepted [OF _ refl])
  from outbox_bounded_and_live [OF this] show ?thesis by simp
qed

text \<open>C22: Messages leave in the order they were accepted: of console and of priority messages, what
  passed and then what is kept is what was accepted, all of it while the outbox is open; of a
  resource's, the last is kept or has passed. A message goes to the socket only if the browser
  may see it at that moment, a console message only when no priority message is kept, and a
  resource's only when neither is.\<close>

theorem outbox_order:
  assumes "reach (new_outbox max_bytes max_messages socket, []) (\<lambda>r r'. \<exists>authorize. outbox_step authorize r r') (s, h)"
    and "outbox_step authorize (s, h) (t, h')"
  shows "hands_over authorize s t \<and>
    (k \<noteq> KResource \<longrightarrow> prefix (passed k (ob_events t) @ kept k t) (accepted k h') \<and>
       (\<not> ob_closed t \<longrightarrow> passed k (ob_events t) @ kept k t = accepted k h')) \<and>
    subseq (passed KResource (ob_events t) @ kept KResource t) (accepted KResource h') \<and>
    (\<not> ob_closed t \<longrightarrow> accepted KResource h' \<noteq> [] \<longrightarrow>
       last (passed KResource (ob_events t) @ kept KResource t) = last (accepted KResource h'))"
proof -
  have "outbox_inv max_bytes max_messages (s, h)" by (rule outbox_run.inv_reach [OF assms(1)])
  from outbox_step_inv [OF this assms(2)] have "in_order k (t, h')" "in_order KResource (t, h')"
    by (simp_all add: outbox_inv_def)
  then show ?thesis using step_hands_over [OF assms(2)] by (auto simp: in_order_def ordered_def)
qed

theorem outbox_order_witness:
  "hands_over (\<lambda>_. True) (new_outbox 10 2 SockOpen) (outbox_close (new_outbox 10 2 SockOpen))"
  using outbox_order [OF reach_init owner_closes] by blast

end
