(* ===== verification/Js_Numbers.thy ===== *)
theory Js_Numbers
  imports Js_Text
begin

text \<open>
  Numbers as bytes: big-endian integers of a number of bytes, as \<open>DataView\<close> and \<open>Buffer\<close>
  read and write them, and JavaScript's numbers as the bits of a double, which \<open>writeFloatBE\<close>
  rounds to the nearest float (to even when between two) and \<open>getFloat32\<close> widens.
\<close>

section \<open>Big-endian integers\<close>

primrec be_bytes :: "nat \<Rightarrow> nat \<Rightarrow> byte list" where
  "be_bytes 0 v = []"
| "be_bytes (Suc n) v = be_bytes n (v div 256) @ [byte_of (v mod 256)]"

definition be_nat :: "byte list \<Rightarrow> nat" where
  "be_nat bs = foldl (\<lambda>a b. a * 256 + unat b) 0 bs"

lemma be_nat_snoc [simp]: "be_nat [] = 0" "be_nat (bs @ [b]) = be_nat bs * 256 + unat b"
  by (simp_all add: be_nat_def)

lemma length_be_bytes [simp]: "length (be_bytes n v) = n"
  by (induction n arbitrary: v) simp_all

lemma be_bytes_numerals:
  "be_bytes 1 v = [byte_of (v mod 256)]" "be_bytes (Suc 0) v = [byte_of (v mod 256)]"
  "be_bytes 2 v = [byte_of (v div 256 mod 256), byte_of (v mod 256)]"
  "be_bytes 4 v = [byte_of (v div 16777216 mod 256), byte_of (v div 65536 mod 256), byte_of (v div 256 mod 256), byte_of (v mod 256)]"
proof -
  have n: "1 = Suc 0" "2 = Suc (Suc 0)" "4 = Suc (Suc (Suc (Suc 0)))" by simp_all
  have d: "v div 256 div 256 = v div 65536" "v div 65536 div 256 = v div 16777216" by (simp_all add: div_mult2_eq [symmetric])
  show "be_bytes 1 v = [byte_of (v mod 256)]" "be_bytes (Suc 0) v = [byte_of (v mod 256)]"
    by (simp_all only: n be_bytes.simps append.simps)
  show "be_bytes 2 v = [byte_of (v div 256 mod 256), byte_of (v mod 256)]"
    by (simp only: n be_bytes.simps append.simps)
  show "be_bytes 4 v = [byte_of (v div 16777216 mod 256), byte_of (v div 65536 mod 256), byte_of (v div 256 mod 256), byte_of (v mod 256)]"
    by (simp only: n(3) be_bytes.simps append.simps d)
qed

lemma be_nat_bytes: "be_nat (be_bytes n v) = v mod 256 ^ n"
  by (induction n arbitrary: v) (simp_all add: mod_mult2_eq [of _ 256])

lemma be_nat_less: "be_nat bs < 256 ^ length bs"
proof (induction bs rule: rev_induct)
  case (snoc b bs)
  have "be_nat bs * 256 + unat b < (be_nat bs + 1) * 256" using unat_byte_less [of b] by simp
  also have "\<dots> \<le> 256 ^ length bs * 256" using snoc by (intro mult_right_mono) simp_all
  finally show ?case by simp
qed simp

text \<open>Two's complement in \<open>n\<close> bytes.\<close>

definition in_range :: "nat \<Rightarrow> int \<Rightarrow> bool" where
  "in_range n v \<longleftrightarrow> - (2 ^ (8 * n - 1)) \<le> v \<and> v < 2 ^ (8 * n - 1)"

definition to_unsigned :: "nat \<Rightarrow> int \<Rightarrow> nat" where
  "to_unsigned n v = nat (v mod 2 ^ (8 * n))"

definition to_signed :: "nat \<Rightarrow> nat \<Rightarrow> int" where
  "to_signed n v = (if v < 2 ^ (8 * n - 1) then int v else int v - 2 ^ (8 * n))"

lemma pow_halves: "0 < n \<Longrightarrow> (2 :: 'a :: semiring_1) ^ (8 * n) = 2 ^ (8 * n - 1) + 2 ^ (8 * n - 1)"
  by (metis (no_types) One_nat_def Suc_pred mult_2 nat_0_less_mult_iff power_Suc zero_less_numeral)

lemma to_unsigned_less: "to_unsigned n v < 2 ^ (8 * n)"
  by (simp add: to_unsigned_def nat_less_iff)

lemma to_signed_unsigned:
  assumes "0 < n" and "in_range n v"
  shows "to_signed n (to_unsigned n v) = v"
proof (cases "0 \<le> v")
  case True
  with assms have "v mod 2 ^ (8 * n) = v" by (simp add: in_range_def pow_halves)
  with True assms show ?thesis by (simp add: to_signed_def to_unsigned_def in_range_def nat_less_iff)
next
  case False
  have "(v + 2 ^ (8 * n)) mod 2 ^ (8 * n) = v + 2 ^ (8 * n)"
    using False assms by (intro mod_pos_pos_trivial) (simp_all add: in_range_def pow_halves)
  then have "v mod 2 ^ (8 * n) = v + 2 ^ (8 * n)" by simp
  with False assms show ?thesis
    by (simp add: to_signed_def to_unsigned_def in_range_def pow_halves nat_less_iff)
qed

lemma to_signed_range:
  assumes "0 < n" and "v < 2 ^ (8 * n)"
  shows "in_range n (to_signed n v)"
proof -
  have "int v < 2 ^ (8 * n)" using assms(2) by (metis of_nat_less_iff of_nat_numeral of_nat_power)
  moreover have "int v < 2 ^ (8 * n - 1) \<longleftrightarrow> v < 2 ^ (8 * n - 1)"
    by (metis of_nat_less_iff of_nat_numeral of_nat_power)
  ultimately show ?thesis using assms(1) by (auto simp: to_signed_def in_range_def pow_halves)
qed

section \<open>Doubles and floats\<close>

type_synonym double_bits = "64 word"
type_synonym float_bits = "32 word"

definition double_magnitude :: "double_bits \<Rightarrow> nat" where
  "double_magnitude w = unat w mod 2 ^ 63"

definition finite_double :: "double_bits \<Rightarrow> bool" where
  "finite_double w \<longleftrightarrow> double_magnitude w < 2047 * 2 ^ 52"

text \<open>\<open>m / 2^s\<close> to the nearest integer, to the even one when halfway.\<close>

definition round_even :: "nat \<Rightarrow> nat \<Rightarrow> nat" where
  "round_even m s =
     (let q = m div 2 ^ s; r = m mod 2 ^ s
      in if 2 * r > 2 ^ s \<or> 2 * r = 2 ^ s \<and> odd q then q + 1 else q)"

definition narrow_magnitude :: "nat \<Rightarrow> nat" where
  "narrow_magnitude w =
     (let e = max 1 (w div 2 ^ 52);
          m = (if w div 2 ^ 52 = 0 then 0 else 2 ^ 52) + w mod 2 ^ 52
      in min (255 * 2 ^ 23) ((e - 897) * 2 ^ 23 + round_even m (29 + (897 - e))))"

fun top_bit :: "nat \<Rightarrow> nat" where
  "top_bit n = (if n < 2 then 0 else Suc (top_bit (n div 2)))"

declare top_bit.simps [simp del]

definition widen_magnitude :: "nat \<Rightarrow> nat" where
  "widen_magnitude w =
     (let e = w div 2 ^ 23; f = w mod 2 ^ 23 in
      if e = 255 then 2047 * 2 ^ 52 + f * 2 ^ 29
      else if 0 < e then (e + 896) * 2 ^ 52 + f * 2 ^ 29
      else if f = 0 then 0
      else (top_bit f + 874) * 2 ^ 52 + (f - 2 ^ top_bit f) * 2 ^ (52 - top_bit f))"

definition float_magnitude :: "float_bits \<Rightarrow> nat" where
  "float_magnitude w = unat w mod 2 ^ 31"

definition narrow :: "double_bits \<Rightarrow> float_bits" where
  "narrow w = word_of_nat ((if unat w < 2 ^ 63 then 0 else 2 ^ 31) + narrow_magnitude (double_magnitude w))"

definition widen :: "float_bits \<Rightarrow> double_bits" where
  "widen w = word_of_nat ((if unat w < 2 ^ 31 then 0 else 2 ^ 63) + widen_magnitude (float_magnitude w))"

definition finite_float :: "float_bits \<Rightarrow> bool" where
  "finite_float w \<longleftrightarrow> float_magnitude w < 255 * 2 ^ 23"

subsection \<open>A float survives being a double\<close>

lemma top_bit_bounds: "0 < n \<Longrightarrow> 2 ^ top_bit n \<le> n \<and> n < 2 * 2 ^ top_bit n"
proof (induction n rule: top_bit.induct)
  case (1 n)
  show ?case
  proof (cases "n < 2")
    case True
    with 1(2) show ?thesis by (simp add: top_bit.simps)
  next
    case False
    with 1(1) [OF False] have "2 ^ top_bit (n div 2) \<le> n div 2" "n div 2 < 2 * 2 ^ top_bit (n div 2)" by auto
    with False show ?thesis by (subst (1 2) top_bit.simps) auto
  qed
qed

lemma round_even_exact: "round_even (q * 2 ^ s) s = q"
  by (simp add: round_even_def)

lemma widen_magnitude_cases:
  assumes "w < 255 * 2 ^ 23"
  obtains "w = 0" "widen_magnitude w = 0"
  | k where "0 < w" "w < 2 ^ 23" "k < 23" "2 ^ k \<le> w" "w < 2 * 2 ^ k"
      "widen_magnitude w = (k + 874) * 2 ^ 52 + (w - 2 ^ k) * 2 ^ (52 - k)"
  | e f where "w = e * 2 ^ 23 + f" "0 < e" "e < 255" "f < 2 ^ 23"
      "widen_magnitude w = (e + 896) * 2 ^ 52 + f * 2 ^ 29"
proof (cases "w < 2 ^ 23")
  case True
  show thesis
  proof (cases "w = 0")
    case True
    then show thesis by (intro that(1)) (simp_all add: widen_magnitude_def)
  next
    case nz: False
    then have b: "2 ^ top_bit w \<le> w" "w < 2 * 2 ^ top_bit w" using top_bit_bounds [of w] by auto
    from b(1) True have "(2::nat) ^ top_bit w < 2 ^ 23" by simp
    then have "top_bit w < 23" by (simp only: power_strict_increasing_iff)
    with b nz True show thesis by (intro that(2) [of "top_bit w"]) (simp_all add: widen_magnitude_def)
  qed
next
  case False
  define e f where "e = w div 2 ^ 23" and "f = w mod 2 ^ 23"
  have "w = e * 2 ^ 23 + f" "f < 2 ^ 23" by (simp_all add: e_def f_def)
  moreover have "0 < e" using False by (simp add: e_def div_greater_zero_iff)
  moreover have "e < 255" using assms by (simp add: e_def div_less_iff_less_mult)
  moreover have "widen_magnitude w = (e + 896) * 2 ^ 52 + f * 2 ^ 29"
    using \<open>0 < e\<close> \<open>e < 255\<close> by (simp add: widen_magnitude_def Let_def e_def f_def)
  ultimately show thesis by (intro that(3))
qed

lemma split52:
  assumes "f < (2 :: nat) ^ 52"
  shows "(e * 2 ^ 52 + f) div 2 ^ 52 = e" "(e * 2 ^ 52 + f) mod 2 ^ 52 = f"
  using assms by simp_all

lemma narrow_magnitude_eq:
  assumes "f < 2 ^ 52" and "0 < e"
  shows "narrow_magnitude (e * 2 ^ 52 + f) =
    min (255 * 2 ^ 23) ((e - 897) * 2 ^ 23 + round_even (2 ^ 52 + f) (29 + (897 - e)))"
  using assms unfolding narrow_magnitude_def Let_def split52 [OF assms(1)] by (simp add: max_def)

lemma narrow_widen_magnitude:
  assumes "w < 255 * 2 ^ 23"
  shows "narrow_magnitude (widen_magnitude w) = w \<and> widen_magnitude w < 2047 * 2 ^ 52"
  using assms
proof (cases rule: widen_magnitude_cases)
  case 1
  then show ?thesis by (simp add: narrow_magnitude_def round_even_def)
next
  case (2 k)
  let ?f = "(w - 2 ^ k) * 2 ^ (52 - k)"
  have pow: "(2::nat) ^ 52 = 2 ^ k * 2 ^ (52 - k)" using 2 by (simp only: power_add [symmetric]) simp
  have f: "?f < 2 ^ 52" unfolding pow using 2 by simp
  have m: "2 ^ 52 + ?f = w * 2 ^ (52 - k)"
    unfolding pow using 2 by (simp only: add_mult_distrib [symmetric]) simp
  have s: "29 + (897 - (k + 874)) = 52 - k" using 2 by simp
  have "narrow_magnitude (widen_magnitude w) = min (255 * 2 ^ 23) (((k + 874) - 897) * 2 ^ 23 + w)"
  proof -
    have "0 < k + 874" by simp
    then show ?thesis by (simp only: 2(6) narrow_magnitude_eq [OF f] s m round_even_exact)
  qed
  moreover have "widen_magnitude w < (k + 875) * 2 ^ 52" unfolding 2 using f by simp
  moreover have "(k + 875) * 2 ^ 52 \<le> (2047::nat) * 2 ^ 52" using 2 by (intro mult_right_mono) simp_all
  ultimately show ?thesis using 2 by simp
next
  case (3 e f)
  have pow: "(2::nat) ^ 52 = 2 ^ 23 * 2 ^ 29" by simp
  have f: "f * 2 ^ 29 < 2 ^ 52" unfolding pow using 3 by simp
  have m: "2 ^ 52 + f * 2 ^ 29 = (2 ^ 23 + f) * 2 ^ 29" by simp
  have s: "29 + (897 - (e + 896)) = 29" using 3 by simp
  have "narrow_magnitude (widen_magnitude w) = min (255 * 2 ^ 23) (((e + 896) - 897) * 2 ^ 23 + (2 ^ 23 + f))"
  proof -
    have "0 < e + 896" by simp
    then show ?thesis by (simp only: 3(5) narrow_magnitude_eq [OF f] s m round_even_exact)
  qed
  moreover have "((e + 896) - 897) * 2 ^ 23 + (2 ^ 23 + f) = w"
    using 3 by (cases e) simp_all
  moreover have "widen_magnitude w < (e + 897) * 2 ^ 52" unfolding 3(5) using f by simp
  moreover have "(e + 897) * 2 ^ 52 \<le> (2047::nat) * 2 ^ 52" using 3 by (intro mult_right_mono) simp_all
  ultimately show ?thesis using assms by simp
qed

lemma unat_sign:
  "m < 2 ^ 63 \<Longrightarrow> unat (word_of_nat ((if b then 0 else 2 ^ 63) + m) :: double_bits) = (if b then 0 else 2 ^ 63) + m"
  "k < 2 ^ 31 \<Longrightarrow> unat (word_of_nat ((if b then 0 else 2 ^ 31) + k) :: float_bits) = (if b then 0 else 2 ^ 31) + k"
  by (simp_all add: unat_of_nat del: of_nat_add)

lemma narrow_widen:
  assumes "finite_float w"
  shows "narrow (widen w) = w" and "finite_double (widen w)"
proof -
  let ?m = "float_magnitude w"
  have m: "?m < 255 * 2 ^ 23" using assms by (simp add: finite_float_def)
  note nw = narrow_widen_magnitude [OF m]
  have u: "unat (widen w) = (if unat w < 2 ^ 31 then 0 else 2 ^ 63) + widen_magnitude ?m"
    unfolding widen_def by (rule unat_sign) (use nw in simp)
  then have mag: "double_magnitude (widen w) = widen_magnitude ?m" and sign: "unat (widen w) < 2 ^ 63 \<longleftrightarrow> unat w < 2 ^ 31"
    using nw by (simp_all add: double_magnitude_def)
  show "finite_double (widen w)" using nw by (simp add: finite_double_def mag)
  have "unat w < 2 * 2 ^ 31" using unsigned_less [of w] by simp
  then have whole: "(if unat w < 2 ^ 31 then 0 else 2 ^ 31) + ?m = unat w"
    by (auto simp: float_magnitude_def not_less le_mod_geq)
  have "narrow (widen w) = word_of_nat (unat w)"
    by (simp only: narrow_def mag sign nw [THEN conjunct1] whole)
  then show "narrow (widen w) = w" by simp
qed

lemma narrow_finite_less: "narrow_magnitude m \<le> 255 * 2 ^ 23"
  by (simp add: narrow_magnitude_def Let_def)

text \<open>A double narrows to a finite float unless it rounds past the largest.\<close>

lemma finite_narrow: "finite_float (narrow w) \<longleftrightarrow> narrow_magnitude (double_magnitude w) < 255 * 2 ^ 23"
proof -
  let ?m = "narrow_magnitude (double_magnitude w)"
  have "?m < 2 ^ 31" using narrow_finite_less [of "double_magnitude w"] by simp
  then have "float_magnitude (narrow w) = ?m"
    unfolding float_magnitude_def narrow_def unat_sign(2) [OF \<open>?m < 2 ^ 31\<close>] by simp
  then show ?thesis by (simp add: finite_float_def)
qed

lemma magnitude_widen:
  assumes "widen_magnitude (float_magnitude w) < 2 ^ 63"
  shows "double_magnitude (widen w) = widen_magnitude (float_magnitude w)"
  unfolding double_magnitude_def widen_def unat_sign(1) [OF assms] using assms by simp

lemma split_digit: "f < n \<Longrightarrow> (e * n + f) div n = e" "f < n \<Longrightarrow> (e * n + f) mod n = (f :: nat)"
  by simp_all

lemma finite_widen: "finite_double (widen w) \<longleftrightarrow> finite_float w"
proof
  assume fin: "finite_double (widen w)"
  show "finite_float w"
  proof (rule ccontr)
    assume "\<not> finite_float w"
    then have m: "255 * 2 ^ 23 \<le> float_magnitude w" "float_magnitude w < 256 * 2 ^ 23"
      by (simp_all add: finite_float_def float_magnitude_def)
    define f where "f = float_magnitude w - 255 * 2 ^ 23"
    have f: "float_magnitude w = 255 * 2 ^ 23 + f" "f < 2 ^ 23" using m by (simp_all add: f_def)
    have "(255 * 2 ^ 23 + f) div 2 ^ 23 = 255" "(255 * 2 ^ 23 + f) mod 2 ^ 23 = f"
      using split_digit [OF f(2), of 255] by simp_all
    then have "widen_magnitude (float_magnitude w) = 2047 * 2 ^ 52 + f * 2 ^ 29"
      unfolding f(1) widen_magnitude_def Let_def by simp
    moreover have "2047 * 2 ^ 52 + f * 2 ^ 29 < 2 ^ 63" using f(2) by simp
    ultimately have "double_magnitude (widen w) = 2047 * 2 ^ 52 + f * 2 ^ 29"
      using magnitude_widen by metis
    with fin show False by (simp add: finite_double_def)
  qed
qed (rule narrow_widen(2))

end
