(* ===== verification/Nbt.thy ===== *)
theory Nbt
  imports Js_Numbers
begin

text \<open>
  \<open>apps/relay/src/nbt.ts\<close>, with the tags of \<open>packages/contracts/src/snbt.ts\<close>: Minecraft's
  binary NBT. A reader takes the bytes not yet read and returns those that remain, so the
  code's offset is the length of what it has passed; a writer returns the bytes it appends.
  A tag's number is an integer, and a float's or double's is the bits of the JavaScript
  number it holds.
\<close>

section \<open>Tags\<close>

datatype nbt_type =
    NEnd | NByte | NShort | NInt | NLong | NFloat | NDouble | NByteArray | NString | NList
  | NCompound | NIntArray | NLongArray

datatype element_type = Elements nbt_type | Mixed

datatype nbt_tag =
    TByte int
  | TShort int
  | TInt int
  | TLong int
  | TFloat double_bits
  | TDouble double_bits
  | TByteArray "int list"
  | TString code_units
  | TList element_type "nbt_tag list"
  | TCompound "(code_units \<times> nbt_tag) list"
  | TIntArray "int list"
  | TLongArray "int list"

fun tag_type :: "nbt_tag \<Rightarrow> nbt_type" where
  "tag_type (TByte _) = NByte"
| "tag_type (TShort _) = NShort"
| "tag_type (TInt _) = NInt"
| "tag_type (TLong _) = NLong"
| "tag_type (TFloat _) = NFloat"
| "tag_type (TDouble _) = NDouble"
| "tag_type (TByteArray _) = NByteArray"
| "tag_type (TString _) = NString"
| "tag_type (TList _ _) = NList"
| "tag_type (TCompound _) = NCompound"
| "tag_type (TIntArray _) = NIntArray"
| "tag_type (TLongArray _) = NLongArray"

record named_nbt =
  nn_name :: code_units
  nn_tag :: nbt_tag

definition tag_type_by_id :: "nbt_type list" where
  "tag_type_by_id =
     [NEnd, NByte, NShort, NInt, NLong, NFloat, NDouble, NByteArray, NString, NList, NCompound, NIntArray, NLongArray]"

definition tag_id_by_type :: "nbt_type \<Rightarrow> nat option" where
  "tag_id_by_type t = map_of (zip tag_type_by_id [0..<length tag_type_by_id]) t"

definition max_nbt_depth :: nat where
  "max_nbt_depth = 512"

text \<open>The messages of the errors thrown; \<open>OutOfRange\<close> is \<open>Buffer\<close>'s \<open>RangeError\<close>.\<close>

datatype nbt_error =
    TrailingData | InvalidType nat | InvalidUtf8 | TooDeep | EndAsValue | EndInList | NegativeLength string
  | LengthExceedsFile string | NonFiniteFloat | NonFiniteDouble | EndedEarly
  | UnknownType | StringTooLong | MixedList | LengthOutOfRange | FloatNotFinite | DoubleNotFinite | OutOfRange
  | OutOfFuel

type_synonym 'a reader = "byte list \<Rightarrow> nbt_error + 'a \<times> byte list"

section \<open>Reading\<close>

definition read_bytes :: "nat \<Rightarrow> byte list reader" where
  "read_bytes n bs = (if n > length bs then Inl EndedEarly else Inr (take n bs, drop n bs))"

definition read_unsigned :: "nat \<Rightarrow> nat reader" where
  "read_unsigned n bs = and_then (read_bytes n bs) (\<lambda>(v, rest). Inr (be_nat v, rest))"

definition read_signed :: "nat \<Rightarrow> int reader" where
  "read_signed n bs = and_then (read_unsigned n bs) (\<lambda>(v, rest). Inr (to_signed n v, rest))"

definition read_type :: "bool \<Rightarrow> nbt_type reader" where
  "read_type allow_end bs = and_then (read_unsigned 1 bs) (\<lambda>(i, rest).
     if i \<ge> length tag_type_by_id \<or> \<not> allow_end \<and> tag_type_by_id ! i = NEnd then Inl (InvalidType i)
     else Inr (tag_type_by_id ! i, rest))"

definition read_string :: "code_units reader" where
  "read_string bs = and_then (read_unsigned 2 bs) (\<lambda>(len, rest).
     and_then (read_bytes len rest) (\<lambda>(encoded, rest).
       case utf8_decode encoded of None \<Rightarrow> Inl InvalidUtf8 | Some us \<Rightarrow> Inr (us, rest)))"

definition read_length :: "nat \<Rightarrow> string \<Rightarrow> nat reader" where
  "read_length filesize label bs = and_then (read_signed 4 bs) (\<lambda>(len, rest).
     if len < 0 then Inl (NegativeLength label)
     else if len > int filesize then Inl (LengthExceedsFile label)
     else Inr (nat len, rest))"

definition read_float :: "double_bits reader" where
  "read_float bs = and_then (read_unsigned 4 bs) (\<lambda>(v, rest).
     let value = widen (word_of_nat v) in if \<not> finite_double value then Inl NonFiniteFloat else Inr (value, rest))"

definition read_double :: "double_bits reader" where
  "read_double bs = and_then (read_unsigned 8 bs) (\<lambda>(v, rest).
     let value = word_of_nat v in if \<not> finite_double value then Inl NonFiniteDouble else Inr (value, rest))"

primrec read_many :: "nat \<Rightarrow> 'a reader \<Rightarrow> 'a list reader" where
  "read_many 0 item bs = Inr ([], bs)"
| "read_many (Suc n) item bs = and_then (item bs) (\<lambda>(x, rest).
     and_then (read_many n item rest) (\<lambda>(xs, rest). Inr (x # xs, rest)))"

text \<open>
  A compound's entries up to its end. Each takes at least a byte, so no more turns than there
  are bytes are needed.
\<close>

primrec read_entries :: "nat \<Rightarrow> (nbt_type \<Rightarrow> 'a reader) \<Rightarrow> (code_units \<times> 'a) list reader" where
  "read_entries 0 payload bs = Inl OutOfFuel"
| "read_entries (Suc n) payload bs = and_then (read_type True bs) (\<lambda>(child, rest).
     if child = NEnd then Inr ([], rest)
     else and_then (read_string rest) (\<lambda>(name, rest).
       and_then (payload child rest) (\<lambda>(tag, rest).
         and_then (read_entries n payload rest) (\<lambda>(xs, rest). Inr ((name, tag) # xs, rest)))))"

definition byte_value :: "byte \<Rightarrow> int" where
  "byte_value b = (if unat b > 127 then int (unat b) - 256 else int (unat b))"

text \<open>
  \<open>readPayload(type, depth)\<close> of a source of \<open>filesize\<close> bytes, where \<open>levels\<close> is
  \<open>maxNbtDepth + 1 - depth\<close>: none are left exactly when the depth exceeds the most.
\<close>

fun read_payload :: "nat \<Rightarrow> nat \<Rightarrow> nbt_type \<Rightarrow> nbt_tag reader" where
  "read_payload filesize 0 t bs = Inl TooDeep"
| "read_payload filesize (Suc levels) t bs =
     (case t of
        NEnd \<Rightarrow> Inl EndAsValue
      | NByte \<Rightarrow> and_then (read_signed 1 bs) (\<lambda>(v, rest). Inr (TByte v, rest))
      | NShort \<Rightarrow> and_then (read_signed 2 bs) (\<lambda>(v, rest). Inr (TShort v, rest))
      | NInt \<Rightarrow> and_then (read_signed 4 bs) (\<lambda>(v, rest). Inr (TInt v, rest))
      | NLong \<Rightarrow> and_then (read_signed 8 bs) (\<lambda>(v, rest). Inr (TLong v, rest))
      | NFloat \<Rightarrow> and_then (read_float bs) (\<lambda>(v, rest). Inr (TFloat v, rest))
      | NDouble \<Rightarrow> and_then (read_double bs) (\<lambda>(v, rest). Inr (TDouble v, rest))
      | NByteArray \<Rightarrow> and_then (read_length filesize ''byte array'' bs) (\<lambda>(len, rest).
          and_then (read_bytes len rest) (\<lambda>(vs, rest). Inr (TByteArray (map byte_value vs), rest)))
      | NString \<Rightarrow> and_then (read_string bs) (\<lambda>(v, rest). Inr (TString v, rest))
      | NList \<Rightarrow> and_then (read_type True bs) (\<lambda>(element, rest).
          and_then (read_length filesize ''list'' rest) (\<lambda>(len, rest).
            if len > 0 \<and> element = NEnd then Inl EndInList
            else and_then (read_many len (read_payload filesize levels element) rest) (\<lambda>(vs, rest).
              Inr (TList (Elements element) vs, rest))))
      | NCompound \<Rightarrow> and_then (read_entries (Suc (length bs)) (read_payload filesize levels) bs) (\<lambda>(vs, rest).
          Inr (TCompound vs, rest))
      | NIntArray \<Rightarrow> and_then (read_length filesize ''int array'' bs) (\<lambda>(len, rest).
          and_then (read_many len (read_signed 4) rest) (\<lambda>(vs, rest). Inr (TIntArray vs, rest)))
      | NLongArray \<Rightarrow> and_then (read_length filesize ''long array'' bs) (\<lambda>(len, rest).
          and_then (read_many len (read_signed 8) rest) (\<lambda>(vs, rest). Inr (TLongArray vs, rest))))"

definition decode_nbt :: "byte list \<Rightarrow> nbt_error + named_nbt" where
  "decode_nbt source =
     and_then (read_type False source) (\<lambda>(t, rest).
       and_then (read_string rest) (\<lambda>(name, rest).
         and_then (read_payload (length source) (max_nbt_depth + 1) t rest) (\<lambda>(tag, rest).
           if rest \<noteq> [] then Inl TrailingData else Inr \<lparr>nn_name = name, nn_tag = tag\<rparr>)))"

section \<open>Writing\<close>

definition write_type :: "nbt_type \<Rightarrow> nbt_error + byte list" where
  "write_type t = (case tag_id_by_type t of None \<Rightarrow> Inl UnknownType | Some i \<Rightarrow> Inr (be_bytes 1 i))"

definition write_string :: "code_units \<Rightarrow> nbt_error + byte list" where
  "write_string us =
     (let encoded = utf8_encode us in
      if length encoded > 65535 then Inl StringTooLong else Inr (be_bytes 2 (length encoded) @ encoded))"

definition write_signed :: "nat \<Rightarrow> int \<Rightarrow> nbt_error + byte list" where
  "write_signed n v = (if in_range n v then Inr (be_bytes n (to_unsigned n v)) else Inl OutOfRange)"

definition write_length :: "nat \<Rightarrow> nbt_error + byte list" where
  "write_length n = (if n > 2147483647 then Inl LengthOutOfRange else write_signed 4 (int n))"

definition write_float :: "double_bits \<Rightarrow> nbt_error + byte list" where
  "write_float v = (if \<not> finite_double v then Inl FloatNotFinite else Inr (be_bytes 4 (unat (narrow v))))"

definition write_double :: "double_bits \<Rightarrow> nbt_error + byte list" where
  "write_double v = (if \<not> finite_double v then Inl DoubleNotFinite else Inr (be_bytes 8 (unat v)))"

text \<open>One after the other.\<close>

definition also_write :: "nbt_error + byte list \<Rightarrow> nbt_error + byte list \<Rightarrow> nbt_error + byte list" where
  "also_write a b = and_then a (\<lambda>xs. and_then b (\<lambda>ys. Inr (xs @ ys)))"

primrec write_all :: "('a \<Rightarrow> nbt_error + byte list) \<Rightarrow> 'a list \<Rightarrow> nbt_error + byte list" where
  "write_all f [] = Inr []"
| "write_all f (x # xs) = also_write (f x) (write_all f xs)"

definition list_element_type :: "nbt_tag list \<Rightarrow> nbt_type" where
  "list_element_type vs = (case vs of [] \<Rightarrow> NEnd | v # _ \<Rightarrow> tag_type v)"

fun write_payload :: "nbt_tag \<Rightarrow> nat \<Rightarrow> nbt_error + byte list"
  and write_elements :: "nbt_tag list \<Rightarrow> nat \<Rightarrow> nbt_error + byte list"
  and write_entries :: "(code_units \<times> nbt_tag) list \<Rightarrow> nat \<Rightarrow> nbt_error + byte list" where
  "write_payload tag depth =
     (if depth > max_nbt_depth then Inl TooDeep
      else case tag of
        TByte v \<Rightarrow> write_signed 1 v
      | TShort v \<Rightarrow> write_signed 2 v
      | TInt v \<Rightarrow> write_signed 4 v
      | TLong v \<Rightarrow> write_signed 8 v
      | TFloat v \<Rightarrow> write_float v
      | TDouble v \<Rightarrow> write_double v
      | TByteArray vs \<Rightarrow> also_write (write_length (length vs)) (Inr (map (\<lambda>v. byte_of (nat (v mod 256))) vs))
      | TString v \<Rightarrow> write_string v
      | TList element vs \<Rightarrow>
          if element = Mixed \<or> (\<exists>v\<in>set vs. tag_type v \<noteq> list_element_type vs) then Inl MixedList
          else also_write (write_type (list_element_type vs))
            (also_write (write_length (length vs)) (write_elements vs (depth + 1)))
      | TCompound vs \<Rightarrow> also_write (write_entries vs (depth + 1)) (write_type NEnd)
      | TIntArray vs \<Rightarrow> also_write (write_length (length vs)) (write_all (write_signed 4) vs)
      | TLongArray vs \<Rightarrow> also_write (write_length (length vs)) (write_all (write_signed 8) vs))"
| "write_elements [] depth = Inr []"
| "write_elements (v # vs) depth = also_write (write_payload v depth) (write_elements vs depth)"
| "write_entries [] depth = Inr []"
| "write_entries (e # es) depth =
     also_write (write_type (tag_type (snd e)))
       (also_write (write_string (fst e)) (also_write (write_payload (snd e) depth) (write_entries es depth)))"

declare write_payload.simps [simp del]

definition encode_nbt :: "named_nbt \<Rightarrow> nbt_error + byte list" where
  "encode_nbt root =
     also_write (write_type (tag_type (nn_tag root)))
       (also_write (write_string (nn_name root)) (write_payload (nn_tag root) 0))"

end
