(* ===== verification/Js_Decimal.thy ===== *)
theory Js_Decimal
  imports Js_Numbers
begin

text \<open>
  JavaScript's numbers as decimal text: \<open>Number(text)\<close> gives the double nearest to a decimal
  (to even when halfway), and \<open>String(value)\<close> gives the fewest digits that are nearest to
  the value, laid out as ECMAScript's \<open>Number::toString\<close> lays them out. A double's magnitude is
  its bits without the sign; one of magnitude \<open>s * 2^52 + m\<close> is \<open>m * 2^s / 2^1074\<close>.
\<close>

section \<open>Decimal digits\<close>

fun dec_digits :: "nat \<Rightarrow> nat list" where
  "dec_digits n = (if n < 10 then [n] else dec_digits (n div 10) @ [n mod 10])"

declare dec_digits.simps [simp del]

definition dec_value :: "nat list \<Rightarrow> nat" where
  "dec_value ds = foldl (\<lambda>a d. a * 10 + d) 0 ds"

lemma dec_value_snoc [simp]: "dec_value [] = 0" "dec_value (ds @ [d]) = dec_value ds * 10 + d"
  by (simp_all add: dec_value_def)

lemma dec_value_append: "dec_value (xs @ ys) = dec_value xs * 10 ^ length ys + dec_value ys"
proof (induction ys rule: rev_induct)
  case (snoc y ys)
  have "dec_value ((xs @ ys) @ [y]) = dec_value (xs @ ys) * 10 + y" by (rule dec_value_snoc)
  with snoc show ?case by (simp add: algebra_simps)
qed simp

lemma dec_value_zeros [simp]: "dec_value (replicate n 0) = 0"
  by (induction n) (simp_all add: dec_value_append [of "[0]", simplified] dec_value_def)

lemma dec_value_leading [simp]: "dec_value (replicate n 0 @ ds) = dec_value ds" "dec_value (0 # ds) = dec_value ds"
  using dec_value_append [of "[0]" ds] by (simp_all add: dec_value_append) (simp add: dec_value_def)

lemma dec_digits_spec: "dec_value (dec_digits n) = n \<and> dec_digits n \<noteq> [] \<and> (\<forall>d\<in>set (dec_digits n). d < 10) \<and>
    (0 < n \<longrightarrow> hd (dec_digits n) \<noteq> 0)"
proof (induction n rule: dec_digits.induct)
  case (1 n)
  show ?case
  proof (cases "n < 10")
    case True
    then show ?thesis using dec_value_snoc(2) [of "[]" n] by (simp add: dec_digits.simps)
  next
    case False
    with 1 [OF False] show ?thesis by (subst (1 2 3 4) dec_digits.simps) simp
  qed
qed

section \<open>The nearest double\<close>

definition round_div :: "nat \<Rightarrow> nat \<Rightarrow> nat" where
  "round_div a b =
     (let q = a div b; r = a mod b in if 2 * r > b \<or> 2 * r = b \<and> odd q then q + 1 else q)"

function shift_needed :: "nat \<Rightarrow> nat \<Rightarrow> nat" where
  "shift_needed n d = (if d = 0 \<or> n < d * 2 ^ 53 then 0 else Suc (shift_needed n (2 * d)))"
  by pat_completeness auto

termination
  by (relation "measure (\<lambda>(n, d). n - d)") auto

declare shift_needed.simps [simp del]

text \<open>The magnitude of the double nearest to \<open>n / d\<close>, that of infinity if it's past the largest.\<close>

definition nearest_double :: "nat \<Rightarrow> nat \<Rightarrow> nat" where
  "nearest_double n d =
     (let a = n * 2 ^ 1074; s = shift_needed a d
      in min (2047 * 2 ^ 52) (s * 2 ^ 52 + round_div a (d * 2 ^ s)))"

definition double_shift :: "nat \<Rightarrow> nat" where
  "double_shift w = w div 2 ^ 52 - 1"

definition double_mantissa :: "nat \<Rightarrow> nat" where
  "double_mantissa w = w - double_shift w * 2 ^ 52"

lemma round_div_exact: "0 < b \<Longrightarrow> round_div (q * b) b = q"
  by (simp add: round_div_def)

lemma round_div_scale:
  assumes "0 < c"
  shows "round_div (a * c) (b * c) = round_div a b"
proof -
  have "c * (2 * (a mod b)) = 2 * (a * c mod (b * c))" by (simp add: mod_mult_mult2 algebra_simps)
  then have "2 * (a * c mod (b * c)) > b * c \<longleftrightarrow> 2 * (a mod b) > b" "2 * (a * c mod (b * c)) = b * c \<longleftrightarrow> 2 * (a mod b) = b"
    using assms by (metis mult.commute nat_mult_less_cancel1, metis assms mult.commute nat_mult_eq_cancel1)
  moreover have "a * c div (b * c) = a div b" using assms by (simp add: div_mult_mult2)
  ultimately show ?thesis by (simp add: round_div_def Let_def)
qed

lemma shift_needed_scale: "0 < c \<Longrightarrow> shift_needed (n * c) (d * c) = shift_needed n d"
proof (induction n d rule: shift_needed.induct)
  case (1 n d)
  have less: "n * c < d * c * 2 ^ 53 \<longleftrightarrow> n < d * 2 ^ 53"
    using 1(2) by (metis mult.assoc mult.commute nat_mult_less_cancel1)
  show ?case
  proof (cases "d = 0 \<or> n < d * 2 ^ 53")
    case True
    then show ?thesis using less by (subst (1 2) shift_needed.simps) auto
  next
    case False
    have "shift_needed (n * c) (d * c) = Suc (shift_needed (n * c) (2 * (d * c)))"
      using False less 1(2) by (subst shift_needed.simps) auto
    also have "2 * (d * c) = 2 * d * c" by simp
    also have "shift_needed (n * c) (2 * d * c) = shift_needed n (2 * d)" using 1(1) [OF False 1(2)] .
    also have "Suc (shift_needed n (2 * d)) = shift_needed n d" using False by (subst (2) shift_needed.simps) auto
    finally show ?thesis .
  qed
qed

lemma nearest_double_scale: "0 < c \<Longrightarrow> nearest_double (n * c) (d * c) = nearest_double n d"
proof -
  assume c: "0 < c"
  have "n * c * 2 ^ 1074 = n * 2 ^ 1074 * c" by (simp only: mult_ac)
  moreover have "d * c * 2 ^ s = d * 2 ^ s * c" for s by (simp only: mult_ac)
  ultimately show ?thesis
    unfolding nearest_double_def Let_def by (simp only: shift_needed_scale [OF c] round_div_scale [OF c])
qed

lemma nearest_double_ratio:
  assumes "0 < d" "0 < d'" and "n * d' = n' * d"
  shows "nearest_double n d = nearest_double n' d'"
proof -
  have "nearest_double n d = nearest_double (n * d') (d * d')" using nearest_double_scale [OF assms(2)] by simp
  also have "\<dots> = nearest_double (n' * d) (d' * d)" by (simp only: assms(3) mult.commute [of d])
  also have "\<dots> = nearest_double n' d'" by (rule nearest_double_scale [OF assms(1)])
  finally show ?thesis .
qed

lemma shift_needed_exact:
  "0 < d \<Longrightarrow> m < 2 ^ 53 \<Longrightarrow> s = 0 \<or> 2 ^ 52 \<le> m \<Longrightarrow> shift_needed (m * 2 ^ s * d) d = s"
proof (induction s arbitrary: d)
  case 0
  then show ?case by (subst shift_needed.simps) (simp add: mult.commute)
next
  case (Suc s)
  have "d * 2 ^ 53 \<le> m * 2 ^ Suc s * d"
  proof -
    have "(2::nat) ^ 53 = 2 ^ 52 * 2" by simp
    also have "\<dots> \<le> m * 2 ^ Suc s" using Suc(4) by (intro mult_le_mono) (auto simp: self_le_power)
    finally show ?thesis by (simp add: mult.commute)
  qed
  then have "shift_needed (m * 2 ^ Suc s * d) d = Suc (shift_needed (m * 2 ^ Suc s * d) (2 * d))"
    using Suc(2) by (subst shift_needed.simps) auto
  moreover have e: "m * 2 ^ Suc s * d = m * 2 ^ s * (2 * d)" by simp
  moreover have "shift_needed (m * 2 ^ s * (2 * d)) (2 * d) = s" using Suc by (intro Suc.IH) auto
  ultimately show ?case by (simp only: e)
qed

lemma double_parts:
  assumes "w < 2047 * 2 ^ 52"
  shows "double_shift w * 2 ^ 52 + double_mantissa w = w" and "double_mantissa w < 2 ^ 53"
    and "double_shift w = 0 \<or> 2 ^ 52 \<le> double_mantissa w"
proof -
  have "w = w div 2 ^ 52 * 2 ^ 52 + w mod 2 ^ 52" "w mod 2 ^ 52 < 2 ^ 52" by simp_all
  then obtain e f where w: "w = e * 2 ^ 52 + f" "f < 2 ^ 52" by blast
  then have "w div 2 ^ 52 = e" by simp
  then show "double_shift w * 2 ^ 52 + double_mantissa w = w" "double_mantissa w < 2 ^ 53"
    "double_shift w = 0 \<or> 2 ^ 52 \<le> double_mantissa w"
    using w by (cases e; simp add: double_shift_def double_mantissa_def)+
qed

lemma nearest_double_exact:
  assumes "w < 2047 * 2 ^ 52"
  shows "nearest_double (double_mantissa w * 2 ^ double_shift w) (2 ^ 1074) = w"
proof -
  let ?m = "double_mantissa w" and ?s = "double_shift w"
  note p = double_parts [OF assms]
  have s: "shift_needed (?m * 2 ^ ?s * 2 ^ 1074) (2 ^ 1074) = ?s" by (rule shift_needed_exact) (use p in auto)
  have "round_div (?m * 2 ^ ?s * 2 ^ 1074) (2 ^ 1074 * 2 ^ ?s) = ?m"
    using round_div_exact [of "2 ^ 1074 * 2 ^ ?s" ?m] by (simp only: mult_ac) simp
  with s p(1) assms show ?thesis unfolding nearest_double_def Let_def by simp
qed

text \<open>The double nearest to \<open>n * 10^x\<close>.\<close>

definition nearest_decimal :: "nat \<Rightarrow> int \<Rightarrow> nat" where
  "nearest_decimal n x =
     (if 0 \<le> x then nearest_double (n * 10 ^ nat x) 1 else nearest_double n (10 ^ nat (- x)))"

lemma nearest_decimal_shift: "nearest_decimal (n * 10 ^ j) x = nearest_decimal n (x + int j)"
proof -
  consider "0 \<le> x" | "x < 0" "0 \<le> x + int j" | "x + int j < 0" by linarith
  then show ?thesis
  proof cases
    case 1
    then have "nat (x + int j) = j + nat x" by simp
    with 1 show ?thesis by (simp add: nearest_decimal_def power_add mult.assoc)
  next
    case 2
    then have "j = nat (- x) + nat (x + int j)" by simp
    then have j: "n * 10 ^ j * 1 = n * 10 ^ nat (x + int j) * 10 ^ nat (- x)" by (metis mult.assoc mult.commute mult.right_neutral power_add)
    have "nearest_double (n * 10 ^ j) (10 ^ nat (- x)) = nearest_double (n * 10 ^ nat (x + int j)) 1"
      by (rule nearest_double_ratio [OF _ _ j]) simp_all
    with 2 show ?thesis by (simp add: nearest_decimal_def)
  next
    case 3
    then have "nat (- x) = j + nat (- (x + int j))" by simp
    then have "nearest_double (n * 10 ^ j) (10 ^ nat (- x)) = nearest_double n (10 ^ nat (- (x + int j)))"
      by (intro nearest_double_ratio) (simp_all add: power_add)
    with 3 show ?thesis by (simp add: nearest_decimal_def)
  qed
qed

section \<open>Reading a decimal\<close>

definition digit_unit :: "nat \<Rightarrow> 16 word" where
  "digit_unit d = unit_of (48 + d)"

definition is_digit :: "16 word \<Rightarrow> bool" where
  "is_digit u \<longleftrightarrow> 48 \<le> unat u \<and> unat u \<le> 57"

definition digit_value :: "16 word \<Rightarrow> nat" where
  "digit_value u = unat u - 48"

definition digits_of :: "code_units \<Rightarrow> nat list" where
  "digits_of us = map digit_value us"

definition leading_digits :: "code_units \<Rightarrow> code_units \<times> code_units" where
  "leading_digits us = (takeWhile is_digit us, dropWhile is_digit us)"

text \<open>An optional sign, as a flag for minus.\<close>

definition leading_sign :: "code_units \<Rightarrow> bool \<times> code_units" where
  "leading_sign us = (case us of u # rest \<Rightarrow> if u = 45 then (True, rest) else if u = 43 then (False, rest) else (False, us)
                      | [] \<Rightarrow> (False, []))"

text \<open>\<open>([eE][+-]?\d+)?$\<close>\<close>

definition decimal_exponent :: "code_units \<Rightarrow> int option" where
  "decimal_exponent us =
     (case us of
        [] \<Rightarrow> Some 0
      | u # rest \<Rightarrow>
          if u = 101 \<or> u = 69 then
            (case leading_sign rest of (negative, ds) \<Rightarrow>
               if ds \<noteq> [] \<and> list_all is_digit ds
               then Some (if negative then - int (dec_value (digits_of ds)) else int (dec_value (digits_of ds)))
               else None)
          else None)"

text \<open>
  \<open>/^[+-]?(?:(?:\d+(?:\.\d*)?|\.\d+)(?:[eE][+-]?\d+)?)$/\<close> and the \<open>Number\<close> it denotes: the
  sign, and the magnitude of the double.
\<close>

definition read_decimal :: "code_units \<Rightarrow> (bool \<times> nat) option" where
  "read_decimal us =
     (case leading_sign us of (negative, us) \<Rightarrow>
        (case leading_digits us of (whole, us) \<Rightarrow>
           (case (case us of u # rest \<Rightarrow> if u = 46 then leading_digits rest else ([], us) | [] \<Rightarrow> ([], [])) of
              (fraction, us) \<Rightarrow>
                if whole = [] \<and> fraction = [] then None
                else (case decimal_exponent us of
                  None \<Rightarrow> None
                | Some e \<Rightarrow> Some (negative, nearest_decimal (dec_value (digits_of (whole @ fraction))) (e - int (length fraction)))))))"

definition double_of :: "bool \<Rightarrow> nat \<Rightarrow> double_bits" where
  "double_of negative w = word_of_nat ((if negative then 2 ^ 63 else 0) + w)"

section \<open>Writing a decimal\<close>

text \<open>
  The fewest digits nearest to a double. Its exact value is \<open>n / 10^1074\<close> with \<open>n\<close> of \<open>all\<close>
  digits; of the two decimals of \<open>k\<close> digits around it, the closer one that is nearest to the
  double is taken, an even one when both are as close.
\<close>

definition exact_digits :: "nat \<Rightarrow> nat" where
  "exact_digits w = double_mantissa w * 2 ^ double_shift w * 5 ^ 1074"

definition is_nearest :: "nat \<Rightarrow> nat \<Rightarrow> nat \<Rightarrow> bool" where
  "is_nearest w c j \<longleftrightarrow> nearest_decimal c (int j - 1074) = w"

definition choose_digits :: "nat \<Rightarrow> nat \<Rightarrow> nat \<Rightarrow> nat option" where
  "choose_digits w n j =
     (let lo = n div 10 ^ j; hi = lo + 1; below = n - lo * 10 ^ j; above = hi * 10 ^ j - n in
      if is_nearest w lo j \<and> (\<not> is_nearest w hi j \<or> below < above \<or> below = above \<and> even lo) then Some lo
      else if is_nearest w hi j then Some hi else None)"

text \<open>\<open>j\<close> digits are left out, as many as possible; leaving out none gives the exact value.\<close>

primrec shortest_digits :: "nat \<Rightarrow> nat \<Rightarrow> nat \<Rightarrow> nat \<times> nat" where
  "shortest_digits w n 0 = (n, 0)"
| "shortest_digits w n (Suc j) = (case choose_digits w n (Suc j) of Some c \<Rightarrow> (c, Suc j) | None \<Rightarrow> shortest_digits w n j)"

definition strip_zeros :: "nat list \<Rightarrow> nat list" where
  "strip_zeros ds = rev (dropWhile (\<lambda>d. d = 0) (rev ds))"

text \<open>The digits and where the point stands: \<open>0.d\<^sub>1d\<^sub>2\<dots> * 10^p\<close>.\<close>

definition number_digits :: "nat \<Rightarrow> nat list \<times> int" where
  "number_digits w =
     (let n = exact_digits w in
      case shortest_digits w n (length (dec_digits n) - 1) of (c, j) \<Rightarrow>
        (strip_zeros (dec_digits c), int (length (dec_digits c)) + int j - 1074))"

definition digit_text :: "nat list \<Rightarrow> code_units" where
  "digit_text ds = map digit_unit ds"

definition nat_text :: "nat \<Rightarrow> code_units" where
  "nat_text n = digit_text (dec_digits n)"

definition layout_digits :: "nat list \<Rightarrow> int \<Rightarrow> code_units" where
  "layout_digits ds p =
     (let k = int (length ds) in
      if k \<le> p \<and> p \<le> 21 then digit_text (ds @ replicate (nat (p - k)) 0)
      else if 0 < p \<and> p \<le> 21 then digit_text (take (nat p) ds) @ [46] @ digit_text (drop (nat p) ds)
      else if - 6 < p \<and> p \<le> 0 then [digit_unit 0, 46] @ digit_text (replicate (nat (- p)) 0 @ ds)
      else
        let e = p - 1; exponent = [101, if 0 \<le> e then 43 else 45] @ nat_text (nat \<bar>e\<bar>) in
        if k = 1 then digit_text ds @ exponent
        else digit_text (take 1 ds) @ [46] @ digit_text (drop 1 ds) @ exponent)"

definition number_text :: "double_bits \<Rightarrow> code_units" where
  "number_text v =
     (let w = double_magnitude v in
      if w = 0 then [digit_unit 0]
      else (if unat v < 2 ^ 63 then [] else [45]) @ (case number_digits w of (ds, p) \<Rightarrow> layout_digits ds p))"

section \<open>The digits are nearest to the number\<close>

lemma nearest_decimal_zero [simp]: "nearest_decimal 0 x = 0"
proof -
  have "nearest_double 0 d = 0" if "0 < d" for d
    using that by (simp add: nearest_double_def shift_needed.simps [of 0] round_div_def)
  then show ?thesis by (simp add: nearest_decimal_def)
qed

lemma pow10_split: "(10 :: nat) ^ n = 5 ^ n * 2 ^ n"
  by (simp add: power_mult_distrib [symmetric])

lemma nearest_decimal_neg: "nearest_decimal n (- int k) = nearest_double n (10 ^ k)"
  by (cases "k = 0") (simp_all add: nearest_decimal_def)

lemma exact_digits_nearest:
  assumes "w < 2047 * 2 ^ 52"
  shows "nearest_decimal (exact_digits w) (int 0 - 1074) = w"
proof -
  define x where "x = double_mantissa w * 2 ^ double_shift w"
  have scale: "nearest_double (x * 5 ^ n) (10 ^ n) = nearest_double x (2 ^ n)" for n
    by (rule nearest_double_ratio) (simp_all only: pow10_split mult.assoc, simp_all)
  have "int 0 - 1074 = - int 1074" by simp
  then have "nearest_decimal (exact_digits w) (int 0 - 1074) = nearest_double (x * 5 ^ 1074) (10 ^ 1074)"
    by (simp only: nearest_decimal_neg exact_digits_def x_def)
  also have "\<dots> = nearest_double x (2 ^ 1074)" by (rule scale)
  also have "\<dots> = w" unfolding x_def by (rule nearest_double_exact [OF assms])
  finally show ?thesis .
qed

lemma shortest_digits_nearest:
  assumes "nearest_decimal n (int 0 - 1074) = w"
  shows "shortest_digits w n J = (c, j) \<Longrightarrow> nearest_decimal c (int j - 1074) = w"
proof (induction J)
  case 0
  with assms show ?case by simp
next
  case (Suc J)
  then show ?case
    by (auto simp: choose_digits_def is_nearest_def Let_def split: option.splits if_splits)
qed

lemma strip_zeros_split: "\<exists>z. ds = strip_zeros ds @ replicate z 0"
proof -
  have "rev ds = takeWhile (\<lambda>d. d = 0) (rev ds) @ dropWhile (\<lambda>d. d = 0) (rev ds)" by simp
  moreover have "takeWhile (\<lambda>d. d = 0) (rev ds) = replicate (length (takeWhile (\<lambda>d. d = 0) (rev ds))) 0"
    by (metis (mono_tags, lifting) replicate_length_same set_takeWhileD)
  ultimately have "rev (rev ds) = strip_zeros ds @ rev (replicate (length (takeWhile (\<lambda>d. d = 0) (rev ds))) 0)"
    unfolding strip_zeros_def by (metis rev_append)
  then show ?thesis by auto
qed

lemma number_digits_nearest:
  assumes "0 < w" "w < 2047 * 2 ^ 52" and "number_digits w = (ds, p)"
  shows "ds \<noteq> []" "\<forall>d\<in>set ds. d < 10" "hd ds \<noteq> 0" "nearest_decimal (dec_value ds) (p - int (length ds)) = w"
proof -
  let ?n = "exact_digits w"
  obtain c j where c: "shortest_digits w ?n (length (dec_digits ?n) - 1) = (c, j)" by fastforce
  have near: "nearest_decimal c (int j - 1074) = w"
    by (rule shortest_digits_nearest [OF exact_digits_nearest [OF assms(2)] c])
  have "c \<noteq> 0" using near assms(1) by (cases c) auto
  note dd = dec_digits_spec [of c]
  have ds: "ds = strip_zeros (dec_digits c)" and p: "p = int (length (dec_digits c)) + int j - 1074"
    using assms(3) unfolding number_digits_def Let_def c prod.case by simp_all
  obtain z where z: "dec_digits c = ds @ replicate z 0" using strip_zeros_split ds by blast
  have val: "c = dec_value ds * 10 ^ z" using dd unfolding z by (simp add: dec_value_append)
  show ne: "ds \<noteq> []"
  proof
    assume "ds = []"
    with val \<open>c \<noteq> 0\<close> show False by simp
  qed
  show "\<forall>d\<in>set ds. d < 10" using dd unfolding z by auto
  show "hd ds \<noteq> 0" using dd \<open>c \<noteq> 0\<close> ne unfolding z by (simp add: hd_append)
  have "length (dec_digits c) = length ds + z" unfolding z by simp
  then have "int j - 1074 + int z = p - int (length ds)" by (simp add: p)
  with near val nearest_decimal_shift [of "dec_value ds" z "int j - 1074"]
  show "nearest_decimal (dec_value ds) (p - int (length ds)) = w" by simp
qed

section \<open>What is written reads back\<close>

lemma digit_unit_simps [simp]: "d < 10 \<Longrightarrow> is_digit (digit_unit d)" "d < 10 \<Longrightarrow> digit_value (digit_unit d) = d"
  by (simp_all add: is_digit_def digit_unit_def digit_value_def)

lemma not_digits [simp]: "\<not> is_digit 46" "\<not> is_digit 101" "\<not> is_digit 45" "\<not> is_digit 43" "\<not> is_digit 69"
  by (simp_all add: is_digit_def)

lemma digit_text_digits: "\<forall>d\<in>set ds. d < 10 \<Longrightarrow> list_all is_digit (digit_text ds) \<and> digits_of (digit_text ds) = ds"
  by (induction ds) (simp_all add: digit_text_def digits_of_def)

lemma length_digit_text [simp]: "length (digit_text ds) = length ds"
  by (simp add: digit_text_def)

lemma digit_text_Nil [simp]: "digit_text ds = [] \<longleftrightarrow> ds = []"
  by (simp add: digit_text_def)

lemma leading_digits_text:
  "\<forall>d\<in>set ds. d < 10 \<Longrightarrow> us = [] \<or> \<not> is_digit (hd us) \<Longrightarrow> leading_digits (digit_text ds @ us) = (digit_text ds, us)"
  by (induction ds) (auto simp: leading_digits_def digit_text_def takeWhile_eq_Nil_iff dropWhile_eq_self_iff)

lemma leading_sign_text:
  assumes "\<forall>d\<in>set ds. d < 10" and "ds \<noteq> []"
  shows "leading_sign (digit_text ds @ us) = (False, digit_text ds @ us)"
    and "leading_sign (45 # digit_text ds @ us) = (True, digit_text ds @ us)"
    and "leading_sign (43 # digit_text ds @ us) = (False, digit_text ds @ us)"
proof -
  obtain d ds' where "ds = d # ds'" using assms(2) by (cases ds) auto
  moreover from this have "is_digit (digit_unit d)" using assms(1) by simp
  then have "digit_unit d \<noteq> 45" "digit_unit d \<noteq> 43" by (auto simp: is_digit_def)
  ultimately show "leading_sign (digit_text ds @ us) = (False, digit_text ds @ us)"
    "leading_sign (45 # digit_text ds @ us) = (True, digit_text ds @ us)"
    "leading_sign (43 # digit_text ds @ us) = (False, digit_text ds @ us)"
    by (simp_all add: leading_sign_def digit_text_def)
qed

lemma decimal_exponent_text:
  "decimal_exponent [] = Some 0"
  "decimal_exponent (101 # (if 0 \<le> e then 43 else 45) # nat_text (nat \<bar>e\<bar>)) = Some e"
proof -
  note dd = dec_digits_spec [of "nat \<bar>e\<bar>"]
  show "decimal_exponent [] = Some 0" by (simp add: decimal_exponent_def)
  show "decimal_exponent (101 # (if 0 \<le> e then 43 else 45) # nat_text (nat \<bar>e\<bar>)) = Some e"
    using leading_sign_text(2,3) [of "dec_digits (nat \<bar>e\<bar>)" "[]"] digit_text_digits [of "dec_digits (nat \<bar>e\<bar>)"] dd
    by (auto simp: decimal_exponent_def nat_text_def)
qed

text \<open>The text of a decimal: its whole digits, its fraction if it has one, its exponent if it has one.\<close>

definition decimal_form :: "nat list \<Rightarrow> nat list \<Rightarrow> code_units \<Rightarrow> code_units" where
  "decimal_form whole fraction exponent =
     digit_text whole @ (if fraction = [] then [] else 46 # digit_text fraction) @ exponent"

lemma read_decimal_form:
  assumes "\<forall>d\<in>set whole. d < 10" "\<forall>d\<in>set fraction. d < 10" "whole \<noteq> []"
    and "exponent = [] \<or> hd exponent = 101" and "decimal_exponent exponent = Some e"
  shows "read_decimal ((if negative then [45] else []) @ decimal_form whole fraction exponent) =
    Some (negative, nearest_decimal (dec_value (whole @ fraction)) (e - int (length fraction)))"
proof -
  let ?rest = "(if fraction = [] then [] else 46 # digit_text fraction) @ exponent"
  have sign: "leading_sign ((if negative then [45] else []) @ decimal_form whole fraction exponent) =
      (negative, digit_text whole @ ?rest)"
    using leading_sign_text [OF assms(1,3)] by (simp add: decimal_form_def)
  have "?rest = [] \<or> \<not> is_digit (hd ?rest)" using assms(4) by auto
  note whole = leading_digits_text [OF assms(1) this]
  have frac: "leading_digits (digit_text fraction @ exponent) = (digit_text fraction, exponent)"
    using leading_digits_text [OF assms(2)] assms(4) by fastforce
  have "exponent = [] \<or> (\<exists>xs. exponent = 101 # xs)" using assms(4) by (cases exponent) auto
  then have rest: "(case ?rest of u # rest \<Rightarrow> if u = 46 then leading_digits rest else ([], ?rest) | [] \<Rightarrow> ([], [])) =
      (digit_text fraction, exponent)"
    using frac by (auto simp: digit_text_def)
  have "\<forall>d\<in>set (whole @ fraction). d < 10" using assms(1,2) by auto
  from digit_text_digits [OF this] have "digits_of (digit_text whole @ digit_text fraction) = whole @ fraction"
    by (simp add: digit_text_def)
  then show ?thesis
    unfolding read_decimal_def sign prod.case whole rest using assms(3,5) by simp
qed

text \<open>
  The form of a number's text once \<open>.0\<close> follows an integer's: it has a fraction or an
  exponent, and no zero leads another digit.
\<close>

definition written_form :: "nat \<Rightarrow> code_units \<Rightarrow> bool" where
  "written_form w us \<longleftrightarrow>
     (\<exists>whole fraction exponent e.
        us = decimal_form whole fraction exponent \<and> whole \<noteq> [] \<and>
        (\<forall>d\<in>set whole. d < 10) \<and> (\<forall>d\<in>set fraction. d < 10) \<and>
        (fraction = [] \<longrightarrow> exponent \<noteq> []) \<and> (hd whole = 0 \<longrightarrow> whole = [0] \<and> fraction \<noteq> []) \<and>
        (exponent = [] \<or> (\<exists>n sign. sign \<in> {43, 45} \<and> exponent = 101 # sign # nat_text n)) \<and>
        decimal_exponent exponent = Some e \<and>
        nearest_decimal (dec_value (whole @ fraction)) (e - int (length fraction)) = w)"

lemma written_formI:
  assumes "us = decimal_form whole fraction exponent" "whole \<noteq> []" "\<forall>d\<in>set whole. d < 10" "\<forall>d\<in>set fraction. d < 10"
    "fraction = [] \<Longrightarrow> exponent \<noteq> []" "hd whole = 0 \<Longrightarrow> whole = [0] \<and> fraction \<noteq> []"
    "exponent = [] \<and> e = 0 \<or> exponent = 101 # (if 0 \<le> e then 43 else 45) # nat_text (nat \<bar>e\<bar>)"
    "nearest_decimal (dec_value (whole @ fraction)) (e - int (length fraction)) = w"
  shows "written_form w us"
proof -
  have "decimal_exponent exponent = Some e" using assms(7) decimal_exponent_text by auto
  moreover have "exponent = [] \<or> (\<exists>n sign. sign \<in> {43, 45} \<and> exponent = 101 # sign # nat_text n)"
    using assms(7) by (auto split: if_splits)
  ultimately have "us = decimal_form whole fraction exponent \<and> whole \<noteq> [] \<and>
        (\<forall>d\<in>set whole. d < 10) \<and> (\<forall>d\<in>set fraction. d < 10) \<and>
        (fraction = [] \<longrightarrow> exponent \<noteq> []) \<and> (hd whole = 0 \<longrightarrow> whole = [0] \<and> fraction \<noteq> []) \<and>
        (exponent = [] \<or> (\<exists>n sign. sign \<in> {43, 45} \<and> exponent = 101 # sign # nat_text n)) \<and>
        decimal_exponent exponent = Some e \<and>
        nearest_decimal (dec_value (whole @ fraction)) (e - int (length fraction)) = w"
    using assms(1-6,8) by simp
  then show ?thesis unfolding written_form_def by (intro exI)
qed

text \<open>Whether a text has a point or an exponent: \<open>/[.eE]/\<close>.\<close>

definition has_point :: "code_units \<Rightarrow> bool" where
  "has_point us \<longleftrightarrow> (\<exists>u\<in>set us. u = 46 \<or> u = 101 \<or> u = 69)"

definition with_point :: "code_units \<Rightarrow> code_units" where
  "with_point us = (if has_point us then us else us @ [46, digit_unit 0])"

lemma digits_no_point: "\<forall>d\<in>set ds. d < 10 \<Longrightarrow> \<not> has_point (digit_text ds)"
proof -
  assume "\<forall>d\<in>set ds. d < 10"
  then have "is_digit u" if "u \<in> set (digit_text ds)" for u using that by (auto simp: digit_text_def)
  then show ?thesis using not_digits by (force simp: has_point_def)
qed

lemma layout_form:
  assumes "ds \<noteq> []" "\<forall>d\<in>set ds. d < 10" "hd ds \<noteq> 0" "nearest_decimal (dec_value ds) (p - int (length ds)) = w"
  shows "written_form w (with_point (layout_digits ds p))"
proof -
  let ?k = "int (length ds)"
  have point: "has_point (xs @ 46 # ys)" "has_point (xs @ 101 # ys)" for xs ys by (simp_all add: has_point_def)
  consider "?k \<le> p" "p \<le> 21" | "p < ?k" "0 < p" "p \<le> 21" | "- 6 < p" "p \<le> 0"
    | "p \<le> - 6 \<or> 21 < p" "length ds = 1" | "p \<le> - 6 \<or> 21 < p" "length ds \<noteq> 1"
    by linarith
  then show ?thesis
  proof cases
    case 1
    let ?whole = "ds @ replicate (nat (p - ?k)) 0"
    have l: "layout_digits ds p = digit_text ?whole" using 1 by (simp add: layout_digits_def)
    have digits: "\<forall>d\<in>set ?whole. d < 10" using assms(2) by auto
    have "with_point (layout_digits ds p) = decimal_form ?whole [0] []"
      using digits_no_point [OF digits] by (simp add: l with_point_def decimal_form_def digit_text_def)
    moreover have "nearest_decimal (dec_value (?whole @ [0])) (0 - int (length [0::nat])) = w"
    proof -
      have "dec_value (?whole @ [0]) = dec_value ds * 10 ^ (nat (p - ?k) + 1)"
        using dec_value_append [of ds "replicate (nat (p - ?k) + 1) 0"] by (simp add: replicate_append_same)
      then show ?thesis using assms(4) 1 nearest_decimal_shift [of "dec_value ds" "nat (p - ?k) + 1" "- 1"] by simp
    qed
    ultimately show ?thesis using digits assms(1,3)
      by (intro written_formI [of _ ?whole "[0]" "[]" 0]) (auto simp: hd_append)
  next
    case 2
    let ?whole = "take (nat p) ds" and ?fraction = "drop (nat p) ds"
    have l: "layout_digits ds p = digit_text ?whole @ 46 # digit_text ?fraction" using 2 by (simp add: layout_digits_def)
    have ne: "?whole \<noteq> []" "?fraction \<noteq> []" using 2 by auto
    have "with_point (layout_digits ds p) = decimal_form ?whole ?fraction []"
      using ne by (simp add: l with_point_def point decimal_form_def)
    moreover have "0 - int (length ?fraction) = p - ?k" using 2 by simp
    ultimately show ?thesis using assms ne 2
      by (intro written_formI [of _ ?whole ?fraction "[]" 0]) (auto dest: in_set_takeD in_set_dropD)
  next
    case 3
    let ?fraction = "replicate (nat (- p)) 0 @ ds"
    have l: "layout_digits ds p = digit_text [0] @ 46 # digit_text ?fraction" using 3 assms(1)
      by (cases ds) (simp_all add: layout_digits_def digit_text_def)
    have "with_point (layout_digits ds p) = decimal_form [0] ?fraction []"
      using assms(1) by (simp add: l with_point_def point decimal_form_def)
    moreover have "dec_value ([0] @ ?fraction) = dec_value ds" by simp
    moreover have "0 - int (length ?fraction) = p - ?k" using 3 by simp
    ultimately show ?thesis using assms
      by (intro written_formI [of _ "[0]" ?fraction "[]" 0]) auto
  next
    case 4
    let ?x = "101 # (if 0 \<le> p - 1 then 43 else 45) # nat_text (nat \<bar>p - 1\<bar>)"
    have l: "layout_digits ds p = digit_text ds @ ?x" using 4 by (auto simp: layout_digits_def Let_def)
    have "with_point (layout_digits ds p) = decimal_form ds [] ?x" by (simp add: l with_point_def point decimal_form_def)
    then show ?thesis using assms 4
      by (intro written_formI [of _ ds "[]" ?x "p - 1"]) auto
  next
    case 5
    let ?x = "101 # (if 0 \<le> p - 1 then 43 else 45) # nat_text (nat \<bar>p - 1\<bar>)"
    have l: "layout_digits ds p = digit_text (take 1 ds) @ 46 # digit_text (drop 1 ds) @ ?x"
      using 5 by (auto simp: layout_digits_def Let_def)
    have ne: "drop 1 ds \<noteq> []" "take 1 ds \<noteq> []" using 5 assms(1) by (cases ds; simp)+
    have "with_point (layout_digits ds p) = decimal_form (take 1 ds) (drop 1 ds) ?x"
      using ne by (simp add: l with_point_def point decimal_form_def)
    moreover have "p - 1 - int (length (drop 1 ds)) = p - ?k" using assms(1) by (cases ds) simp_all
    ultimately show ?thesis using assms ne
      by (intro written_formI [of _ "take 1 ds" "drop 1 ds" ?x "p - 1"]) (auto dest: in_set_takeD in_set_dropD)
  qed
qed

lemma number_text_form:
  assumes "finite_double v"
  shows "\<exists>us. with_point (number_text v) = (if double_magnitude v \<noteq> 0 \<and> \<not> unat v < 2 ^ 63 then [45] else []) @ us \<and>
    written_form (double_magnitude v) us"
proof (cases "double_magnitude v = 0")
  case True
  have "with_point (number_text v) = decimal_form [0] [0] []"
    using True digits_no_point [of "[0]"] by (simp add: number_text_def with_point_def decimal_form_def digit_text_def)
  moreover have "written_form 0 (decimal_form [0] [0] [])"
    by (rule written_formI [of _ "[0]" "[0]" "[]" 0]) simp_all
  ultimately show ?thesis using True by simp
next
  case False
  obtain ds p where ds: "number_digits (double_magnitude v) = (ds, p)" by fastforce
  have w: "0 < double_magnitude v" "double_magnitude v < 2047 * 2 ^ 52" using False assms by (simp_all add: finite_double_def)
  have "written_form (double_magnitude v) (with_point (layout_digits ds p))"
    by (rule layout_form) (use number_digits_nearest [OF w ds] in auto)
  moreover have "with_point ((if unat v < 2 ^ 63 then [] else [45]) @ us) = (if unat v < 2 ^ 63 then [] else [45]) @ with_point us" for us
    by (simp add: with_point_def has_point_def)
  ultimately show ?thesis using False by (auto simp: number_text_def ds Let_def)
qed

end
