(* ===== verification/Snbt.thy ===== *)
theory Snbt
  imports Nbt Js_Decimal
begin

text \<open>
  \<open>packages/contracts/src/snbt.ts\<close>: NBT as text. The parser takes the code units not yet read
  and returns those that remain; an error carries how many remained at the index it names, and
  \<open>snbt_parse_error\<close> turns that into the index, line and column.
\<close>

section \<open>Characters\<close>

definition ascii :: "char \<Rightarrow> 16 word" where
  "ascii c = unit_of (of_char c)"

definition text_of :: "string \<Rightarrow> code_units" where
  "text_of s = map ascii s"

text \<open>\<open>/\s/\<close>: white space and line terminators.\<close>

definition is_space :: "16 word \<Rightarrow> bool" where
  "is_space u =
     (let n = unat u in 9 \<le> n \<and> n \<le> 13 \<or> n = 32 \<or> n = 160 \<or> n = 5760 \<or> 8192 \<le> n \<and> n \<le> 8202 \<or>
        n = 8232 \<or> n = 8233 \<or> n = 8239 \<or> n = 8287 \<or> n = 12288 \<or> n = 65279)"

definition is_hex_digit :: "16 word \<Rightarrow> bool" where
  "is_hex_digit u = (is_digit u \<or> 97 \<le> unat u \<and> unat u \<le> 102 \<or> 65 \<le> unat u \<and> unat u \<le> 70)"

definition hex_digit_value :: "16 word \<Rightarrow> nat" where
  "hex_digit_value u =
     (if is_digit u then unat u - 48 else if 97 \<le> unat u then unat u - 87 else unat u - 55)"

definition hex_value :: "code_units \<Rightarrow> nat" where
  "hex_value us = foldl (\<lambda>a u. a * 16 + hex_digit_value u) 0 us"

definition bit_value :: "code_units \<Rightarrow> nat" where
  "bit_value us = foldl (\<lambda>a u. a * 2 + digit_value u) 0 us"

definition is_letter :: "16 word \<Rightarrow> bool" where
  "is_letter u = (97 \<le> unat u \<and> unat u \<le> 122 \<or> 65 \<le> unat u \<and> unat u \<le> 90)"

section \<open>Errors\<close>

datatype integer_type = IByte | IShort | IInt | ILong

text \<open>The messages, with what the code puts into them.\<close>

datatype snbt_message =
    ExpectedValue | UnexpectedContent | NestingTooDeep | BadUnquotedStart | ExpectedKey | ExpectedColon
  | ExpectedCommaOrBrace | ExpectedCommaOrBracket | ExpectedArrayComma | TrailingComma | ExpectedArrayValue
  | ArrayIntegersOnly | ExpectedParenthesis code_units | BoolArgument | UuidString | UuidInvalid
  | ExpectedHexDigits nat | EscapeOutOfRange | ExpectedCharacterName | NamedEscapeUnsupported
  | UnknownEscape code_units | UnterminatedString | BadSeparator | SuffixOnDecimal | NotFinite | LeadingZero
  | UnsignedOutOfRange integer_type | IntegerOutOfRange integer_type | ArrayOutOfRange integer_type | OutOfTurns

type_synonym 'a snbt_result = "(snbt_message \<times> nat) + 'a"
type_synonym 'a snbt_parser = "code_units \<Rightarrow> ('a \<times> code_units) snbt_result"

definition fail :: "snbt_message \<Rightarrow> code_units \<Rightarrow> 'a snbt_result" where
  "fail m us = Inl (m, length us)"

record parse_error =
  se_column :: nat
  se_index :: nat
  se_line :: nat
  se_message :: snbt_message

text \<open>\<open>new SnbtParseError(message, source, index)\<close>.\<close>

definition snbt_parse_error :: "snbt_message \<Rightarrow> code_units \<Rightarrow> nat \<Rightarrow> parse_error" where
  "snbt_parse_error m source i =
     (let safe = min i (length source); passed = take safe source in
      \<lparr>se_column = length (takeWhile (\<lambda>u. u \<noteq> ascii CHR 0x0A) (rev passed)) + 1, se_index = safe,
       se_line = length (filter (\<lambda>u. u = ascii CHR 0x0A) passed) + 1, se_message = m\<rparr>)"

section \<open>Numbers\<close>

datatype radix = Hex | Binary | Decimal

definition unsigned_token :: "code_units \<Rightarrow> code_units" where
  "unsigned_token token = snd (leading_sign token)"

definition token_radix :: "code_units \<Rightarrow> radix" where
  "token_radix token =
     (case unsigned_token token of
        z # x # _ \<Rightarrow>
          if z = ascii CHR ''0'' \<and> x \<in> {ascii CHR ''x'', ascii CHR ''X''} then Hex
          else if z = ascii CHR ''0'' \<and> x \<in> {ascii CHR ''b'', ascii CHR ''B''} then Binary
          else Decimal
      | _ \<Rightarrow> Decimal)"

text \<open>A suffix's letter in lower case, of those a radix takes after a sign mode or alone.\<close>

definition lower_unit :: "16 word \<Rightarrow> 16 word" where
  "lower_unit u = (if 65 \<le> unat u \<and> unat u \<le> 90 then u + 32 else u)"

definition suffix_letters :: "radix \<Rightarrow> bool \<Rightarrow> code_units" where
  "suffix_letters r moded =
     (case r of
        Hex \<Rightarrow> if moded then text_of ''bsil'' else text_of ''sil''
      | Binary \<Rightarrow> text_of ''bsil''
      | Decimal \<Rightarrow> text_of ''bsilfd'')"

text \<open>
  The token without its suffix, the suffix's sign mode and its letter: the patterns find the
  longer suffix first.
\<close>

definition split_suffix :: "radix \<Rightarrow> code_units \<Rightarrow> code_units \<times> 16 word option \<times> 16 word option" where
  "split_suffix r token =
     (case rev token of
        [] \<Rightarrow> (token, None, None)
      | b # front \<Rightarrow>
          if front \<noteq> [] \<and> hd front \<in> set (text_of ''su'') \<and> lower_unit b \<in> set (suffix_letters r True)
          then (rev (tl front), Some (hd front), Some (lower_unit b))
          else if lower_unit b \<in> set (suffix_letters r False) then (rev front, None, Some (lower_unit b))
          else (token, None, None))"

text \<open>The first separator that isn't between digits, by the code units left from it on.\<close>

fun bad_separator :: "(16 word \<Rightarrow> bool) \<Rightarrow> bool \<Rightarrow> code_units \<Rightarrow> nat option" where
  "bad_separator digit after_digit [] = None"
| "bad_separator digit after_digit (u # us) =
     (if u = ascii CHR ''_'' \<and> \<not> (after_digit \<and> us \<noteq> [] \<and> digit (hd us)) then Some (length (u # us))
      else bad_separator digit (digit u) us)"

definition suffix_type :: "16 word option \<Rightarrow> integer_type" where
  "suffix_type s =
     (if s = Some (ascii CHR ''b'') then IByte else if s = Some (ascii CHR ''s'') then IShort
      else if s = Some (ascii CHR ''l'') then ILong else IInt)"

fun type_bytes :: "integer_type \<Rightarrow> nat" where
  "type_bytes IByte = 1"
| "type_bytes IShort = 2"
| "type_bytes IInt = 4"
| "type_bytes ILong = 8"

fun integer_tag :: "integer_type \<Rightarrow> int \<Rightarrow> nbt_tag" where
  "integer_tag IByte v = TByte v"
| "integer_tag IShort v = TShort v"
| "integer_tag IInt v = TInt v"
| "integer_tag ILong v = TLong v"

text \<open>\<open>/^(?:0[xX][\da-fA-F]+|0[bB][01]+|\d+)$/\<close> and the \<open>BigInt\<close> it denotes.\<close>

definition read_natural :: "code_units \<Rightarrow> nat option" where
  "read_natural us =
     (let digits = drop 2 us in
      if token_radix us = Hex \<and> leading_sign us = (False, us) \<and> digits \<noteq> [] \<and> list_all is_hex_digit digits then Some (hex_value digits)
      else if token_radix us = Binary \<and> leading_sign us = (False, us) \<and> digits \<noteq> [] \<and>
        list_all (\<lambda>u. u = ascii CHR ''0'' \<or> u = ascii CHR ''1'') digits then Some (bit_value digits)
      else if us \<noteq> [] \<and> list_all is_digit us then Some (dec_value (digits_of us))
      else None)"

text \<open>
  \<open>parseNumericTag(token, source, index)\<close>, where \<open>from\<close> code units remain at the token:
  \<open>None\<close> is null.
\<close>

definition parse_integer :: "nat \<Rightarrow> radix \<Rightarrow> code_units \<Rightarrow> 16 word option \<Rightarrow> 16 word option \<Rightarrow> nbt_tag option snbt_result" where
  "parse_integer from r normalized sign_mode suffix =
     (case leading_sign normalized of (negative, body) \<Rightarrow>
        (case read_natural body of
           None \<Rightarrow> Inr None
         | Some n \<Rightarrow>
             if r = Decimal \<and> 1 < length body \<and> hd body = ascii CHR ''0'' then Inl (LeadingZero, from)
             else
               let v = (if negative then - int n else int n); type = suffix_type suffix; bytes = type_bytes type in
               if sign_mode = Some (ascii CHR ''u'') then
                 if v < 0 \<or> v > 2 ^ (8 * bytes) - 1 then Inl (UnsignedOutOfRange type, from)
                 else Inr (Some (integer_tag type (to_signed bytes (nat v))))
               else if \<not> in_range bytes v then Inl (IntegerOutOfRange type, from)
               else Inr (Some (integer_tag type v))))"

definition parse_float :: "nat \<Rightarrow> code_units \<Rightarrow> 16 word option \<Rightarrow> nbt_tag option snbt_result" where
  "parse_float from normalized suffix =
     (if suffix \<noteq> None \<and> suffix \<notin> {Some (ascii CHR ''f''), Some (ascii CHR ''d'')} then Inl (SuffixOnDecimal, from)
      else case read_decimal normalized of
        None \<Rightarrow> Inr None
      | Some (negative, w) \<Rightarrow>
          if \<not> w < 2047 * 2 ^ 52 then Inl (NotFinite, from)
          else Inr (Some ((if suffix = Some (ascii CHR ''f'') then TFloat else TDouble) (double_of negative w))))"

definition parse_numeric :: "nat \<Rightarrow> code_units \<Rightarrow> nbt_tag option snbt_result" where
  "parse_numeric from token =
     (let r = token_radix token in
      case split_suffix r token of (body, sign_mode, suffix) \<Rightarrow>
        (case bad_separator (if r = Hex then is_hex_digit else is_digit) False body of
           Some left \<Rightarrow> Inl (BadSeparator, from - (length body - left))
         | None \<Rightarrow>
             let normalized = filter (\<lambda>u. u \<noteq> ascii CHR ''_'') body in
             if suffix \<in> {Some (ascii CHR ''f''), Some (ascii CHR ''d'')} \<or> r = Decimal \<and> has_point normalized
             then parse_float from normalized suffix
             else parse_integer from r normalized sign_mode suffix))"

section \<open>Tokens\<close>

definition skip_ws :: "code_units \<Rightarrow> code_units" where
  "skip_ws us = dropWhile is_space us"

definition starts :: "char \<Rightarrow> code_units \<Rightarrow> bool" where
  "starts c us = (us \<noteq> [] \<and> hd us = ascii c)"

definition expect :: "char \<Rightarrow> snbt_message \<Rightarrow> code_units \<Rightarrow> code_units snbt_result" where
  "expect c m us = (if starts c us then Inr (tl us) else fail m us)"

definition bare_end :: "16 word \<Rightarrow> bool" where
  "bare_end u = (is_space u \<or> u \<in> set (text_of '',]}()''))"

definition bare_token :: "code_units \<Rightarrow> code_units \<times> code_units" where
  "bare_token us = (takeWhile (\<lambda>u. \<not> bare_end u) us, dropWhile (\<lambda>u. \<not> bare_end u) us)"

definition key_end :: "16 word \<Rightarrow> bool" where
  "key_end u = (is_space u \<or> u \<in> set (text_of '':,}''))"

definition parse_key :: "code_units \<Rightarrow> code_units \<times> code_units" where
  "parse_key us = (takeWhile (\<lambda>u. \<not> key_end u) us, dropWhile (\<lambda>u. \<not> key_end u) us)"

definition simple_escape :: "16 word \<Rightarrow> 16 word option" where
  "simple_escape u = map_of
     [(ascii CHR ''b'', 8), (ascii CHR ''f'', 12), (ascii CHR ''n'', 10), (ascii CHR ''r'', 13), (ascii CHR ''s'', 32),
      (ascii CHR ''t'', 9), (92, 92), (34, 34), (39, 39)] u"

definition escape_digits :: "16 word \<Rightarrow> nat" where
  "escape_digits u =
     (if u = ascii CHR ''x'' then 2 else if u = ascii CHR ''u'' then 4 else if u = ascii CHR ''U'' then 8 else 0)"

text \<open>
  The rest of a quoted string, from after the quote on. \<open>\N{\<open>name\<close>}\<close> is kept as it's
  written, or refused where the tag is to be written as binary.
\<close>

definition prepend :: "code_units \<Rightarrow> (code_units \<times> code_units) snbt_result \<Rightarrow> (code_units \<times> code_units) snbt_result" where
  "prepend xs r = and_then r (\<lambda>(v, rest). Inr (xs @ v, rest))"

function quoted_rest :: "bool \<Rightarrow> 16 word \<Rightarrow> code_units snbt_parser" where
  "quoted_rest binary quote [] = Inl (UnterminatedString, 0)"
| "quoted_rest binary quote (u # us) =
     (if u = quote then Inr ([], us)
      else if u \<noteq> 92 then prepend [u] (quoted_rest binary quote us)
      else case us of
        [] \<Rightarrow> fail (UnknownEscape []) (u # us)
      | e # us' \<Rightarrow>
          (case simple_escape e of
             Some c \<Rightarrow> prepend [c] (quoted_rest binary quote us')
           | None \<Rightarrow>
               let digits = escape_digits e in
               if digits > 0 then
                 let encoded = take digits us' in
                 if length encoded \<noteq> digits \<or> \<not> list_all is_hex_digit encoded then fail (ExpectedHexDigits digits) us'
                 else if hex_value encoded > 1114111 then fail EscapeOutOfRange (u # us)
                 else prepend (point_units (hex_value encoded)) (quoted_rest binary quote (drop digits us'))
               else if e = ascii CHR ''N'' \<and> starts CHR ''{'' us' then
                 let name = takeWhile (\<lambda>v. v \<noteq> ascii CHR ''}'') (tl us'); rest = drop (length name) (tl us') in
                 if rest = [] \<or> name = [] \<or> \<not> list_all (\<lambda>v. is_letter v \<or> is_digit v \<or> v \<in> set (text_of ''- '')) name
                 then fail ExpectedCharacterName us'
                 else if binary then fail NamedEscapeUnsupported (u # us)
                 else prepend ([92] @ text_of ''N{'' @ name @ text_of ''}'') (quoted_rest binary quote (tl rest))
               else fail (UnknownEscape [e]) (u # us)))"
  by pat_completeness auto
termination
  by (relation "measure (\<lambda>(binary, quote, us). length us)") auto

declare quoted_rest.simps [simp del]

definition is_quote :: "code_units \<Rightarrow> bool" where
  "is_quote us = (us \<noteq> [] \<and> (hd us = 34 \<or> hd us = 39))"

definition parse_quoted :: "bool \<Rightarrow> code_units snbt_parser" where
  "parse_quoted binary us = quoted_rest binary (hd us) (tl us)"

section \<open>The parser\<close>

text \<open>
  The loop of compounds, lists and arrays, after its opening: items with commas between them
  and no comma before the closing. Each takes at least one code unit.
\<close>

primrec items :: "nat \<Rightarrow> char \<Rightarrow> snbt_message \<Rightarrow> 'a snbt_parser \<Rightarrow> 'a list snbt_parser" where
  "items 0 close m item us = Inl (OutOfTurns, 0)"
| "items (Suc n) close m item us = and_then (item us) (\<lambda>(x, us).
     let us = skip_ws us in
     if starts close us then Inr ([x], tl us)
     else and_then (expect CHR '','' m us) (\<lambda>us.
       let us = skip_ws us in
       if starts close us then fail TrailingComma us
       else and_then (items n close m item us) (\<lambda>(xs, us). Inr (x # xs, us))))"

definition parse_entry :: "bool \<Rightarrow> nbt_tag snbt_parser \<Rightarrow> (code_units \<times> nbt_tag) snbt_parser" where
  "parse_entry binary tag us =
     (let us = skip_ws us in
      and_then (if is_quote us then parse_quoted binary us else Inr (parse_key us)) (\<lambda>(name, us).
        if name = [] then fail ExpectedKey us
        else and_then (expect CHR '':'' ExpectedColon (skip_ws us)) (\<lambda>us.
          and_then (tag us) (\<lambda>(t, us). Inr ((name, t), us)))))"

definition parse_compound :: "bool \<Rightarrow> nbt_tag snbt_parser \<Rightarrow> nbt_tag snbt_parser" where
  "parse_compound binary tag us =
     (let us = skip_ws (tl us) in
      if starts CHR ''}'' us then Inr (TCompound [], tl us)
      else and_then (items (Suc (length us)) CHR ''}'' ExpectedCommaOrBrace (parse_entry binary tag) us) (\<lambda>(es, us).
        Inr (TCompound es, us)))"

text \<open>\<open>isIntegerTag\<close>, with the value.\<close>

fun integer_of :: "nbt_tag \<Rightarrow> int option" where
  "integer_of (TByte v) = Some v"
| "integer_of (TShort v) = Some v"
| "integer_of (TInt v) = Some v"
| "integer_of (TLong v) = Some v"
| "integer_of _ = None"

definition coerce_array_integer :: "integer_type \<Rightarrow> nat \<Rightarrow> int \<Rightarrow> int snbt_result" where
  "coerce_array_integer type from v =
     (if \<not> in_range (type_bytes type) v then Inl (ArrayOutOfRange type, from) else Inr v)"

definition parse_array_value :: "integer_type \<Rightarrow> int snbt_parser" where
  "parse_array_value type us =
     (let us = skip_ws us in
      case bare_token us of (token, rest) \<Rightarrow>
        if token = [] then fail ExpectedArrayValue us
        else and_then (parse_numeric (length us) token) (\<lambda>numeric.
          case Option.bind numeric integer_of of
            None \<Rightarrow> fail ArrayIntegersOnly us
          | Some v \<Rightarrow> and_then (coerce_array_integer type (length us) v) (\<lambda>v. Inr (v, rest))))"

fun array_tag :: "integer_type \<Rightarrow> int list \<Rightarrow> nbt_tag" where
  "array_tag IByte vs = TByteArray vs"
| "array_tag IInt vs = TIntArray vs"
| "array_tag _ vs = TLongArray vs"

text \<open>\<open>source[index]?.toUpperCase()\<close> is B, I or L; the dotless i is an I too.\<close>

definition array_prefix :: "code_units \<Rightarrow> integer_type option" where
  "array_prefix us =
     (case us of [] \<Rightarrow> None
      | u # _ \<Rightarrow>
          if u \<in> set (text_of ''Bb'') then Some IByte
          else if u \<in> set (text_of ''Ii'') \<or> u = 305 then Some IInt
          else if u \<in> set (text_of ''Ll'') then Some ILong else None)"

definition parse_array :: "integer_type \<Rightarrow> nbt_tag snbt_parser" where
  "parse_array type us =
     (let us = skip_ws us in
      if starts CHR '']'' us then Inr (array_tag type [], tl us)
      else and_then (items (Suc (length us)) CHR '']'' ExpectedArrayComma (parse_array_value type) us) (\<lambda>(vs, us).
        Inr (array_tag type vs, us)))"

definition wrap_element :: "nbt_tag \<Rightarrow> nbt_tag" where
  "wrap_element t = (if tag_type t \<noteq> NCompound then TCompound [([], t)] else t)"

text \<open>The list of the values read: of their type when it's one, and otherwise mixed, or of compounds.\<close>

definition list_tag :: "bool \<Rightarrow> nbt_tag list \<Rightarrow> nbt_tag" where
  "list_tag binary vs =
     (let first = list_element_type vs; homogeneous = (\<forall>v\<in>set vs. tag_type v = first) in
      if homogeneous then TList (Elements first) vs
      else if binary then TList (Elements NCompound) (map wrap_element vs)
      else TList Mixed vs)"

definition parse_list_or_array :: "bool \<Rightarrow> nbt_tag snbt_parser \<Rightarrow> nbt_tag snbt_parser" where
  "parse_list_or_array binary tag us =
     (let us = skip_ws (tl us); after_prefix = skip_ws (tl us) in
      if array_prefix us \<noteq> None \<and> starts CHR '';'' after_prefix
      then parse_array (the (array_prefix us)) (tl after_prefix)
      else if starts CHR '']'' us then Inr (TList (Elements NEnd) [], tl us)
      else and_then (items (Suc (length us)) CHR '']'' ExpectedCommaOrBracket tag us) (\<lambda>(vs, us).
        Inr (list_tag binary vs, us)))"

definition apply_operation :: "code_units \<Rightarrow> nbt_tag \<Rightarrow> code_units \<Rightarrow> nbt_tag snbt_result" where
  "apply_operation operation argument us =
     (if operation = text_of ''bool'' then
        (case integer_of argument of
           Some v \<Rightarrow> Inr (TByte (if v = 0 then 0 else 1))
         | None \<Rightarrow> fail BoolArgument us)
      else case argument of
        TString s \<Rightarrow>
          (let hex = filter (\<lambda>u. u \<noteq> ascii CHR ''-'') s in
           if length hex \<noteq> 32 \<or> \<not> list_all is_hex_digit hex then fail UuidInvalid us
           else Inr (TIntArray (map (\<lambda>offset. to_signed 4 (hex_value (take 8 (drop offset hex)))) [0, 8, 16, 24])))
      | _ \<Rightarrow> fail UuidString us)"

definition parse_operation :: "nbt_tag snbt_parser \<Rightarrow> code_units \<Rightarrow> nbt_tag snbt_parser" where
  "parse_operation tag operation us =
     and_then (tag (tl us)) (\<lambda>(argument, us).
       and_then (expect CHR '')'' (ExpectedParenthesis operation) (skip_ws us)) (\<lambda>us.
         and_then (apply_operation operation argument us) (\<lambda>t. Inr (t, us))))"

definition parse_bare :: "nbt_tag snbt_parser \<Rightarrow> nbt_tag snbt_parser" where
  "parse_bare tag us =
     (case bare_token us of (token, rest) \<Rightarrow>
        if token = [] then fail ExpectedValue us
        else
          let rest = skip_ws rest in
          if starts CHR ''('' rest \<and> token \<in> {text_of ''bool'', text_of ''uuid''} then parse_operation tag token rest
          else if token = text_of ''true'' then Inr (TByte 1, rest)
          else if token = text_of ''false'' then Inr (TByte 0, rest)
          else and_then (parse_numeric (length us) token) (\<lambda>numeric.
            case numeric of
              Some t \<Rightarrow> Inr (t, rest)
            | None \<Rightarrow>
                if is_digit (hd token) \<or> hd token \<in> set (text_of ''.+-'') then fail BadUnquotedStart us
                else Inr (TString token, rest)))"

text \<open>
  \<open>parseTag(depth)\<close>, where \<open>levels\<close> is \<open>513 - depth\<close>: none are left exactly when the depth
  exceeds 512.
\<close>

primrec parse_tag :: "bool \<Rightarrow> nat \<Rightarrow> nbt_tag snbt_parser" where
  "parse_tag binary 0 us = fail NestingTooDeep us"
| "parse_tag binary (Suc levels) us =
     (let us = skip_ws us in
      if starts CHR ''{'' us then parse_compound binary (parse_tag binary levels) us
      else if starts CHR ''['' us then parse_list_or_array binary (parse_tag binary levels) us
      else if is_quote us then and_then (parse_quoted binary us) (\<lambda>(s, us). Inr (TString s, us))
      else parse_bare (parse_tag binary levels) us)"

definition parse_root :: "bool \<Rightarrow> code_units \<Rightarrow> nbt_tag snbt_result" where
  "parse_root binary source =
     (let us = skip_ws source in
      if us = [] then fail ExpectedValue us
      else and_then (parse_tag binary 513 us) (\<lambda>(t, us).
        let us = skip_ws us in if us \<noteq> [] then fail UnexpectedContent us else Inr t))"

definition parse_snbt :: "code_units \<Rightarrow> bool \<Rightarrow> parse_error + nbt_tag" where
  "parse_snbt source binary =
     (case parse_root binary source of
        Inl (m, left) \<Rightarrow> Inl (snbt_parse_error m source (length source - left))
      | Inr t \<Rightarrow> Inr t)"

record diagnostic =
  sd_error :: parse_error
  sd_from :: nat
  sd_to :: nat

definition snbt_diagnostic :: "code_units \<Rightarrow> bool \<Rightarrow> diagnostic option" where
  "snbt_diagnostic source binary =
     (case parse_snbt source binary of
        Inr t \<Rightarrow> None
      | Inl e \<Rightarrow> Some \<lparr>sd_error = e, sd_from = se_index e, sd_to = min (length source) (se_index e + 1)\<rparr>)"

section \<open>Formatting\<close>

definition int_text :: "int \<Rightarrow> code_units" where
  "int_text v = (if v < 0 then [ascii CHR ''-''] else []) @ nat_text (nat \<bar>v\<bar>)"

primrec joined :: "code_units \<Rightarrow> code_units list \<Rightarrow> code_units" where
  "joined separator [] = []"
| "joined separator (x # xs) = x @ (if xs = [] then [] else separator @ joined separator xs)"

text \<open>A number that isn't finite throws.\<close>

definition format_decimal :: "double_bits \<Rightarrow> code_units option" where
  "format_decimal v = (if \<not> finite_double v then None else Some (with_point (number_text v)))"

definition replace_all :: "16 word \<Rightarrow> code_units \<Rightarrow> code_units \<Rightarrow> code_units" where
  "replace_all u replacement us = concat (map (\<lambda>v. if v = u then replacement else [v]) us)"

definition quote_string :: "code_units \<Rightarrow> code_units" where
  "quote_string us =
     [34] @ (replace_all 9 (92 # text_of ''t'') \<circ> replace_all 13 (92 # text_of ''r'') \<circ> replace_all 10 (92 # text_of ''n'') \<circ>
       replace_all 12 (92 # text_of ''f'') \<circ> replace_all 8 (92 # text_of ''b'') \<circ> replace_all 34 [92, 34] \<circ>
       replace_all 92 [92, 92]) us @ [34]"

definition key_unit :: "16 word \<Rightarrow> bool" where
  "key_unit u = (is_letter u \<or> is_digit u \<or> u \<in> set (text_of ''._+-''))"

definition format_key :: "code_units \<Rightarrow> code_units" where
  "format_key us = (if us \<noteq> [] \<and> list_all key_unit us then us else quote_string us)"

definition format_collection :: "char \<Rightarrow> char \<Rightarrow> code_units list \<Rightarrow> nat \<Rightarrow> nat \<Rightarrow> code_units" where
  "format_collection opening closing values depth indent =
     (if values = [] then [ascii opening, ascii closing]
      else if indent = 0 then [ascii opening] @ joined (text_of '', '') values @ [ascii closing]
      else
        let padding = replicate ((depth + 1) * indent) 32; closing_padding = replicate (depth * indent) 32 in
        [ascii opening, 10] @ padding @ joined ([ascii CHR '','', 10] @ padding) values @ [10] @ closing_padding @ [ascii closing])"

fun format_tag :: "nbt_tag \<Rightarrow> nat \<Rightarrow> nat \<Rightarrow> code_units option"
  and format_values :: "nbt_tag list \<Rightarrow> nat \<Rightarrow> nat \<Rightarrow> code_units list option"
  and format_entries :: "(code_units \<times> nbt_tag) list \<Rightarrow> nat \<Rightarrow> nat \<Rightarrow> code_units list option" where
  "format_tag (TByte v) depth indent = Some (int_text v @ text_of ''b'')"
| "format_tag (TShort v) depth indent = Some (int_text v @ text_of ''s'')"
| "format_tag (TInt v) depth indent = Some (int_text v)"
| "format_tag (TLong v) depth indent = Some (int_text v @ text_of ''L'')"
| "format_tag (TFloat v) depth indent = map_option (\<lambda>us. us @ text_of ''f'') (format_decimal v)"
| "format_tag (TDouble v) depth indent = map_option (\<lambda>us. us @ text_of ''d'') (format_decimal v)"
| "format_tag (TString s) depth indent = Some (quote_string s)"
| "format_tag (TByteArray vs) depth indent =
     Some (text_of ''[B; '' @ joined (text_of '', '') (map (\<lambda>v. int_text v @ text_of ''b'') vs) @ text_of '']'')"
| "format_tag (TIntArray vs) depth indent = Some (text_of ''[I; '' @ joined (text_of '', '') (map int_text vs) @ text_of '']'')"
| "format_tag (TLongArray vs) depth indent =
     Some (text_of ''[L; '' @ joined (text_of '', '') (map (\<lambda>v. int_text v @ text_of ''L'') vs) @ text_of '']'')"
| "format_tag (TList element vs) depth indent =
     map_option (\<lambda>texts. format_collection CHR ''['' CHR '']'' texts depth indent) (format_values vs (depth + 1) indent)"
| "format_tag (TCompound es) depth indent =
     map_option (\<lambda>texts. format_collection CHR ''{'' CHR ''}'' texts depth indent) (format_entries es (depth + 1) indent)"
| "format_values [] depth indent = Some []"
| "format_values (v # vs) depth indent =
     Option.bind (format_tag v depth indent) (\<lambda>us. map_option (Cons us) (format_values vs depth indent))"
| "format_entries [] depth indent = Some []"
| "format_entries (e # es) depth indent =
     Option.bind (format_tag (snd e) depth indent) (\<lambda>us.
       map_option (Cons (format_key (fst e) @ text_of '': '' @ us)) (format_entries es depth indent))"

definition format_snbt :: "nbt_tag \<Rightarrow> int \<Rightarrow> code_units option" where
  "format_snbt tag indent = map_option (\<lambda>us. us @ [10]) (format_tag tag 0 (nat indent))"

end
