(* ===== verification/Nbt_Codec.thy ===== *)
theory Nbt_Codec
  imports Nbt
begin

text \<open>
  What the NBT codec gives back: a written file reads as the tags written, up to what the format
  can't hold; reading always ends; and a file that was read can be written and read again.
\<close>

section \<open>The parts\<close>

named_theorems nbt_reads \<open>reading what was written\<close>

lemma read_bytes_append [nbt_reads]: "length xs = n \<Longrightarrow> read_bytes n (xs @ rest) = Inr (xs, rest)"
  by (simp add: read_bytes_def)

lemma read_unsigned_be [nbt_reads]: "v < 256 ^ n \<Longrightarrow> read_unsigned n (be_bytes n v @ rest) = Inr (v, rest)"
  by (simp add: read_unsigned_def nbt_reads be_nat_bytes)

lemma pow256: "(256 :: nat) ^ n = 2 ^ (8 * n)"
  by (simp add: power_mult)

lemma read_signed_written:
  "0 < n \<Longrightarrow> write_signed n v = Inr bs \<Longrightarrow> read_signed n (bs @ rest) = Inr (v, rest) \<and> length bs = n"
  by (auto simp: write_signed_def read_signed_def nbt_reads to_signed_unsigned to_unsigned_less pow256 split: if_splits)

lemma tag_id: "\<exists>i. tag_id_by_type t = Some i \<and> i < length tag_type_by_id \<and> tag_type_by_id ! i = t"
  by (cases t) (simp_all add: tag_id_by_type_def tag_type_by_id_def)

lemma read_type_written:
  assumes "write_type t = Inr bs"
  shows "read_type True (bs @ rest) = Inr (t, rest)" and "t \<noteq> NEnd \<Longrightarrow> read_type False (bs @ rest) = Inr (t, rest)"
    and "length bs = 1"
proof -
  obtain i where i: "tag_id_by_type t = Some i" "i < length tag_type_by_id" "tag_type_by_id ! i = t" using tag_id by blast
  have "length tag_type_by_id = 13" by (simp add: tag_type_by_id_def)
  with i have "i < 256 ^ 1" by simp
  from read_unsigned_be [OF this] have "read_unsigned 1 (be_bytes 1 i @ rest) = Inr (i, rest)" .
  moreover have "bs = be_bytes 1 i" using assms i(1) by (simp add: write_type_def)
  ultimately show "read_type True (bs @ rest) = Inr (t, rest)" "t \<noteq> NEnd \<Longrightarrow> read_type False (bs @ rest) = Inr (t, rest)"
    "length bs = 1"
    using i by (simp_all add: read_type_def del: be_bytes.simps)
qed

lemma write_type_ok: "\<exists>bs. write_type t = Inr bs"
  using tag_id [of t] by (auto simp: write_type_def)

lemma read_string_written:
  assumes "write_string us = Inr bs"
  shows "read_string (bs @ rest) = Inr (stored_text us, rest)" and "2 \<le> length bs"
proof -
  let ?e = "utf8_encode us"
  have bs: "bs = be_bytes 2 (length ?e) @ ?e" "length ?e < 256 ^ 2"
    using assms by (simp_all add: write_string_def Let_def split: if_splits)
  then show "read_string (bs @ rest) = Inr (stored_text us, rest)"
    using read_unsigned_be [OF bs(2), of "?e @ rest"] by (simp add: read_string_def nbt_reads utf8_decode_encode)
  show "2 \<le> length bs" by (simp add: bs)
qed

lemma read_length_written:
  assumes "write_length n = Inr bs" and "n \<le> filesize"
  shows "read_length filesize label (bs @ rest) = Inr (n, rest)" and "length bs = 4"
proof -
  have "write_signed 4 (int n) = Inr bs" using assms(1) by (simp add: write_length_def split: if_splits)
  from read_signed_written [OF _ this, of rest] assms(2)
  show "read_length filesize label (bs @ rest) = Inr (n, rest)" "length bs = 4"
    by (simp_all add: read_length_def)
qed

lemma unat_bytes: "be_nat (be_bytes 4 (unat (w :: float_bits))) = unat w" "be_nat (be_bytes 8 (unat (v :: double_bits))) = unat v"
proof -
  have "unat w < 4294967296" "unat v < 18446744073709551616" using unsigned_less [of w] unsigned_less [of v] by simp_all
  then show "be_nat (be_bytes 4 (unat w)) = unat w" "be_nat (be_bytes 8 (unat v)) = unat v" by (simp_all add: be_nat_bytes)
qed

lemma read_float_written:
  assumes "write_float v = Inr bs" and "finite_float (narrow v)"
  shows "read_float (bs @ rest) = Inr (widen (narrow v), rest)" and "length bs = 4"
  using assms narrow_widen(2) [OF assms(2)]
  by (auto simp: write_float_def read_float_def read_unsigned_def nbt_reads unat_bytes split: if_splits)

lemma read_double_written:
  assumes "write_double v = Inr bs"
  shows "read_double (bs @ rest) = Inr (v, rest)" and "length bs = 8"
  using assms
  by (auto simp: write_double_def read_double_def read_unsigned_def nbt_reads unat_bytes Let_def split: if_splits)

lemma byte_value_mod: "byte_value (byte_of (nat (v mod 256))) = to_signed 1 (to_unsigned 1 v)"
proof -
  have "nat (v mod 256) < 256" by (simp add: nat_less_iff)
  then show ?thesis by (auto simp: byte_value_def to_signed_def to_unsigned_def)
qed

lemma also_write_Inr: "also_write a b = Inr bs \<longleftrightarrow> (\<exists>xs ys. a = Inr xs \<and> b = Inr ys \<and> bs = xs @ ys)"
  by (auto simp: also_write_def and_then_Inr_iff)

lemma read_many_written:
  assumes "0 < n" and "write_all (write_signed n) vs = Inr bs"
  shows "read_many (length vs) (read_signed n) (bs @ rest) = Inr (vs, rest) \<and> length bs = n * length vs"
  using assms(2)
proof (induction vs arbitrary: bs)
  case (Cons v vs)
  then show ?case using read_signed_written [OF assms(1), of v] by (auto simp: also_write_Inr)
qed simp

section \<open>What is stored of a tag\<close>

fun stored :: "nbt_tag \<Rightarrow> nbt_tag" where
  "stored (TFloat v) = TFloat (widen (narrow v))"
| "stored (TByteArray vs) = TByteArray (map (\<lambda>v. to_signed 1 (to_unsigned 1 v)) vs)"
| "stored (TString us) = TString (stored_text us)"
| "stored (TList element vs) = TList (Elements (list_element_type vs)) (map stored vs)"
| "stored (TCompound es) = TCompound (map (\<lambda>e. (stored_text (fst e), stored (snd e))) es)"
| "stored tag = tag"

fun floats_fit :: "nbt_tag \<Rightarrow> bool" where
  "floats_fit (TFloat v) = finite_float (narrow v)"
| "floats_fit (TList element vs) = (\<forall>v\<in>set vs. floats_fit v)"
| "floats_fit (TCompound es) = (\<forall>e\<in>set es. floats_fit (snd e))"
| "floats_fit tag = True"

definition stored_root :: "named_nbt \<Rightarrow> named_nbt" where
  "stored_root root = \<lparr>nn_name = stored_text (nn_name root), nn_tag = stored (nn_tag root)\<rparr>"

lemma write_payload_levels: "write_payload tag depth = Inr bs \<Longrightarrow> \<exists>levels. 513 - depth = Suc levels \<and> 513 - (depth + 1) = levels"
  by (auto simp: write_payload.simps [of tag] max_nbt_depth_def split: if_splits)

section \<open>Reading what was written\<close>

lemma payload_written:
  "write_payload tag depth = Inr bs \<Longrightarrow> floats_fit tag \<Longrightarrow> length bs \<le> filesize \<Longrightarrow>
     0 < length bs \<and> read_payload filesize (513 - depth) (tag_type tag) (bs @ rest) = Inr (stored tag, rest)"
  "write_elements vs depth = Inr bs \<Longrightarrow> \<forall>v\<in>set vs. floats_fit v \<and> tag_type v = t \<Longrightarrow> length bs \<le> filesize \<Longrightarrow>
     length vs \<le> length bs \<and> read_many (length vs) (read_payload filesize (513 - depth) t) (bs @ rest) = Inr (map stored vs, rest)"
  "write_entries es depth = Inr bs \<Longrightarrow> \<forall>e\<in>set es. floats_fit (snd e) \<Longrightarrow> length bs \<le> filesize \<Longrightarrow>
     write_type NEnd = Inr end_bytes \<Longrightarrow> length bs \<le> fuel \<Longrightarrow>
     read_entries (Suc fuel) (read_payload filesize (513 - depth)) (bs @ end_bytes @ rest) =
       Inr (map (\<lambda>e. (stored_text (fst e), stored (snd e))) es, rest)"
proof (induction tag depth and vs depth and es depth arbitrary: bs rest and bs rest t and bs rest fuel end_bytes
    rule: write_payload_write_elements_write_entries.induct)
  case (1 tag depth)
  obtain levels where levels: "513 - depth = Suc levels" "513 - (depth + 1) = levels"
    using write_payload_levels [OF 1(3)] by blast
  have shallow: "\<not> depth > max_nbt_depth" using 1(3) by (auto simp: write_payload.simps [of tag])
  note w = 1(3) [unfolded write_payload.simps [of tag] if_not_P [OF shallow]]
  show ?case
  proof (cases tag)
    case (TList element vs)
    from w TList obtain tb lb eb where
      same: "\<forall>v\<in>set vs. tag_type v = list_element_type vs" and
      bs: "write_type (list_element_type vs) = Inr tb" "write_length (length vs) = Inr lb"
        "write_elements vs (depth + 1) = Inr eb" "bs = tb @ lb @ eb"
      by (auto simp: also_write_Inr split: if_splits)
    have fit: "\<forall>v\<in>set vs. floats_fit v \<and> tag_type v = list_element_type vs" using 1(4) TList same by simp
    have small: "length eb \<le> filesize" using 1(5) bs by simp
    have c: "\<not> (element = Mixed \<or> (\<exists>v\<in>set vs. tag_type v \<noteq> list_element_type vs))" using w TList by (auto split: if_splits)
    note ih = 1(1) [OF shallow TList c bs(3) fit small]
    have len: "length vs \<le> filesize" using ih [of rest] small by simp
    have none: "vs = []" if "list_element_type vs = NEnd"
      using that by (cases vs) (auto simp: list_element_type_def elim: tag_type.elims)
    show ?thesis
      using ih [of rest] read_type_written [OF bs(1)] read_length_written [OF bs(2) len] none levels
      by (auto simp: TList bs(4))
  next
    case (TCompound es)
    from w TCompound obtain eb end_bytes where
      bs: "write_entries es (depth + 1) = Inr eb" "write_type NEnd = Inr end_bytes" "bs = eb @ end_bytes"
      by (auto simp: also_write_Inr)
    have fit: "\<forall>e\<in>set es. floats_fit (snd e)" using 1(4) TCompound by simp
    have small: "length eb \<le> filesize" using 1(5) bs by simp
    have "read_entries (Suc (length (bs @ rest))) (read_payload filesize (513 - (depth + 1))) (eb @ end_bytes @ rest) =
       Inr (map (\<lambda>e. (stored_text (fst e), stored (snd e))) es, rest)"
      by (rule 1(2) [OF shallow TCompound bs(1) fit small bs(2)]) (simp add: bs)
    then show ?thesis using levels read_type_written(3) [OF bs(2)] by (simp add: TCompound bs(3) del: read_entries.simps)
  next
    case (TByteArray vs)
    from w TByteArray obtain lb where
      bs: "write_length (length vs) = Inr lb" "bs = lb @ map (\<lambda>v. byte_of (nat (v mod 256))) vs"
      by (auto simp: also_write_Inr)
    have len: "length vs \<le> filesize" using 1(5) bs by simp
    from read_length_written [OF bs(1) len] show ?thesis
      using levels by (simp add: TByteArray bs(2) read_bytes_append comp_def byte_value_mod)
  next
    case (TIntArray vs)
    from w TIntArray obtain lb ib where
      bs: "write_length (length vs) = Inr lb" "write_all (write_signed 4) vs = Inr ib" "bs = lb @ ib"
      by (auto simp: also_write_Inr)
    note many = read_many_written [OF _ bs(2), of rest]
    have len: "length vs \<le> filesize" using 1(5) bs many by simp
    from read_length_written [OF bs(1) len] many show ?thesis
      using levels by (simp add: TIntArray bs(3))
  next
    case (TLongArray vs)
    from w TLongArray obtain lb ib where
      bs: "write_length (length vs) = Inr lb" "write_all (write_signed 8) vs = Inr ib" "bs = lb @ ib"
      by (auto simp: also_write_Inr)
    note many = read_many_written [OF _ bs(2), of rest]
    have len: "length vs \<le> filesize" using 1(5) bs many by simp
    from read_length_written [OF bs(1) len] many show ?thesis
      using levels by (simp add: TLongArray bs(3))
  next
    case (TByte v)
    with w levels read_signed_written [of 1 v bs] show ?thesis by simp
  next
    case (TShort v)
    with w levels read_signed_written [of 2 v bs] show ?thesis by simp
  next
    case (TInt v)
    with w levels read_signed_written [of 4 v bs] show ?thesis by simp
  next
    case (TLong v)
    with w levels read_signed_written [of 8 v bs] show ?thesis by simp
  next
    case (TFloat v)
    with w levels read_float_written [of v bs] 1(4) show ?thesis by simp
  next
    case (TDouble v)
    with w levels read_double_written [of v bs] show ?thesis by simp
  next
    case (TString v)
    with w levels read_string_written [of v bs] show ?thesis by (cases bs) simp_all
  qed
next
  case (3 v vs depth)
  from 3(3) obtain xb yb where bs: "write_payload v depth = Inr xb" "write_elements vs depth = Inr yb" "bs = xb @ yb"
    by (auto simp: also_write_Inr)
  have "0 < length xb \<and> read_payload filesize (513 - depth) (tag_type v) (xb @ yb @ rest) = Inr (stored v, yb @ rest)"
    by (rule 3(1) [OF bs(1)]) (use 3(4,5) bs in auto)
  moreover have "length vs \<le> length yb \<and> read_many (length vs) (read_payload filesize (513 - depth) t) (yb @ rest) =
      Inr (map stored vs, rest)"
    by (rule 3(2) [OF bs(2)]) (use 3(4,5) bs in auto)
  moreover have "tag_type v = t" "length (v # vs) \<le> length bs"
    using 3(4) calculation by (cases xb; simp add: bs(3))+
  ultimately show ?case by (auto simp: bs(3))
next
  case (5 e es depth)
  from 5(3) obtain tb sb xb yb where bs: "write_type (tag_type (snd e)) = Inr tb" "write_string (fst e) = Inr sb"
      "write_payload (snd e) depth = Inr xb" "write_entries es depth = Inr yb" "bs = tb @ sb @ xb @ yb"
    by (auto simp: also_write_Inr)
  obtain fuel' where fuel: "fuel = Suc fuel'" "length yb \<le> fuel'"
    using 5(7) read_type_written(3) [OF bs(1)] bs(5) by (cases fuel) auto
  have "read_payload filesize (513 - depth) (tag_type (snd e)) (xb @ yb @ end_bytes @ rest) = Inr (stored (snd e), yb @ end_bytes @ rest)"
    using 5(1) [OF bs(3), of "yb @ end_bytes @ rest"] 5(4,5) bs(5) by simp
  moreover have "read_entries (Suc fuel') (read_payload filesize (513 - depth)) (yb @ end_bytes @ rest) =
       Inr (map (\<lambda>e. (stored_text (fst e), stored (snd e))) es, rest)"
    by (rule 5(2) [OF bs(4) _ _ 5(6) fuel(2)]) (use 5(4,5) bs in auto)
  moreover have "tag_type (snd e) \<noteq> NEnd" by (cases "snd e") simp_all
  ultimately show ?case
    using read_type_written(1) [OF bs(1), of "sb @ xb @ yb @ end_bytes @ rest"]
      read_string_written(1) [OF bs(2), of "xb @ yb @ end_bytes @ rest"]
    by (simp add: bs(5) fuel(1))
next
  case (4 depth)
  then show ?case using read_type_written(1) [OF 4(4), of rest] by simp
qed simp

section \<open>Reading ends\<close>

lemma read_bytes_Inr: "read_bytes n bs = Inr (v, rest) \<longleftrightarrow> n \<le> length bs \<and> v = take n bs \<and> rest = drop n bs"
  by (auto simp: read_bytes_def)

lemma read_unsigned_Inr:
  "read_unsigned n bs = Inr (v, rest) \<longleftrightarrow> n \<le> length bs \<and> v = be_nat (take n bs) \<and> rest = drop n bs"
  by (auto simp: read_unsigned_def and_then_Inr_iff read_bytes_Inr)

lemma read_signed_Inr:
  "read_signed n bs = Inr (v, rest) \<longleftrightarrow> n \<le> length bs \<and> v = to_signed n (be_nat (take n bs)) \<and> rest = drop n bs"
  by (auto simp: read_signed_def and_then_Inr_iff read_unsigned_Inr)

lemma read_type_Inr: "read_type allow bs = Inr (t, rest) \<Longrightarrow> bs \<noteq> [] \<and> rest = tl bs \<and> (t = NEnd \<longrightarrow> allow)"
  by (auto simp: read_type_def and_then_Inr_iff read_unsigned_Inr drop_Suc split: if_splits)

lemma read_string_Inr:
  assumes "read_string bs = Inr (us, rest)"
  shows "length rest + 2 \<le> length bs" and "\<exists>out. write_string us = Inr out"
proof -
  obtain encoded where e: "utf8_decode encoded = Some us" "length encoded < 256 ^ 2" "length rest + 2 \<le> length bs"
  proof -
    from assms obtain len where "2 \<le> length bs" "len = be_nat (take 2 bs)" "len \<le> length bs - 2"
      "utf8_decode (take len (drop 2 bs)) = Some us" "rest = drop len (drop 2 bs)"
      by (auto simp: read_string_def and_then_Inr_iff read_unsigned_Inr read_bytes_Inr split: option.splits)
    then show thesis using be_nat_less [of "take 2 bs"] by (intro that [of "take len (drop 2 bs)"]) auto
  qed
  show "length rest + 2 \<le> length bs" by (rule e(3))
  have "length (utf8_encode us) \<le> length encoded" using utf8_encode_decode [OF e(1)] by auto
  with e(2) show "\<exists>out. write_string us = Inr out" by (simp add: write_string_def Let_def)
qed

lemma read_length_Inr:
  assumes "read_length filesize label bs = Inr (n, rest)"
  shows "length rest + 4 = length bs" and "n \<le> 2147483647"
proof -
  from assms have b: "4 \<le> length bs" "n = nat (to_signed 4 (be_nat (take 4 bs)))" "rest = drop 4 bs"
    by (auto simp: read_length_def and_then_Inr_iff read_signed_Inr split: if_splits)
  from b(1,3) show "length rest + 4 = length bs" by simp
  have "in_range 4 (to_signed 4 (be_nat (take 4 bs)))"
    using be_nat_less [of "take 4 bs"] b(1) by (intro to_signed_range) simp_all
  then have "to_signed 4 (be_nat (take 4 bs)) < 2147483648" by (simp add: in_range_def)
  then show "n \<le> 2147483647" unfolding b(2) by linarith
qed

lemma read_float_Inr:
  assumes "read_float bs = Inr (v, rest)"
  shows "length rest + 4 = length bs" and "\<exists>w. v = widen w \<and> finite_double v"
  using assms by (auto simp: read_float_def and_then_Inr_iff read_unsigned_Inr Let_def split: if_splits)

lemma read_double_Inr:
  assumes "read_double bs = Inr (v, rest)"
  shows "length rest + 8 = length bs" and "finite_double v"
  using assms by (auto simp: read_double_def and_then_Inr_iff read_unsigned_Inr Let_def split: if_splits)

lemma read_many_le:
  assumes "\<And>bs v rest. item bs = Inr (v, rest) \<Longrightarrow> length rest \<le> length bs"
  shows "read_many n item bs = Inr (vs, rest) \<Longrightarrow> length rest \<le> length bs"
  by (induction n arbitrary: bs vs) (auto simp: and_then_Inr_iff dest!: assms intro: order_trans)

lemma read_entries_le:
  assumes "\<And>t bs v rest. payload t bs = Inr (v, rest) \<Longrightarrow> length rest \<le> length bs"
  shows "read_entries n payload bs = Inr (es, rest) \<Longrightarrow> length rest < length bs"
proof (induction n arbitrary: bs es)
  case (Suc n)
  from Suc(2) obtain child r1 where head: "read_type True bs = Inr (child, r1)"
    by (auto simp: and_then_Inr_iff)
  note h = read_type_Inr [OF head]
  show ?case
  proof (cases "child = NEnd")
    case True
    with Suc(2) head h have "rest = tl bs" "bs \<noteq> []" by simp_all
    then show ?thesis by simp
  next
    case False
    with Suc(2) head obtain name r2 tag r3 es' where
      "read_string r1 = Inr (name, r2)" "payload child r2 = Inr (tag, r3)" "read_entries n payload r3 = Inr (es', rest)"
      by (auto simp: and_then_Inr_iff)
    with read_string_Inr(1) assms Suc(1) h show ?thesis by fastforce
  qed
qed simp

lemma read_payload_shorter: "read_payload filesize levels t bs = Inr (v, rest) \<Longrightarrow> length rest < length bs"
proof (induction levels arbitrary: t bs v rest)
  case (Suc levels)
  have le: "read_payload filesize levels t bs = Inr (v, rest) \<Longrightarrow> length rest \<le> length bs" for t bs v rest
    using Suc(1) by fastforce
  show ?case
  proof (cases t)
    case NList
    with Suc(2) obtain element r1 len r2 vs where "read_type True bs = Inr (element, r1)"
      "read_length filesize ''list'' r1 = Inr (len, r2)" "read_many len (read_payload filesize levels element) r2 = Inr (vs, rest)"
      by (auto simp: and_then_Inr_iff split: if_splits)
    with read_type_Inr [of True bs element r1] read_length_Inr(1) read_many_le [OF le] show ?thesis by fastforce
  next
    case NCompound
    with Suc(2) obtain es where "read_entries (Suc (length bs)) (read_payload filesize levels) bs = Inr (es, rest)"
      by (auto simp: and_then_Inr_iff simp del: read_entries.simps)
    from read_entries_le [OF le this] show ?thesis .
  next
    case NIntArray
    with Suc(2) obtain len r1 vs where "read_length filesize ''int array'' bs = Inr (len, r1)" "read_many len (read_signed 4) r1 = Inr (vs, rest)"
      by (auto simp: and_then_Inr_iff)
    with read_length_Inr(1) read_many_le [of "read_signed 4" len r1 vs rest] show ?thesis by (fastforce simp: read_signed_Inr)
  next
    case NLongArray
    with Suc(2) obtain len r1 vs where "read_length filesize ''long array'' bs = Inr (len, r1)" "read_many len (read_signed 8) r1 = Inr (vs, rest)"
      by (auto simp: and_then_Inr_iff)
    with read_length_Inr(1) read_many_le [of "read_signed 8" len r1 vs rest] show ?thesis by (fastforce simp: read_signed_Inr)
  next
    case NByteArray
    with Suc(2) obtain len r1 vs where "read_length filesize ''byte array'' bs = Inr (len, r1)" "read_bytes len r1 = Inr (vs, rest)"
      by (auto simp: and_then_Inr_iff)
    with read_length_Inr(1) show ?thesis by (fastforce simp: read_bytes_Inr)
  next
    case NFloat
    with Suc(2) read_float_Inr(1) show ?thesis by (fastforce simp: and_then_Inr_iff)
  next
    case NDouble
    with Suc(2) read_double_Inr(1) show ?thesis by (fastforce simp: and_then_Inr_iff)
  next
    case NString
    with Suc(2) read_string_Inr(1) show ?thesis by (fastforce simp: and_then_Inr_iff)
  qed (use Suc(2) in \<open>auto simp: and_then_Inr_iff read_signed_Inr\<close>)
qed simp

lemma read_no_fuel:
  "read_bytes n bs \<noteq> Inl OutOfFuel" "read_unsigned n bs \<noteq> Inl OutOfFuel" "read_signed n bs \<noteq> Inl OutOfFuel"
  "read_type allow bs \<noteq> Inl OutOfFuel" "read_string bs \<noteq> Inl OutOfFuel"
  "read_length filesize label bs \<noteq> Inl OutOfFuel" "read_float bs \<noteq> Inl OutOfFuel" "read_double bs \<noteq> Inl OutOfFuel"
proof -
  show b: "read_bytes n bs \<noteq> Inl OutOfFuel" for n bs by (simp add: read_bytes_def)
  show u: "read_unsigned n bs \<noteq> Inl OutOfFuel" for n bs using b by (auto simp: read_unsigned_def and_then_Inl_iff)
  show s: "read_signed n bs \<noteq> Inl OutOfFuel" for n bs using u by (auto simp: read_signed_def and_then_Inl_iff)
  show "read_type allow bs \<noteq> Inl OutOfFuel" using u by (auto simp: read_type_def and_then_Inl_iff split: if_splits)
  show "read_string bs \<noteq> Inl OutOfFuel"
    using u b by (auto simp: read_string_def and_then_Inl_iff split: option.splits)
  show "read_length filesize label bs \<noteq> Inl OutOfFuel"
    using s by (auto simp: read_length_def and_then_Inl_iff split: if_splits)
  show "read_float bs \<noteq> Inl OutOfFuel" "read_double bs \<noteq> Inl OutOfFuel"
    using u by (auto simp: read_float_def read_double_def and_then_Inl_iff Let_def split: if_splits)
qed

lemma read_many_no_fuel: "(\<And>bs. item bs \<noteq> Inl OutOfFuel) \<Longrightarrow> read_many n item bs \<noteq> Inl OutOfFuel"
  by (induction n arbitrary: bs) (auto simp: and_then_Inl_iff)

lemma read_entries_no_fuel:
  assumes "\<And>t bs. payload t bs \<noteq> Inl OutOfFuel" and "\<And>t bs v rest. payload t bs = Inr (v, rest) \<Longrightarrow> length rest \<le> length bs"
  shows "length bs < n \<Longrightarrow> read_entries n payload bs \<noteq> Inl OutOfFuel"
proof (induction n arbitrary: bs)
  case (Suc n)
  show ?case
  proof
    assume "read_entries (Suc n) payload bs = Inl OutOfFuel"
    then obtain child r1 name r2 tag r3 where
      r: "read_type True bs = Inr (child, r1)" "read_string r1 = Inr (name, r2)" "payload child r2 = Inr (tag, r3)"
        "read_entries n payload r3 = Inl OutOfFuel"
      using read_no_fuel(4,5) assms(1) by (auto simp: and_then_Inl_iff split: if_splits)
    from read_type_Inr [OF r(1)] have "length r1 < length bs" by (cases bs) simp_all
    with read_string_Inr(1) [OF r(2)] assms(2) [OF r(3)] Suc(2) have "length r3 < n" by linarith
    with Suc(1) r(4) show False by blast
  qed
qed simp

lemma read_payload_no_fuel: "read_payload filesize levels t bs \<noteq> Inl OutOfFuel"
proof (induction levels arbitrary: t bs)
  case (Suc levels)
  have le: "read_payload filesize levels t bs = Inr (v, rest) \<Longrightarrow> length rest \<le> length bs" for t bs v rest
    using read_payload_shorter by fastforce
  note simps = read_no_fuel read_many_no_fuel [OF Suc] read_many_no_fuel [of "read_signed _", OF read_no_fuel(3)]
    read_entries_no_fuel [OF Suc le lessI]
  show ?case
    by (cases t) (auto simp: and_then_Inl_iff simps simp del: read_entries.simps split: if_splits)
qed simp

section \<open>What was read can be written\<close>

lemma read_many_items:
  "read_many n item bs = Inr (vs, rest) \<Longrightarrow> length vs = n \<and> (\<forall>v\<in>set vs. \<exists>b r. item b = Inr (v, r))"
proof (induction n arbitrary: bs vs)
  case (Suc n)
  from Suc(2) obtain v r xs where "item bs = Inr (v, r)" "read_many n item r = Inr (xs, rest)" "vs = v # xs"
    by (auto simp: and_then_Inr_iff)
  with Suc(1) show ?case by auto
qed simp

lemma read_entries_items:
  "read_entries n payload bs = Inr (es, rest) \<Longrightarrow>
   \<forall>e\<in>set es. (\<exists>out. write_string (fst e) = Inr out) \<and> (\<exists>t b r. payload t b = Inr (snd e, r))"
proof (induction n arbitrary: bs es)
  case (Suc n)
  from Suc(2) obtain child r1 where head: "read_type True bs = Inr (child, r1)" by (auto simp: and_then_Inr_iff)
  show ?case
  proof (cases "child = NEnd")
    case True
    with Suc(2) head show ?thesis by simp
  next
    case False
    with Suc(2) head obtain name r2 tag r3 es' where
      "read_string r1 = Inr (name, r2)" "payload child r2 = Inr (tag, r3)" "read_entries n payload r3 = Inr (es', rest)"
      "es = (name, tag) # es'"
      by (auto simp: and_then_Inr_iff)
    with read_string_Inr(2) Suc(1) show ?thesis by auto
  qed
qed simp

lemma write_elements_ok:
  "(\<And>v. v \<in> set vs \<Longrightarrow> \<exists>out. write_payload v depth = Inr out) \<Longrightarrow> \<exists>out. write_elements vs depth = Inr out"
proof (induction vs)
  case (Cons v vs)
  then obtain a b where "write_payload v depth = Inr a" "write_elements vs depth = Inr b" by (meson list.set_intros)
  then show ?case by (auto simp: also_write_Inr)
qed simp

lemma write_entries_ok:
  "(\<And>e. e \<in> set es \<Longrightarrow> (\<exists>out. write_string (fst e) = Inr out) \<and> (\<exists>out. write_payload (snd e) depth = Inr out)) \<Longrightarrow>
   \<exists>out. write_entries es depth = Inr out"
proof (induction es)
  case (Cons e es)
  then obtain a b c where "write_string (fst e) = Inr a" "write_payload (snd e) depth = Inr b" "write_entries es depth = Inr c"
    by (meson list.set_intros)
  moreover obtain d where "write_type (tag_type (snd e)) = Inr d" using write_type_ok by blast
  ultimately show ?case by (auto simp: also_write_Inr)
qed simp

lemma write_signed_read: "0 < n \<Longrightarrow> read_signed n bs = Inr (v, rest) \<Longrightarrow> \<exists>out. write_signed n v = Inr out"
proof -
  assume n: "0 < n" and "read_signed n bs = Inr (v, rest)"
  then have r: "n \<le> length bs" "v = to_signed n (be_nat (take n bs))" by (simp_all add: read_signed_Inr)
  then have "be_nat (take n bs) < 2 ^ (8 * n)" using be_nat_less [of "take n bs"] by (simp add: pow256)
  from to_signed_range [OF n this] show ?thesis by (simp add: write_signed_def r(2))
qed

lemma write_all_ok: "(\<And>v. v \<in> set vs \<Longrightarrow> \<exists>out. f v = Inr out) \<Longrightarrow> \<exists>out. write_all f vs = Inr out"
proof (induction vs)
  case (Cons v vs)
  then obtain a b where "f v = Inr a" "write_all f vs = Inr b" by (meson list.set_intros)
  then show ?case by (auto simp: also_write_Inr)
qed simp

lemma write_length_ok: "n \<le> 2147483647 \<Longrightarrow> \<exists>out. write_length n = Inr out"
  by (simp add: write_length_def write_signed_def in_range_def)

lemma widen_fits: "finite_double (widen w) \<Longrightarrow> finite_float (narrow (widen w))"
  by (simp add: finite_widen narrow_widen(1))

lemma payload_read:
  "read_payload filesize levels t bs = Inr (tag, rest) \<Longrightarrow> levels \<le> 513 \<Longrightarrow>
   tag_type tag = t \<and> floats_fit tag \<and> (\<exists>out. write_payload tag (513 - levels) = Inr out)"
proof (induction levels arbitrary: t bs tag rest)
  case (Suc levels)
  have depth: "\<not> 513 - Suc levels > max_nbt_depth" "513 - Suc levels + 1 = 513 - levels"
    using Suc(3) by (simp_all add: max_nbt_depth_def)
  have levels: "levels \<le> 513" using Suc(3) by simp
  note w = write_payload.simps if_not_P [OF depth(1)] depth(2)
  show ?case
  proof (cases t)
    case NList
    with Suc(2) obtain element r1 len r2 vs where r: "read_type True bs = Inr (element, r1)"
      "read_length filesize ''list'' r1 = Inr (len, r2)" "len = 0 \<or> element \<noteq> NEnd"
      "read_many len (read_payload filesize levels element) r2 = Inr (vs, rest)" "tag = TList (Elements element) vs"
      by (auto simp: and_then_Inr_iff split: if_splits)
    note items = read_many_items [OF r(4)]
    have each: "tag_type v = element \<and> floats_fit v \<and> (\<exists>out. write_payload v (513 - levels) = Inr out)" if "v \<in> set vs" for v
      using items that Suc(1) [OF _ levels] by blast
    have same: "\<not> (Elements element = Mixed \<or> (\<exists>v\<in>set vs. tag_type v \<noteq> list_element_type vs))"
      using each by (cases vs) (auto simp: list_element_type_def)
    obtain out where "write_elements vs (513 - levels) = Inr out" using write_elements_ok [of vs] each by blast
    moreover obtain lo where "write_length (length vs) = Inr lo"
      using write_length_ok read_length_Inr(2) [OF r(2)] items by blast
    moreover obtain ty where "write_type (list_element_type vs) = Inr ty" using write_type_ok by blast
    ultimately have "\<exists>out. write_payload tag (513 - Suc levels) = Inr out"
      unfolding r(5) w nbt_tag.simps if_not_P [OF same] by (auto simp: also_write_Inr)
    then show ?thesis using each NList by (simp add: r(5))
  next
    case NCompound
    with Suc(2) obtain es where r: "read_entries (Suc (length bs)) (read_payload filesize levels) bs = Inr (es, rest)"
      "tag = TCompound es"
      by (auto simp: and_then_Inr_iff simp del: read_entries.simps)
    have each: "(\<exists>out. write_string (fst e) = Inr out) \<and> floats_fit (snd e) \<and> (\<exists>out. write_payload (snd e) (513 - levels) = Inr out)"
      if "e \<in> set es" for e
      using read_entries_items [OF r(1)] that Suc(1) [OF _ levels] by blast
    obtain out where "write_entries es (513 - levels) = Inr out" using write_entries_ok [of es] each by blast
    moreover obtain ty where "write_type NEnd = Inr ty" using write_type_ok by blast
    ultimately have "\<exists>out. write_payload tag (513 - Suc levels) = Inr out"
      unfolding r(2) w by (auto simp: also_write_Inr)
    then show ?thesis using each NCompound by (simp add: r(2))
  next
    case NIntArray
    with Suc(2) obtain len r1 vs where r: "read_length filesize ''int array'' bs = Inr (len, r1)"
      "read_many len (read_signed 4) r1 = Inr (vs, rest)" "tag = TIntArray vs"
      by (auto simp: and_then_Inr_iff)
    note items = read_many_items [OF r(2)]
    obtain lo where "write_length (length vs) = Inr lo"
      using write_length_ok read_length_Inr(2) [OF r(1)] items by blast
    moreover obtain out where "write_all (write_signed 4) vs = Inr out"
      using write_all_ok [of vs "write_signed 4"] items write_signed_read [of 4] by (metis zero_less_numeral)
    ultimately show ?thesis using NIntArray unfolding r(3) w by (auto simp: also_write_Inr)
  next
    case NLongArray
    with Suc(2) obtain len r1 vs where r: "read_length filesize ''long array'' bs = Inr (len, r1)"
      "read_many len (read_signed 8) r1 = Inr (vs, rest)" "tag = TLongArray vs"
      by (auto simp: and_then_Inr_iff)
    note items = read_many_items [OF r(2)]
    obtain lo where "write_length (length vs) = Inr lo"
      using write_length_ok read_length_Inr(2) [OF r(1)] items by blast
    moreover obtain out where "write_all (write_signed 8) vs = Inr out"
      using write_all_ok [of vs "write_signed 8"] items write_signed_read [of 8] by (metis zero_less_numeral)
    ultimately show ?thesis using NLongArray unfolding r(3) w by (auto simp: also_write_Inr)
  next
    case NByteArray
    with Suc(2) obtain len r1 vs where r: "read_length filesize ''byte array'' bs = Inr (len, r1)"
      "read_bytes len r1 = Inr (vs, rest)" "tag = TByteArray (map byte_value vs)"
      by (auto simp: and_then_Inr_iff)
    obtain lo where "write_length (length vs) = Inr lo"
      using write_length_ok [of "length vs"] read_length_Inr(2) [OF r(1)] r(2) by (auto simp: read_bytes_Inr)
    then show ?thesis using NByteArray unfolding r(3) w by (auto simp: also_write_Inr)
  next
    case NFloat
    with Suc(2) obtain v where r: "read_float bs = Inr (v, rest)" "tag = TFloat v" by (auto simp: and_then_Inr_iff)
    from read_float_Inr(2) [OF r(1)] show ?thesis using NFloat widen_fits unfolding r(2) w by (auto simp: write_float_def)
  next
    case NDouble
    with Suc(2) obtain v where r: "read_double bs = Inr (v, rest)" "tag = TDouble v" by (auto simp: and_then_Inr_iff)
    from read_double_Inr(2) [OF r(1)] show ?thesis using NDouble unfolding r(2) w by (auto simp: write_double_def)
  next
    case NString
    with Suc(2) obtain v where r: "read_string bs = Inr (v, rest)" "tag = TString v" by (auto simp: and_then_Inr_iff)
    from read_string_Inr(2) [OF r(1)] show ?thesis using NString unfolding r(2) w by auto
  next
    case NByte
    with Suc(2) obtain v where r: "read_signed 1 bs = Inr (v, rest)" "tag = TByte v" by (auto simp: and_then_Inr_iff)
    from write_signed_read [OF _ r(1)] show ?thesis using NByte unfolding r(2) w by auto
  next
    case NShort
    with Suc(2) obtain v where r: "read_signed 2 bs = Inr (v, rest)" "tag = TShort v" by (auto simp: and_then_Inr_iff)
    from write_signed_read [OF _ r(1)] show ?thesis using NShort unfolding r(2) w by auto
  next
    case NInt
    with Suc(2) obtain v where r: "read_signed 4 bs = Inr (v, rest)" "tag = TInt v" by (auto simp: and_then_Inr_iff)
    from write_signed_read [OF _ r(1)] show ?thesis using NInt unfolding r(2) w by auto
  next
    case NLong
    with Suc(2) obtain v where r: "read_signed 8 bs = Inr (v, rest)" "tag = TLong v" by (auto simp: and_then_Inr_iff)
    from write_signed_read [OF _ r(1)] show ?thesis using NLong unfolding r(2) w by auto
  next
    case NEnd
    with Suc(2) show ?thesis by simp
  qed
qed simp

section \<open>Properties\<close>

lemma encode_decode:
  assumes "encode_nbt root = Inr bs" and "floats_fit (nn_tag root)"
  shows "decode_nbt bs = Inr (stored_root root)"
proof -
  from assms(1) obtain tb sb pb where e: "write_type (tag_type (nn_tag root)) = Inr tb" "write_string (nn_name root) = Inr sb"
      "write_payload (nn_tag root) 0 = Inr pb" "bs = tb @ sb @ pb"
    by (auto simp: encode_nbt_def also_write_Inr)
  have "tag_type (nn_tag root) \<noteq> NEnd" by (cases "nn_tag root") simp_all
  moreover have "read_payload (length bs) 513 (tag_type (nn_tag root)) pb = Inr (stored (nn_tag root), [])"
    using payload_written(1) [OF e(3) assms(2), of "length bs" "[]"] e(4) by simp
  ultimately show ?thesis
    using read_type_written(2) [OF e(1), of "sb @ pb"] read_string_written(1) [OF e(2), of pb]
    by (simp add: decode_nbt_def stored_root_def max_nbt_depth_def e(4))
qed

text \<open>Tags that the format holds as they are.\<close>

fun holdable :: "nbt_tag \<Rightarrow> bool" where
  "holdable (TFloat v) = (\<exists>w. finite_float w \<and> v = widen w)"
| "holdable (TByteArray vs) = (\<forall>v\<in>set vs. in_range 1 v)"
| "holdable (TString us) = plain_text us"
| "holdable (TList element vs) = (element = Elements (list_element_type vs) \<and> (\<forall>v\<in>set vs. holdable v))"
| "holdable (TCompound es) = (\<forall>e\<in>set es. plain_text (fst e) \<and> holdable (snd e))"
| "holdable tag = True"

lemma holdable_stored: "holdable tag \<Longrightarrow> stored tag = tag \<and> floats_fit tag"
proof (induction tag)
  case (TByteArray vs)
  then show ?case by (auto simp: to_signed_unsigned intro: map_idI)
next
  case (TList element vs)
  then show ?case by (auto intro: map_idI)
next
  case (TCompound es)
  have "stored (snd e) = snd e \<and> floats_fit (snd e)" if "e \<in> set es" for e
    using TCompound.IH [OF that, of "snd e"] TCompound.prems that by (cases e) auto
  moreover from this have "map (\<lambda>e. (stored_text (fst e), stored (snd e))) es = es"
    using TCompound.prems by (intro map_idI) (simp add: stored_plain)
  ultimately show ?case by simp
qed (auto simp: narrow_widen stored_plain)

text \<open>C23: Reading a file that was written gives what was written: the same tags when the format holds
  them as they are, and in general the text as UTF-8 keeps it, floats rounded to single
  precision, and each list with the type of its elements, as long as no float rounds past the
  largest.\<close>

theorem nbt_roundtrip:
  assumes "encode_nbt root = Inr bs" and "floats_fit (nn_tag root)"
  shows "decode_nbt bs = Inr (stored_root root) \<and>
    (plain_text (nn_name root) \<and> holdable (nn_tag root) \<longrightarrow> decode_nbt bs = Inr root)"
  using encode_decode [OF assms] holdable_stored [of "nn_tag root"]
  by (auto simp: stored_root_def stored_plain)

lemmas nbt_eval = encode_nbt_def also_write_def write_payload.simps write_type_def tag_id_by_type_def tag_type_by_id_def
  be_bytes_numerals write_string_def utf8_encode_def utf8_point_def unit_point_def high_surrogate_def low_surrogate_def
  write_length_def write_signed_def in_range_def to_unsigned_def byte_of_def list_element_type_def max_nbt_depth_def

definition demo_nbt :: named_nbt where
  "demo_nbt = \<lparr>nn_name = [], nn_tag = TCompound [([120], TList (Elements NShort) [TShort (-2), TShort 300])]\<rparr>"

lemma demo_nbt_encoded:
  "encode_nbt demo_nbt = Inr [10, 0, 0, 9, 0, 1, 120, 2, 0, 0, 0, 2, 255, 254, 1, 44, 0]"
  by (simp add: demo_nbt_def nbt_eval)

theorem nbt_roundtrip_witness:
  "decode_nbt [10, 0, 0, 9, 0, 1, 120, 2, 0, 0, 0, 2, 255, 254, 1, 44, 0] = Inr (stored_root demo_nbt)"
  using nbt_roundtrip [OF demo_nbt_encoded] by (simp add: demo_nbt_def)


text \<open>
  A float tag may hold any JavaScript number. One that is finite but past the largest float is
  written as infinity, which the reader refuses: the file that was saved can't be opened.
\<close>

definition huge_number :: double_bits where
  "huge_number = 0x7FE0000000000000"

lemma float_overflow_unreadable:
  "encode_nbt \<lparr>nn_name = [], nn_tag = TFloat huge_number\<rparr> = Inr [5, 0, 0, 127, 128, 0, 0] \<and>
   decode_nbt [5, 0, 0, 127, 128, 0, 0] = Inl NonFiniteFloat"
proof
  show "encode_nbt \<lparr>nn_name = [], nn_tag = TFloat huge_number\<rparr> = Inr [5, 0, 0, 127, 128, 0, 0]"
    by (simp add: nbt_eval write_float_def huge_number_def finite_double_def double_magnitude_def narrow_def
        narrow_magnitude_def round_even_def)
  show "decode_nbt [5, 0, 0, 127, 128, 0, 0] = Inl NonFiniteFloat"
    by (simp add: decode_nbt_def read_type_def read_string_def read_unsigned_def read_bytes_def
        read_float_def be_nat_def tag_type_by_id_def utf8_decode_def drop_bom_def units_of_points_def
        finite_double_def double_magnitude_def widen_def widen_magnitude_def float_magnitude_def)
qed

end
