(* ===== verification/Snbt_Codec.thy ===== *)
theory Snbt_Codec
  imports Snbt Nbt_Codec
begin

text \<open>
  What \<open>formatSnbt\<close> writes, \<open>parseSnbt\<close> reads: each text is read by its part of the parser and
  leaves what followed it, up to white space. The loops never run out of turns.
\<close>

section \<open>Characters of the format\<close>

lemma ascii_word [simp]: "ascii c = word_of_nat (of_char c)"
  by (simp add: ascii_def unit_of_def)

lemma text_of_simps [simp]: "text_of [] = []" "text_of (c # cs) = ascii c # text_of cs"
  by (simp_all add: text_of_def)

lemma digit_range: "is_digit u \<longleftrightarrow> 48 \<le> u \<and> u \<le> 57"
  by (simp add: is_digit_def word_le_nat_alt)

lemma unit_cases: "(unat (u :: 16 word) = n) = (n < 65536 \<and> u = word_of_nat n)"
  using unat_unit_less [of u] by (auto simp: unat_of_nat)

lemma space_iff: "is_space u \<longleftrightarrow> 9 \<le> unat u \<and> unat u \<le> 13 \<or> u \<in> {32, 160, 5760, 8232, 8233, 8239, 8287, 12288, 65279} \<or>
    8192 \<le> unat u \<and> unat u \<le> 8202"
  by (auto simp: is_space_def unit_cases Let_def)

lemma digit_not:
  assumes "is_digit u"
  shows "\<not> is_space u" "u \<notin> {34, 39, 40, 41, 43, 44, 45, 46, 58, 59, 91, 92, 93, 95, 123, 125}" "lower_unit u = u"
    "u \<notin> {98, 115, 105, 108, 102, 100, 117, 120, 88, 66}"
  using assms by (auto simp: digit_range space_iff lower_unit_def word_le_nat_alt)

lemma digit_text_digit: "\<forall>d\<in>set ds. d < 10 \<Longrightarrow> u \<in> set (digit_text ds) \<Longrightarrow> is_digit u"
  using digit_text_digits [of ds] by (auto simp: list_all_iff)

lemma digit_not_bare_end: "is_digit u \<Longrightarrow> \<not> bare_end u"
  using digit_not [of u] by (auto simp: bare_end_def)

lemma literal_not_bare_end [simp]: "\<not> bare_end 45" "\<not> bare_end 43" "\<not> bare_end 46" "\<not> bare_end 101" "\<not> bare_end 98"
    "\<not> bare_end 115" "\<not> bare_end 76" "\<not> bare_end 102" "\<not> bare_end 100"
  by (simp_all add: bare_end_def is_space_def)

lemma literal_bare_end [simp]: "bare_end 44" "bare_end 93" "bare_end 125" "bare_end 10" "bare_end 32"
  by (simp_all add: bare_end_def is_space_def)

lemma literal_space [simp]: "is_space 10" "is_space 32" "\<not> is_space 34" "\<not> is_space 44" "\<not> is_space 45" "\<not> is_space 58"
    "\<not> is_space 59" "\<not> is_space 91" "\<not> is_space 93" "\<not> is_space 123" "\<not> is_space 125"
  by (simp_all add: is_space_def)

section \<open>White space and tokens\<close>

definition spaces :: "code_units \<Rightarrow> bool" where
  "spaces us = list_all is_space us"

lemma spaces_simps [simp]: "spaces []" "spaces (replicate n 32)" "spaces (u # us) \<longleftrightarrow> is_space u \<and> spaces us"
    "spaces (us @ vs) \<longleftrightarrow> spaces us \<and> spaces vs"
  by (auto simp: spaces_def list_all_iff)

lemma skip_ws_spaces [simp]: "spaces ws \<Longrightarrow> skip_ws (ws @ us) = skip_ws us"
  by (induction ws) (auto simp: skip_ws_def)

lemma skip_ws_idem [simp]: "skip_ws (skip_ws us) = skip_ws us"
  by (simp add: skip_ws_def dropWhile_idem)

lemma skip_ws_Cons [simp]: "is_space u \<Longrightarrow> skip_ws (u # us) = skip_ws us" "\<not> is_space u \<Longrightarrow> skip_ws (u # us) = u # us"
    "skip_ws [] = []"
  by (simp_all add: skip_ws_def)

lemma skip_ws_start: "us \<noteq> [] \<Longrightarrow> \<not> is_space (hd us) \<Longrightarrow> skip_ws (us @ k) = us @ k"
  by (cases us) simp_all

lemma skip_ws_shorter: "length (skip_ws us) \<le> length us"
  unfolding skip_ws_def by (rule length_dropWhile_le)

lemma starts_simps [simp]: "starts c (u # us) \<longleftrightarrow> u = ascii c" "\<not> starts c []"
  by (simp_all add: starts_def)

text \<open>What may follow a value: something that ends a bare token.\<close>

definition closed :: "code_units \<Rightarrow> bool" where
  "closed k = (k \<noteq> [] \<and> bare_end (hd k))"

lemma closed_Cons [simp]: "closed (u # k) = bare_end u"
  by (simp add: closed_def)

lemma bare_end_space: "is_space u \<Longrightarrow> bare_end u"
  by (simp add: bare_end_def)

lemma closed_spaces: "spaces ws \<Longrightarrow> closed k \<Longrightarrow> closed (ws @ k)"
  by (cases ws) (auto simp: bare_end_space)

lemma bare_token_text:
  assumes "\<forall>u\<in>set us. \<not> bare_end u" and "closed k"
  shows "bare_token (us @ k) = (us, k)"
  using assms by (cases k) (auto simp: bare_token_def closed_def takeWhile_append dropWhile_append)

section \<open>Integers\<close>

lemma nat_text_digits:
  "list_all is_digit (nat_text n)" "nat_text n \<noteq> []" "dec_value (digits_of (nat_text n)) = n"
  "1 < length (nat_text n) \<Longrightarrow> hd (nat_text n) \<noteq> 48"
proof -
  note dd = dec_digits_spec [of n]
  show "list_all is_digit (nat_text n)" "nat_text n \<noteq> []" "dec_value (digits_of (nat_text n)) = n"
    using dd digit_text_digits [of "dec_digits n"] by (simp_all add: nat_text_def)
  show "hd (nat_text n) \<noteq> 48" if "1 < length (nat_text n)"
  proof -
    have "0 < n" using that by (cases n) (simp_all add: nat_text_def dec_digits.simps)
    moreover obtain d ds where "dec_digits n = d # ds" using dd by (cases "dec_digits n") auto
    ultimately have "d \<noteq> 0" "d < 10" "nat_text n = digit_unit d # digit_text ds" using dd by (auto simp: nat_text_def digit_text_def)
    moreover have "unat (digit_unit d) = 48 + d" using \<open>d < 10\<close> by (simp add: digit_unit_def)
    moreover have "unat (48 :: 16 word) = 48" by simp
    ultimately show ?thesis by (metis add_cancel_left_right list.sel(1))
  qed
qed


lemma digits_decimal: "list_all is_digit us \<Longrightarrow> leading_sign us = (False, us) \<and> unsigned_token us = us \<and> token_radix us = Decimal"
  by (cases us rule: list.exhaust; cases "tl us")
    (auto simp: leading_sign_def unsigned_token_def token_radix_def dest: digit_not)

lemma read_natural_text: "read_natural (nat_text n) = Some n"
  using nat_text_digits [of n] digits_decimal by (simp add: read_natural_def)

lemma bad_separator_none: "95 \<notin> set us \<Longrightarrow> bad_separator digit after us = None"
  by (induction us arbitrary: after) auto

lemma split_suffix_digit:
  assumes "is_digit d"
  shows "split_suffix r (us @ [d]) = (us @ [d], None, None)"
    and "lower_unit s \<in> set (suffix_letters r False) \<Longrightarrow>
      split_suffix r (us @ [d, s]) = (us @ [d], None, Some (lower_unit s))"
  using digit_not [OF assms] by (auto simp: split_suffix_def suffix_letters_def split: radix.splits)

definition signed_text :: "bool \<Rightarrow> code_units \<Rightarrow> code_units" where
  "signed_text negative us = (if negative then [45] else []) @ us"

lemma int_text_signed: "int_text v = signed_text (v < 0) (nat_text (nat \<bar>v\<bar>))"
  by (simp add: int_text_def signed_text_def)

lemma leading_sign_signed:
  assumes "us \<noteq> []" "is_digit (hd us)"
  shows "leading_sign (signed_text negative us @ k) = (negative, us @ k)"
    "unsigned_token (signed_text negative us @ k) = us @ k"
  using assms digit_not(2) [OF assms(2)] by (cases us; auto simp: signed_text_def leading_sign_def unsigned_token_def)+

lemma token_radix_signed:
  assumes "us \<noteq> []" "is_digit (hd us)"
  shows "token_radix (signed_text negative us @ k) = token_radix (us @ k)"
  using leading_sign_signed(2) [OF assms, of negative k] leading_sign_signed(2) [OF assms, of False k]
  by (simp add: token_radix_def signed_text_def)

lemma nat_text_radix:
  assumes "k = [] \<or> hd k \<notin> {120, 88}"
  shows "token_radix (nat_text n @ k) \<in> {Decimal, Binary}" and "k = [] \<or> hd k \<notin> {98, 66} \<Longrightarrow> token_radix (nat_text n @ k) = Decimal"
proof -
  note d = nat_text_digits [of n]
  obtain u us where us: "nat_text n = u # us" using d(2) by (cases "nat_text n") auto
  then have t: "unsigned_token (nat_text n @ k) = u # us @ k"
    using leading_sign_signed(2) [of "nat_text n" False k] d(1) by (simp add: signed_text_def)
  have "us \<noteq> [] \<Longrightarrow> u \<noteq> 48" using d(4) us by (cases us) auto
  with t assms show "token_radix (nat_text n @ k) \<in> {Decimal, Binary}"
    by (cases us; cases k) (auto simp: token_radix_def)
  assume "k = [] \<or> hd k \<notin> {98, 66}"
  with t assms \<open>us \<noteq> [] \<Longrightarrow> u \<noteq> 48\<close> show "token_radix (nat_text n @ k) = Decimal"
    by (cases us; cases k) (auto simp: token_radix_def)
qed

fun type_suffix :: "integer_type \<Rightarrow> code_units" where
  "type_suffix IByte = [98]"
| "type_suffix IShort = [115]"
| "type_suffix IInt = []"
| "type_suffix ILong = [76]"

lemma digits_no_separator: "list_all is_digit us \<Longrightarrow> 95 \<notin> set us"
  using digit_not(2) by (fastforce simp: list_all_iff)

lemma digits_pointless: "list_all is_digit us \<Longrightarrow> \<not> has_point us"
  by (auto simp: has_point_def list_all_iff)

lemma has_point_append: "has_point (us @ vs) \<longleftrightarrow> has_point us \<or> has_point vs" "has_point [45] = False" "has_point [] = False"
  by (auto simp: has_point_def)

lemma parse_numeric_int:
  assumes "in_range (type_bytes type) v"
  shows "parse_numeric from (int_text v @ type_suffix type) = Inr (Some (integer_tag type v))"
proof -
  let ?ds = "nat_text (nat \<bar>v\<bar>)" and ?suffix = "type_suffix type"
  note d = nat_text_digits [of "nat \<bar>v\<bar>"]
  have hd: "is_digit (hd ?ds)" using d by (cases ?ds) simp_all
  define r where "r = token_radix (int_text v @ ?suffix)"
  have r: "r = token_radix (?ds @ ?suffix)"
    unfolding r_def int_text_signed by (rule token_radix_signed [OF d(2) hd])
  have "?suffix = [] \<or> hd ?suffix \<notin> {120, 88}" by (cases type) auto
  from nat_text_radix [OF this, of "nat \<bar>v\<bar>"] have cases: "r = Decimal \<or> r = Binary \<and> type = IByte"
    unfolding r by (cases type) auto
  obtain us e where ue: "int_text v = us @ [e]" "is_digit e"
  proof -
    have "is_digit (last ?ds)" using d by (auto simp: list_all_iff)
    moreover have "int_text v = ((if v < 0 then [45] else []) @ butlast ?ds) @ [last ?ds]"
      using d(2) by (simp add: int_text_signed signed_text_def append_butlast_last_id [OF d(2)])
    ultimately show ?thesis using that by blast
  qed
  have split: "split_suffix r (int_text v @ ?suffix) =
      (int_text v, None, if type = IInt then None else Some (lower_unit (hd ?suffix)))"
  proof (cases "type = IInt")
    case True
    then show ?thesis using split_suffix_digit(1) [OF ue(2)] by (simp add: ue(1))
  next
    case False
    then obtain s where s: "?suffix = [s]" "lower_unit s \<in> {98, 115, 108}" by (cases type) (auto simp: lower_unit_def)
    then have "lower_unit s \<in> set (suffix_letters r False)" using cases by (auto simp: suffix_letters_def)
    from split_suffix_digit(2) [OF ue(2) this] show ?thesis using False by (simp add: ue(1) s(1))
  qed
  have sep: "95 \<notin> set (int_text v)" using digits_no_separator [OF d(1)] by (auto simp: int_text_def)
  then have "bad_separator q False (int_text v) = None" for q by (rule bad_separator_none)
  moreover have "filter (\<lambda>u. u \<noteq> ascii CHR ''_'') (int_text v) = int_text v" using sep by (auto simp: filter_id_conv)
  moreover have "\<not> has_point (int_text v)" using digits_pointless [OF d(1)] by (simp add: int_text_def has_point_append)
  moreover have "leading_sign (int_text v) = (v < 0, ?ds)"
    using leading_sign_signed(1) [OF d(2) hd, of "v < 0" "[]"] by (simp add: int_text_signed)
  moreover have "\<not> (1 < length ?ds \<and> hd ?ds = 48)" using d(4) by blast
  moreover have "suffix_type (if type = IInt then None else Some (lower_unit (hd ?suffix))) = type"
    by (cases type) (simp_all add: suffix_type_def lower_unit_def)
  moreover have "(if type = IInt then None else Some (lower_unit (hd ?suffix))) \<notin> {Some (ascii CHR ''f''), Some (ascii CHR ''d'')}"
    by (cases type) (simp_all add: lower_unit_def)
  moreover have "(if v < 0 then - int (nat \<bar>v\<bar>) else int (nat \<bar>v\<bar>)) = v" by simp
  ultimately show ?thesis
    using assms unfolding parse_numeric_def r_def [symmetric] Let_def split prod.case
    by (simp only: option.case if_False simp_thms parse_integer_def prod.case read_natural_text Let_def) simp
qed

section \<open>Decimals\<close>

lemma decimal_form_text:
  assumes "written_form w us"
  shows "us \<noteq> []" "is_digit (hd us)" "is_digit (last us)" "\<forall>u\<in>set us. is_digit u \<or> u \<in> {43, 45, 46, 101}"
    "has_point us" "token_radix (us @ k) = Decimal"
    "read_decimal (signed_text negative us) = Some (negative, w)"
proof -
  from assms obtain whole fraction exponent e where f: "us = decimal_form whole fraction exponent" "whole \<noteq> []"
      "\<forall>d\<in>set whole. d < 10" "\<forall>d\<in>set fraction. d < 10" "fraction = [] \<longrightarrow> exponent \<noteq> []"
      "hd whole = 0 \<longrightarrow> whole = [0] \<and> fraction \<noteq> []"
      "exponent = [] \<or> (\<exists>n sign. sign \<in> {43, 45} \<and> exponent = 101 # sign # nat_text n)"
      "decimal_exponent exponent = Some e"
      "nearest_decimal (dec_value (whole @ fraction)) (e - int (length fraction)) = w"
    unfolding written_form_def by (elim exE conjE) (rule that)
  have us: "us = digit_text whole @ (if fraction = [] then [] else 46 # digit_text fraction) @ exponent"
    by (simp add: f(1) decimal_form_def)
  have ex: "list_all (\<lambda>u. is_digit u \<or> u \<in> {43, 45, 101}) exponent" "exponent \<noteq> [] \<Longrightarrow> is_digit (last exponent)"
    using f(7) nat_text_digits(1,2) by (auto simp: list_all_iff) (metis last_in_set)+
  obtain d whole' where w: "whole = d # whole'" using f(2) by (cases whole) auto
  then have d: "d < 10" "digit_text whole = digit_unit d # digit_text whole'" using f(3) by (simp_all add: digit_text_def)
  show "us \<noteq> []" "is_digit (hd us)" using d by (simp_all add: us)
  show "is_digit (last us)"
  proof (cases "exponent = []")
    case True
    then have "digit_text fraction \<noteq> []" "last us = last (digit_text fraction)" using f(5) by (simp_all add: us)
    then show ?thesis using digit_text_digit [OF f(4)] by simp
  next
    case False
    with ex(2) show ?thesis by (simp add: us)
  qed
  show "\<forall>u\<in>set us. is_digit u \<or> u \<in> {43, 45, 46, 101}"
  proof
    fix u assume "u \<in> set us"
    then consider "u \<in> set (digit_text whole)" | "u = 46" | "u \<in> set (digit_text fraction)" | "u \<in> set exponent"
      by (cases "fraction = []") (auto simp: us)
    then show "is_digit u \<or> u \<in> {43, 45, 46, 101}"
      using digit_text_digit [OF f(3)] digit_text_digit [OF f(4)] ex(1) by cases (auto simp: list_all_iff)
  qed
  have "has_point (46 # vs)" "has_point (101 # vs)" for vs by (simp_all add: has_point_def)
  then show "has_point us" using f(5,7) by (cases "fraction = []") (auto simp: us has_point_append)
  have "digit_unit d = 48 \<Longrightarrow> d = 0"
  proof -
    assume "digit_unit d = 48"
    moreover have "unat (48 :: 16 word) = 48" by simp
    moreover have "unat (digit_unit d) = 48 + d" using d(1) by (simp add: digit_unit_def)
    ultimately show "d = 0" by simp
  qed
  moreover have "unsigned_token (us @ k) = us @ k"
    using leading_sign_signed(2) [OF \<open>us \<noteq> []\<close> \<open>is_digit (hd us)\<close>, of False k] by (simp add: signed_text_def)
  moreover define rest where "rest = digit_text whole' @ (if fraction = [] then [] else 46 # digit_text fraction) @ exponent @ k"
  then have "us @ k = digit_unit d # rest" by (simp add: us d(2))
  moreover have "d = 0 \<Longrightarrow> \<exists>r. rest = 46 # r" using f(6) w by (simp add: rest_def digit_text_def)
  ultimately show "token_radix (us @ k) = Decimal" by (auto simp: token_radix_def split: list.split)
  have "exponent = [] \<or> hd exponent = 101" using f(7) by auto
  from read_decimal_form [OF f(3,4,2) this f(8)]
  show "read_decimal (signed_text negative us) = Some (negative, w)" by (simp add: signed_text_def f(1,9))
qed

lemma double_of_parts:
  assumes "double_magnitude v \<noteq> 0"
  shows "double_of (\<not> unat v < 2 ^ 63) (double_magnitude v) = v"
proof -
  have "unat v < 2 ^ 64" using unsigned_less [of v] by simp
  then have "(if \<not> unat v < 2 ^ 63 then 2 ^ 63 else 0) + unat v mod 2 ^ 63 = unat v"
    by (cases "unat v < 2 ^ 63") (simp_all add: mod_if, linarith)
  then show ?thesis by (simp add: double_of_def double_magnitude_def)
qed

text \<open>A decimal's text says no sign of zero.\<close>

definition unsigned_zero :: "double_bits \<Rightarrow> double_bits" where
  "unsigned_zero v = (if double_magnitude v = 0 then 0 else v)"

lemma format_decimal_form:
  assumes "finite_double v"
  obtains us negative where "format_decimal v = Some (signed_text negative us)" "written_form (double_magnitude v) us"
    "double_of negative (double_magnitude v) = unsigned_zero v"
proof -
  from number_text_form [OF assms] obtain us where us: "with_point (number_text v) =
      signed_text (double_magnitude v \<noteq> 0 \<and> \<not> unat v < 2 ^ 63) us" "written_form (double_magnitude v) us"
    by (auto simp: signed_text_def)
  moreover have "double_of (double_magnitude v \<noteq> 0 \<and> \<not> unat v < 2 ^ 63) (double_magnitude v) = unsigned_zero v"
    using double_of_parts [of v] by (auto simp: unsigned_zero_def double_of_def)
  ultimately show ?thesis using assms that by (simp add: format_decimal_def)
qed

lemma parse_numeric_decimal:
  assumes "written_form w us" "w < 2047 * 2 ^ 52" "s \<in> {102, 100}"
  shows "parse_numeric from (signed_text negative us @ [s]) =
    Inr (Some ((if s = 102 then TFloat else TDouble) (double_of negative w)))"
proof -
  note f = decimal_form_text [OF assms(1)]
  have r: "token_radix (signed_text negative us @ [s]) = Decimal"
    using token_radix_signed [OF f(1,2)] f(6) by simp
  have s: "lower_unit s = s" "s \<in> set (suffix_letters Decimal False)" using assms(3) by (auto simp: lower_unit_def suffix_letters_def)
  have "signed_text negative us @ [s] = ((if negative then [45] else []) @ butlast us) @ [last us, s]"
    using f(1) by (simp add: signed_text_def)
  moreover have "((if negative then [45] else []) @ butlast us) @ [last us] = signed_text negative us"
    using f(1) by (simp add: signed_text_def)
  ultimately have split: "split_suffix Decimal (signed_text negative us @ [s]) = (signed_text negative us, None, Some s)"
    using split_suffix_digit(2) [OF f(3), where s = s and r = Decimal and us = "(if negative then [45] else []) @ butlast us"] s by metis
  have sep: "95 \<notin> set (signed_text negative us)" using f(4) digit_not(2) by (fastforce simp: signed_text_def)
  then have "bad_separator q False (signed_text negative us) = None" for q by (rule bad_separator_none)
  moreover have "filter (\<lambda>u. u \<noteq> ascii CHR ''_'') (signed_text negative us) = signed_text negative us"
    using sep by (auto simp: filter_id_conv)
  moreover have "Some s \<in> {Some (ascii CHR ''f''), Some (ascii CHR ''d'')}" using assms(3) by auto
  moreover have "parse_float from (signed_text negative us) (Some s) =
      Inr (Some ((if s = 102 then TFloat else TDouble) (double_of negative w)))"
    using assms(2,3) unfolding parse_float_def f(7) by auto
  ultimately show ?thesis
    unfolding parse_numeric_def r Let_def split prod.case by simp
qed

section \<open>Strings and keys\<close>

definition escape_unit :: "16 word \<Rightarrow> code_units" where
  "escape_unit u =
     (if u = 92 then [92, 92] else if u = 34 then [92, 34] else if u = 8 then [92, 98] else if u = 12 then [92, 102]
      else if u = 10 then [92, 110] else if u = 13 then [92, 114] else if u = 9 then [92, 116] else [u])"

lemma replace_all_simps [simp]: "replace_all a r [] = []" "replace_all a r (v # us) = (if v = a then r else [v]) @ replace_all a r us"
    "replace_all a r (us @ vs) = replace_all a r us @ replace_all a r vs"
  by (simp_all add: replace_all_def)

lemma quote_string_units: "quote_string us = 34 # concat (map escape_unit us) @ [34]"
  unfolding quote_string_def comp_def by (induction us) (simp_all add: escape_unit_def)

lemma quoted_rest_escape: "quoted_rest binary 34 (escape_unit u @ us) = prepend [u] (quoted_rest binary 34 us)"
  by (auto simp: escape_unit_def simple_escape_def quoted_rest.simps(2))

lemma parse_quoted_text: "parse_quoted binary (quote_string us @ k) = Inr (us, k)"
proof -
  have "quoted_rest binary 34 (concat (map escape_unit us) @ 34 # k) = Inr (us, k)"
    by (induction us) (simp_all add: quoted_rest.simps(2) quoted_rest_escape prepend_def)
  then show ?thesis by (simp add: parse_quoted_def quote_string_units)
qed

lemma key_unit_not:
  assumes "key_unit u"
  shows "\<not> key_end u" "u \<noteq> 34" "u \<noteq> 39" "\<not> is_space u" "u \<noteq> 125"
  using assms digit_not [of u]
  by (auto simp: key_unit_def key_end_def space_iff is_letter_def)

section \<open>Items between commas\<close>

text \<open>A text that starts with neither white space nor the closing, and that its parser reads.\<close>

definition written :: "char \<Rightarrow> 'a snbt_parser \<Rightarrow> code_units \<Rightarrow> 'a \<Rightarrow> bool" where
  "written close item us x \<longleftrightarrow>
     us \<noteq> [] \<and> \<not> is_space (hd us) \<and> hd us \<noteq> ascii close \<and>
     (\<forall>k. closed k \<longrightarrow> (\<exists>k'. item (us @ k) = Inr (x, k') \<and> skip_ws k' = skip_ws k))"

lemma writtenE:
  assumes "written close item us x" and "closed k"
  obtains k' where "item (us @ k) = Inr (x, k')" "skip_ws k' = skip_ws k"
  using assms unfolding written_def by blast

lemma joined_Cons [simp]: "xs \<noteq> [] \<Longrightarrow> joined s (x # xs) = x @ s @ joined s xs" "joined s [x] = x"
  by simp_all

declare joined.simps(2) [simp del]

lemma written_start: "written close item us x \<Longrightarrow> skip_ws (us @ k) = us @ k \<and> \<not> starts close (us @ k)"
  by (cases us) (auto simp: written_def)

lemma joined_start: "joined s (x # xs) = x @ drop (length x) (joined s (x # xs))"
  by (cases xs) simp_all

lemma items_written:
  assumes "list_all2 (written close item) texts xs" and "texts \<noteq> []" and "length texts \<le> n"
    and "spaces ws" "spaces ws'" and close: "\<not> is_space (ascii close)" "bare_end (ascii close)" "ascii close \<noteq> 44"
  shows "items n close m item (joined (44 # ws) texts @ ws' @ ascii close # rest) = Inr (xs, rest)"
  using assms(1-3)
proof (induction texts arbitrary: xs n)
  case (Cons us texts)
  then obtain x xs' n' where x: "xs = x # xs'" "written close item us x" "list_all2 (written close item) texts xs'"
      "n = Suc n'" "length texts \<le> n'"
    by (cases n) (auto simp: list_all2_Cons1)
  show ?case
  proof (cases "texts = []")
    case True
    have "closed (ws' @ ascii close # rest)" using assms(5) close by (intro closed_spaces) simp_all
    from writtenE [OF x(2) this] obtain k' where "item (us @ ws' @ ascii close # rest) = Inr (x, k')"
        "skip_ws k' = ascii close # rest"
      using assms(5) close by auto
    with True x(1,3,4) show ?thesis by simp
  next
    case False
    let ?k = "44 # ws @ joined (44 # ws) texts @ ws' @ ascii close # rest"
    have "closed ?k" by simp
    from writtenE [OF x(2) this] obtain k' where k': "item (us @ ?k) = Inr (x, k')" "skip_ws k' = ?k" by auto
    obtain us' texts' x' xs'' where t: "texts = us' # texts'" "xs' = x' # xs''" "written close item us' x'"
      using False x(3) by (cases texts) (auto simp: list_all2_Cons1)
    let ?next = "joined (44 # ws) texts @ ws' @ ascii close # rest"
    have "?next = us' @ drop (length us') (joined (44 # ws) texts) @ ws' @ ascii close # rest"
      unfolding t(1) by (subst joined_start) simp
    with written_start [OF t(3)] have "skip_ws ?next = ?next" "\<not> starts close ?next" by metis+
    moreover have "items n' close m item ?next = Inr (xs', rest)" using Cons.IH x(3,5) False by blast
    ultimately show ?thesis
      using k' close False assms(4) by (simp add: x(1,4) expect_def)
  qed
qed simp

lemma format_collection_form:
  assumes "texts \<noteq> []"
  obtains ws ws' ws'' where "spaces ws" "spaces ws'" "spaces ws''"
    "format_collection opening closing texts depth indent =
      ascii opening # ws @ joined (44 # ws') texts @ ws'' @ [ascii closing]"
proof (cases "indent = 0")
  case True
  with assms show ?thesis by (intro that [of "[]" "[32]" "[]"]) (simp_all add: format_collection_def)
next
  case False
  with assms show ?thesis
    by (intro that [of "10 # replicate ((depth + 1) * indent) 32" "10 # replicate ((depth + 1) * indent) 32"
          "10 # replicate (depth * indent) 32"])
      (simp_all add: format_collection_def Let_def)
qed

lemma joined_length: "list_all (\<lambda>us. us \<noteq> []) texts \<Longrightarrow> length texts \<le> length (joined s texts)"
proof (induction texts)
  case (Cons us texts)
  then show ?case by (cases us; cases "texts = []") (auto simp: joined.simps)
qed simp

lemma written_texts:
  fixes rest :: code_units
  assumes "list_all2 (written close item) texts xs" and "texts \<noteq> []" and "spaces ws" "spaces ws'" "spaces ws''"
    and close: "\<not> is_space (ascii close)" "bare_end (ascii close)" "ascii close \<noteq> 44"
  defines "us \<equiv> joined (44 # ws') texts @ ws'' @ ascii close # rest"
  shows "skip_ws (ws @ us) = us" "\<not> starts close us" "items (Suc (length us)) close m item us = Inr (xs, rest)"
proof -
  obtain t texts' x xs' where t: "texts = t # texts'" "xs = x # xs'" "written close item t x"
    using assms(1,2) by (cases texts) (auto simp: list_all2_Cons1)
  have "us = t @ drop (length t) (joined (44 # ws') texts) @ ws'' @ ascii close # rest"
    unfolding us_def t(1) by (subst joined_start) simp
  with written_start [OF t(3)] assms(3) show "skip_ws (ws @ us) = us" "\<not> starts close us" by (metis skip_ws_spaces)+
  have "list_all (\<lambda>us. us \<noteq> []) texts"
    using assms(1) by (auto simp: list_all_iff list_all2_conv_all_nth in_set_conv_nth written_def)
  then have "length texts \<le> length us" using joined_length [of texts "44 # ws'"] by (simp add: us_def)
  then show "items (Suc (length us)) close m item us = Inr (xs, rest)"
    unfolding us_def using assms(1-8) by (intro items_written) auto
qed

section \<open>What each tag is read as\<close>

declare parse_tag.simps [simp del]

text \<open>
  Zero has no sign, and a list has the type of its elements; mixed lists are of compounds where
  the tag is to be written as binary.
\<close>

fun as_parsed :: "bool \<Rightarrow> nbt_tag \<Rightarrow> nbt_tag" where
  "as_parsed binary (TFloat v) = TFloat (unsigned_zero v)"
| "as_parsed binary (TDouble v) = TDouble (unsigned_zero v)"
| "as_parsed binary (TList element vs) = list_tag binary (map (as_parsed binary) vs)"
| "as_parsed binary (TCompound es) = TCompound (map (\<lambda>e. (fst e, as_parsed binary (snd e))) es)"
| "as_parsed binary t = t"

text \<open>
  A tag of at most so many levels whose numbers are in range and whose compounds have names: what
  \<open>NbtTag\<close>'s numbers are meant to be, and what the parser can read.
\<close>

fun textual :: "nat \<Rightarrow> nbt_tag \<Rightarrow> bool" where
  "textual 0 t = False"
| "textual (Suc n) (TByte v) = in_range 1 v"
| "textual (Suc n) (TShort v) = in_range 2 v"
| "textual (Suc n) (TInt v) = in_range 4 v"
| "textual (Suc n) (TLong v) = in_range 8 v"
| "textual (Suc n) (TFloat v) = finite_double v"
| "textual (Suc n) (TDouble v) = finite_double v"
| "textual (Suc n) (TByteArray vs) = list_all (in_range 1) vs"
| "textual (Suc n) (TString s) = True"
| "textual (Suc n) (TList element vs) = list_all (textual n) vs"
| "textual (Suc n) (TCompound es) = list_all (\<lambda>e. fst e \<noteq> [] \<and> textual n (snd e)) es"
| "textual (Suc n) (TIntArray vs) = list_all (in_range 4) vs"
| "textual (Suc n) (TLongArray vs) = list_all (in_range 8) vs"

definition numeral_text :: "code_units \<Rightarrow> bool" where
  "numeral_text us \<longleftrightarrow> us \<noteq> [] \<and> (is_digit (hd us) \<or> hd us = 45) \<and> (\<forall>u\<in>set us. \<not> bare_end u)"

lemma numeral_text_start:
  "numeral_text us \<Longrightarrow> \<not> is_space (hd us) \<and> hd us \<notin> {34, 39, 91, 93, 123, 125, 98, 117, 116, 102}"
  unfolding numeral_text_def using digit_not [of "hd us"] by (auto simp: is_digit_def)

lemma int_numeral:
  "numeral_text (int_text v @ type_suffix type)"
proof -
  note d = nat_text_digits [of "nat \<bar>v\<bar>"]
  have "u \<in> set (nat_text (nat \<bar>v\<bar>)) \<Longrightarrow> \<not> bare_end u" for u
    using d(1) digit_not_bare_end by (auto simp: list_all_iff)
  moreover have "\<not> bare_end u" if "u \<in> set (type_suffix type)" for u using that by (cases type) auto
  ultimately show ?thesis using d by (auto simp: numeral_text_def int_text_def list_all_iff)
qed

lemma decimal_numeral:
  assumes "written_form w us" "s \<in> {102, 100}"
  shows "numeral_text (signed_text negative us @ [s])"
proof -
  note f = decimal_form_text [OF assms(1)]
  have "u \<in> set us \<Longrightarrow> \<not> bare_end u" for u using f(4) digit_not_bare_end by auto
  then show ?thesis using f(1,2) assms(2) by (auto simp: numeral_text_def signed_text_def)
qed

lemma parse_bare_numeral:
  assumes "numeral_text us" "closed k" "\<And>from. parse_numeric from us = Inr (Some t)"
  shows "parse_bare tag (us @ k) = Inr (t, skip_ws k)"
proof -
  have "bare_token (us @ k) = (us, k)" using assms(1,2) by (intro bare_token_text) (simp_all add: numeral_text_def)
  moreover have "us \<noteq> []" using assms(1) by (simp add: numeral_text_def)
  moreover from this have "us \<notin> {text_of ''bool'', text_of ''uuid'', text_of ''true'', text_of ''false''}"
    using numeral_text_start [OF assms(1)] by auto
  ultimately show ?thesis using assms(3) by (simp add: parse_bare_def Let_def)
qed

lemma written_numeral:
  assumes "numeral_text us" "\<And>from. parse_numeric from us = Inr (Some t)"
  shows "written CHR '']'' (parse_tag binary (Suc n)) us t"
proof -
  note s = numeral_text_start [OF assms(1)]
  have ne: "us \<noteq> []" using assms(1) by (simp add: numeral_text_def)
  have "parse_tag binary (Suc n) (us @ k) = Inr (t, skip_ws k)" if "closed k" for k
    using s ne parse_bare_numeral [OF assms(1) that assms(2)]
    by (cases us) (auto simp: parse_tag.simps is_quote_def skip_ws_start)
  with s ne show ?thesis by (auto simp: written_def)
qed

lemma written_int:
  "in_range (type_bytes type) v \<Longrightarrow> written CHR '']'' (parse_tag binary (Suc n)) (int_text v @ type_suffix type) (integer_tag type v)"
  by (intro written_numeral int_numeral parse_numeric_int)

lemma written_decimal:
  assumes "finite_double v"
  shows "\<exists>us. format_decimal v = Some us \<and>
    written CHR '']'' (parse_tag binary (Suc n)) (us @ [102]) (TFloat (unsigned_zero v)) \<and>
    written CHR '']'' (parse_tag binary (Suc n)) (us @ [100]) (TDouble (unsigned_zero v))"
proof -
  from format_decimal_form [OF assms] obtain us negative where
    us: "format_decimal v = Some (signed_text negative us)" "written_form (double_magnitude v) us"
      "double_of negative (double_magnitude v) = unsigned_zero v" .
  have "double_magnitude v < 2047 * 2 ^ 52" using assms by (simp add: finite_double_def)
  note n = parse_numeric_decimal [OF us(2) this]
  show ?thesis
    using written_numeral [OF decimal_numeral [OF us(2), of 102 negative], of "TFloat (unsigned_zero v)"] n [of 102 _ negative]
      written_numeral [OF decimal_numeral [OF us(2), of 100 negative], of "TDouble (unsigned_zero v)"] n [of 100 _ negative]
    by (auto simp: us(1,3))
qed

lemma written_quoted: "written CHR '']'' (parse_tag binary (Suc n)) (quote_string s) (TString s)"
proof -
  have "parse_tag binary (Suc n) (quote_string s @ k) = Inr (TString s, k)" for k
    using parse_quoted_text [of binary s k] by (simp add: parse_tag.simps quote_string_units is_quote_def)
  then show ?thesis by (auto simp: written_def quote_string_units)
qed

text \<open>The values of arrays.\<close>

lemma written_array_value:
  assumes "in_range (type_bytes type) v"
  shows "written CHR '']'' (parse_array_value type) (int_text v @ type_suffix type) v"
proof -
  obtain us where us: "us = int_text v @ type_suffix type" by simp
  have n: "numeral_text us" unfolding us by (rule int_numeral)
  note s = numeral_text_start [OF n]
  have ne: "us \<noteq> []" using n by (simp add: numeral_text_def)
  have "parse_array_value type (us @ k) = Inr (v, k)" if "closed k" for k
  proof -
    have "bare_token (us @ k) = (us, k)" using n that by (intro bare_token_text) (simp_all add: numeral_text_def)
    moreover have "skip_ws (us @ k) = us @ k" using ne s by (intro skip_ws_start) simp_all
    moreover have "integer_of (integer_tag type v) = Some v" by (cases type) simp_all
    ultimately show ?thesis
      using assms ne parse_numeric_int [OF assms] by (simp add: us [symmetric] parse_array_value_def coerce_array_integer_def)
  qed
  with ne s show ?thesis unfolding us [symmetric] by (auto simp: written_def)
qed

lemma written_array:
  assumes "list_all (in_range (type_bytes type)) vs" and "array_prefix [p] = Some type" "p \<in> {66, 73, 76}"
  shows "written CHR '']'' (parse_tag binary (Suc n))
    (91 # p # 59 # 32 # joined [44, 32] (map (\<lambda>v. int_text v @ type_suffix type) vs) @ [93]) (array_tag type vs)"
proof -
  let ?texts = "map (\<lambda>v. int_text v @ type_suffix type) vs"
  have p: "array_prefix (p # us) = Some type" "\<not> is_space p" for us using assms(2,3) by (auto simp: array_prefix_def is_space_def)
  have "parse_array type (32 # joined [44, 32] ?texts @ 93 # k) = Inr (array_tag type vs, k)" for k
  proof (cases "vs = []")
    case False
    have "list_all2 (written CHR '']'' (parse_array_value type)) ?texts vs"
      using assms(1) by (auto simp: list_all2_conv_all_nth list_all_length intro: written_array_value)
    from written_texts [OF this, where ws = "[32]" and ws' = "[32]" and ws'' = "[]" and rest = k] False
    show ?thesis by (simp add: parse_array_def Let_def)
  qed (simp add: parse_array_def)
  then have "parse_tag binary (Suc n) ((91 # p # 59 # 32 # joined [44, 32] ?texts @ [93]) @ k) = Inr (array_tag type vs, k)" for k
    using p by (simp add: parse_tag.simps parse_list_or_array_def Let_def)
  then show ?thesis by (auto simp: written_def)
qed

section \<open>A tag and its text\<close>

lemma parse_tag_skip: "parse_tag binary (Suc n) (32 # us) = parse_tag binary (Suc n) us"
  by (simp add: parse_tag.simps)

lemma written_entry:
  assumes "name \<noteq> []" and "written CHR '']'' (parse_tag binary (Suc n)) us t"
  shows "written CHR ''}'' (parse_entry binary (parse_tag binary (Suc n))) (format_key name @ [58, 32] @ us) (name, t)"
proof -
  let ?tag = "parse_tag binary (Suc n)"
  have "format_key name \<noteq> [] \<and> \<not> is_space (hd (format_key name)) \<and> hd (format_key name) \<noteq> 125"
    using assms(1) key_unit_not [of "hd name"] by (auto simp: format_key_def quote_string_units list_all_iff)
  then have start: "format_key name \<noteq> []" "\<not> is_space (hd (format_key name))" "hd (format_key name) \<noteq> 125" by auto
  have key: "(if is_quote (format_key name @ 58 # k) then parse_quoted binary (format_key name @ 58 # k)
      else Inr (parse_key (format_key name @ 58 # k))) = Inr (name, 58 # k)" for k
  proof (cases "list_all key_unit name")
    case True
    then have "\<forall>u\<in>set name. \<not> key_end u" "key_unit (hd name)" using assms(1) by (auto simp: list_all_iff key_unit_not)
    moreover have "key_end 58" by (simp add: key_end_def)
    ultimately have "parse_key (name @ 58 # k) = (name, 58 # k)" by (simp add: parse_key_def takeWhile_append dropWhile_append)
    moreover have "\<not> is_quote (name @ 58 # k)" using assms(1) key_unit_not [OF \<open>key_unit (hd name)\<close>] by (simp add: is_quote_def)
    ultimately show ?thesis using True assms(1) by (simp add: format_key_def)
  next
    case False
    then have "format_key name = quote_string name" by (simp add: format_key_def)
    moreover have "is_quote (quote_string name @ 58 # k)" by (simp add: quote_string_units is_quote_def)
    ultimately show ?thesis using parse_quoted_text [of binary name "58 # k"] by simp
  qed
  have "\<exists>k'. parse_entry binary ?tag ((format_key name @ [58, 32] @ us) @ k) = Inr ((name, t), k') \<and> skip_ws k' = skip_ws k"
    if "closed k" for k
  proof -
    from writtenE [OF assms(2) that] obtain k' where "?tag (us @ k) = Inr (t, k')" "skip_ws k' = skip_ws k" .
    moreover have "skip_ws (format_key name @ 58 # 32 # us @ k) = format_key name @ 58 # 32 # us @ k"
      using start by (intro skip_ws_start)
    ultimately show ?thesis
      using key [of "32 # us @ k"] assms(1) by (simp add: parse_entry_def expect_def parse_tag_skip)
  qed
  with start show ?thesis by (simp add: written_def)
qed

lemma array_prefix_append: "us \<noteq> [] \<Longrightarrow> array_prefix (us @ k) = array_prefix us"
  by (cases us) (simp_all add: array_prefix_def)

lemma written_values:
  assumes "list_all2 (written CHR '']'' (parse_tag binary n)) texts vs" and "\<forall>t\<in>set texts. array_prefix t = None"
  shows "written CHR '']'' (parse_tag binary (Suc n)) (format_collection CHR ''['' CHR '']'' texts depth indent) (list_tag binary vs)"
proof (cases "texts = []")
  case True
  with assms have "format_collection CHR ''['' CHR '']'' texts depth indent = [91, 93]" "vs = []"
    by (simp_all add: format_collection_def)
  then show ?thesis by (auto simp: parse_tag.simps written_def parse_list_or_array_def array_prefix_def list_tag_def list_element_type_def)
next
  case False
  from format_collection_form [OF this, of "CHR ''[''" "CHR '']''" depth indent] obtain ws ws' ws'' where
    ws: "spaces ws" "spaces ws'" "spaces ws''" and form: "format_collection CHR ''['' CHR '']'' texts depth indent =
      91 # ws @ joined (44 # ws') texts @ ws'' @ [93]" by auto
  have "parse_tag binary (Suc n) ((91 # ws @ joined (44 # ws') texts @ ws'' @ [93]) @ k) = Inr (list_tag binary vs, k)" for k
  proof -
    let ?us = "joined (44 # ws') texts @ ws'' @ 93 # k"
    note w = written_texts [OF assms(1) False ws, of k]
    have "array_prefix ?us = None"
    proof -
      obtain t texts' where t: "texts = t # texts'" using False by (cases texts) auto
      then have "t \<noteq> []" "array_prefix t = None" using assms by (auto simp: list_all2_Cons1 written_def)
      moreover have "?us = t @ drop (length t) (joined (44 # ws') texts) @ ws'' @ 93 # k"
        unfolding t by (subst joined_start) simp
      ultimately show ?thesis by (metis array_prefix_append)
    qed
    then show ?thesis using w by (simp add: parse_tag.simps parse_list_or_array_def Let_def)
  qed
  then show ?thesis by (auto simp: form written_def)
qed

lemma written_entries:
  assumes "list_all2 (written CHR ''}'' (parse_entry binary (parse_tag binary n))) texts es"
  shows "written CHR '']'' (parse_tag binary (Suc n)) (format_collection CHR ''{'' CHR ''}'' texts depth indent) (TCompound es)"
proof (cases "texts = []")
  case True
  with assms have "format_collection CHR ''{'' CHR ''}'' texts depth indent = [123, 125]" "es = []"
    by (simp_all add: format_collection_def)
  then show ?thesis by (auto simp: parse_tag.simps written_def parse_compound_def)
next
  case False
  from format_collection_form [OF this, of "CHR ''{''" "CHR ''}''" depth indent] obtain ws ws' ws'' where
    ws: "spaces ws" "spaces ws'" "spaces ws''" and form: "format_collection CHR ''{'' CHR ''}'' texts depth indent =
      123 # ws @ joined (44 # ws') texts @ ws'' @ [125]" by auto
  have "parse_tag binary (Suc n) ((123 # ws @ joined (44 # ws') texts @ ws'' @ [125]) @ k) = Inr (TCompound es, k)" for k
    using written_texts [OF assms False ws, of k] by (simp add: parse_tag.simps parse_compound_def Let_def)
  then show ?thesis by (auto simp: form written_def)
qed

lemma format_values_each:
  assumes "\<And>v. v \<in> set vs \<Longrightarrow> \<exists>us. format_tag v depth indent = Some us \<and> P us v"
  shows "\<exists>texts. format_values vs depth indent = Some texts \<and> list_all2 P texts vs"
  using assms
proof (induction vs)
  case (Cons v vs)
  then obtain us texts where "format_tag v depth indent = Some us" "P us v" "format_values vs depth indent = Some texts"
      "list_all2 P texts vs"
    by (metis list.set_intros)
  then show ?case by simp
qed simp

lemma format_entries_each:
  assumes "\<And>e. e \<in> set es \<Longrightarrow> \<exists>us. format_tag (snd e) depth indent = Some us \<and> P (format_key (fst e) @ [58, 32] @ us) e"
  shows "\<exists>texts. format_entries es depth indent = Some texts \<and> list_all2 P texts es"
  using assms
proof (induction es)
  case (Cons e es)
  then obtain us texts where "format_tag (snd e) depth indent = Some us" "P (format_key (fst e) @ [58, 32] @ us) e"
      "format_entries es depth indent = Some texts" "list_all2 P texts es"
    by (metis list.set_intros)
  then show ?case by simp
qed simp

lemma int_text_no_prefix: "array_prefix (int_text v @ us) = None"
proof -
  note d = nat_text_digits [of "nat \<bar>v\<bar>"]
  obtain u us' where u: "int_text v @ us = u # us'" using d(2) by (cases "int_text v @ us") (auto simp: int_text_def)
  then have "is_digit u \<or> u = 45" using d(1,2) by (cases "nat_text (nat \<bar>v\<bar>)") (auto simp: int_text_def split: if_splits)
  then show ?thesis unfolding u by (auto simp: array_prefix_def is_digit_def)
qed

lemma decimal_no_prefix: "finite_double v \<Longrightarrow> format_decimal v = Some us \<Longrightarrow> array_prefix (us @ k) = None"
proof -
  assume "finite_double v" "format_decimal v = Some us"
  with format_decimal_form [of v] decimal_form_text(1,2) obtain us' negative where
    "us = signed_text negative us'" "us' \<noteq> []" "is_digit (hd us')" by (metis option.inject)
  then obtain u rest where "us @ k = u # rest" "is_digit u \<or> u = 45" by (cases us'; cases negative) (auto simp: signed_text_def)
  then show ?thesis by (auto simp: array_prefix_def is_digit_def)
qed

lemma tag_written:
  "textual n t \<Longrightarrow> \<exists>us. format_tag t depth indent = Some us \<and>
    written CHR '']'' (parse_tag binary n) us (as_parsed binary t) \<and> array_prefix us = None"
proof (induction n arbitrary: t depth)
  case (Suc n)
  show ?case
  proof (cases t)
    case (TByte v)
    then show ?thesis using Suc.prems written_int [of IByte v binary n] int_text_no_prefix [of v] by simp
  next
    case (TShort v)
    then show ?thesis using Suc.prems written_int [of IShort v binary n] int_text_no_prefix [of v] by simp
  next
    case (TInt v)
    then show ?thesis using Suc.prems written_int [of IInt v binary n] int_text_no_prefix [of v "[]"] by simp
  next
    case (TLong v)
    then show ?thesis using Suc.prems written_int [of ILong v binary n] int_text_no_prefix [of v] by simp
  next
    case (TFloat v)
    then show ?thesis using Suc.prems written_decimal [of v binary n] decimal_no_prefix [of v] by auto
  next
    case (TDouble v)
    then show ?thesis using Suc.prems written_decimal [of v binary n] decimal_no_prefix [of v] by auto
  next
    case (TString s)
    then show ?thesis using written_quoted [of binary n s] by (simp add: quote_string_units array_prefix_def)
  next
    case (TByteArray vs)
    then show ?thesis using Suc.prems written_array [of IByte vs 66 binary n] by (simp add: array_prefix_def)
  next
    case (TIntArray vs)
    then show ?thesis using Suc.prems written_array [of IInt vs 73 binary n] by (simp add: array_prefix_def)
  next
    case (TLongArray vs)
    then show ?thesis using Suc.prems written_array [of ILong vs 76 binary n] by (simp add: array_prefix_def)
  next
    case (TList element vs)
    let ?P = "\<lambda>us v. written CHR '']'' (parse_tag binary n) us (as_parsed binary v) \<and> array_prefix us = None"
    have "\<exists>us. format_tag v (depth + 1) indent = Some us \<and> ?P us v" if "v \<in> set vs" for v
      using Suc.prems that TList by (intro Suc.IH) (simp add: list_all_iff)
    from format_values_each [of vs "depth + 1" indent ?P, OF this] obtain texts where
      t: "format_values vs (depth + 1) indent = Some texts" "list_all2 ?P texts vs" by blast
    then have "list_all2 (written CHR '']'' (parse_tag binary n)) texts (map (as_parsed binary) vs)"
        "\<forall>us\<in>set texts. array_prefix us = None"
      by (auto simp: list_all2_conv_all_nth in_set_conv_nth)
    from written_values [OF this, of depth indent] t(1) show ?thesis
      by (simp add: TList array_prefix_def format_collection_def Let_def)
  next
    case (TCompound es)
    let ?P = "\<lambda>us e. written CHR ''}'' (parse_entry binary (parse_tag binary n)) us (fst e, as_parsed binary (snd e))"
    have "\<exists>us. format_tag (snd e) (depth + 1) indent = Some us \<and> ?P (format_key (fst e) @ [58, 32] @ us) e" if "e \<in> set es" for e
    proof -
      have e: "fst e \<noteq> []" "textual n (snd e)" using Suc.prems that TCompound by (auto simp: list_all_iff)
      obtain n' where "n = Suc n'" using e(2) by (cases n) auto
      with Suc.IH [OF e(2), of "depth + 1"] written_entry [OF e(1)] show ?thesis by blast
    qed
    from format_entries_each [of es "depth + 1" indent ?P, OF this] obtain texts where
      t: "format_entries es (depth + 1) indent = Some texts" "list_all2 ?P texts es" by blast
    then have "list_all2 (written CHR ''}'' (parse_entry binary (parse_tag binary n))) texts
        (map (\<lambda>e. (fst e, as_parsed binary (snd e))) es)"
      by (simp add: list_all2_conv_all_nth)
    from written_entries [OF this, of depth indent] t(1) show ?thesis
      by (simp add: TCompound array_prefix_def format_collection_def Let_def)
  qed
qed simp

lemma format_parse:
  assumes "textual 513 t"
  shows "\<exists>us. format_snbt t indent = Some us \<and> parse_snbt us binary = Inr (as_parsed binary t)"
proof -
  from tag_written [OF assms, of 0 "nat indent" binary] obtain us where
    us: "format_tag t 0 (nat indent) = Some us" "written CHR '']'' (parse_tag binary 513) us (as_parsed binary t)" by blast
  from writtenE [OF us(2), of "[10]"] obtain k' where "parse_tag binary 513 (us @ [10]) = Inr (as_parsed binary t, k')"
      "skip_ws k' = []" by auto
  moreover have "us \<noteq> []" "skip_ws (us @ [10]) = us @ [10]" using us(2) by (auto simp: written_def intro: skip_ws_start)
  ultimately show ?thesis using us(1) by (simp add: format_snbt_def parse_snbt_def parse_root_def Let_def)
qed

end
