(* ===== verification/Snbt_Claims.thy ===== *)
theory Snbt_Claims
  imports Snbt_Codec
begin

text \<open>
  What the parser of SNBT makes of any text: it ends, an error names a place in the source, and
  a tag it returns is well formed. The properties of text and parser are stated here.
\<close>

section \<open>Well-formed tags\<close>

text \<open>
  Numbers in range, a list with the type of its elements, and compounds with names, except for
  the ones that wrap the elements of a mixed list for binary.
\<close>

fun well_formed :: "bool \<Rightarrow> nbt_tag \<Rightarrow> bool" where
  "well_formed binary (TByte v) = in_range 1 v"
| "well_formed binary (TShort v) = in_range 2 v"
| "well_formed binary (TInt v) = in_range 4 v"
| "well_formed binary (TLong v) = in_range 8 v"
| "well_formed binary (TFloat v) = finite_double v"
| "well_formed binary (TDouble v) = finite_double v"
| "well_formed binary (TByteArray vs) = list_all (in_range 1) vs"
| "well_formed binary (TString s) = True"
| "well_formed binary (TList element vs) =
     (list_all (well_formed binary) vs \<and>
      (case element of
         Elements type \<Rightarrow> type = list_element_type vs \<and> list_all (\<lambda>v. tag_type v = type) vs
       | Mixed \<Rightarrow> \<not> binary \<and> \<not> list_all (\<lambda>v. tag_type v = list_element_type vs) vs))"
| "well_formed binary (TCompound es) =
     (list_all (\<lambda>e. well_formed binary (snd e)) es \<and>
      (list_all (\<lambda>e. fst e \<noteq> []) es \<or> binary \<and> (\<exists>t. es = [([], t)] \<and> tag_type t \<noteq> NCompound)))"
| "well_formed binary (TIntArray vs) = list_all (in_range 4) vs"
| "well_formed binary (TLongArray vs) = list_all (in_range 8) vs"

lemma integer_tag_well_formed: "in_range (type_bytes type) v \<Longrightarrow> well_formed binary (integer_tag type v)"
  by (cases type) simp_all

lemma array_tag_well_formed: "type \<noteq> IShort \<Longrightarrow> list_all (in_range (type_bytes type)) vs \<Longrightarrow> well_formed binary (array_tag type vs)"
  by (cases type) simp_all

lemma wrapped_type: "tag_type (wrap_element t) = NCompound"
  by (simp add: wrap_element_def)

lemma list_tag_well_formed:
  assumes "list_all (well_formed binary) vs"
  shows "well_formed binary (list_tag binary vs)"
proof (cases "(\<forall>v\<in>set vs. tag_type v = list_element_type vs) \<or> \<not> binary")
  case True
  with assms show ?thesis by (auto simp: list_tag_def Let_def list_all_iff)
next
  case False
  then have "list_element_type (map wrap_element vs) = NCompound"
    by (cases vs) (auto simp: list_element_type_def wrapped_type)
  moreover have "well_formed binary (wrap_element v)" if "v \<in> set vs" for v
    using that assms False by (auto simp: list_all_iff wrap_element_def)
  ultimately show ?thesis using False by (auto simp: list_tag_def Let_def list_all_iff wrapped_type)
qed

lemma double_of_finite: "w < 2047 * 2 ^ 52 \<Longrightarrow> finite_double (double_of negative w)"
proof -
  assume w: "w < 2047 * 2 ^ 52"
  have "unat (double_of negative w) = ((if negative then 2 ^ 63 else 0) + w) mod 2 ^ 64"
    unfolding double_of_def by (simp only: unat_of_nat) simp
  with w have "unat (double_of negative w) mod 2 ^ 63 = w" by (cases negative) (simp_all add: mod_if)
  with w show ?thesis by (simp add: finite_double_def double_magnitude_def)
qed

lemma hex_value_less: "list_all is_hex_digit us \<Longrightarrow> hex_value us < 16 ^ length us"
proof (induction us rule: rev_induct)
  case (snoc u us)
  have "is_hex_digit u" using snoc(2) by simp
  then have "hex_digit_value u < 16" by (auto simp: is_hex_digit_def hex_digit_value_def is_digit_def)
  moreover have "hex_value (us @ [u]) = hex_value us * 16 + hex_digit_value u" by (simp add: hex_value_def)
  ultimately show ?case using snoc by simp
qed (simp add: hex_value_def)

section \<open>Parsers that end\<close>

text \<open>
  A parser that takes at least one code unit and gives what satisfies \<open>P\<close>, or fails at a place in
  what it was given; it never runs out of turns.
\<close>

definition fails_within :: "code_units \<Rightarrow> snbt_message \<times> nat \<Rightarrow> bool" where
  "fails_within us e \<longleftrightarrow> fst e \<noteq> OutOfTurns \<and> snd e \<le> length us"

definition sound :: "('a \<Rightarrow> bool) \<Rightarrow> 'a snbt_parser \<Rightarrow> bool" where
  "sound P item \<longleftrightarrow>
     (\<forall>us. case item us of Inr (x, k) \<Rightarrow> P x \<and> length k < length us | Inl e \<Rightarrow> fails_within us e)"

lemma soundI:
  assumes "\<And>us x k. item us = Inr (x, k) \<Longrightarrow> P x \<and> length k < length us"
    and "\<And>us e. item us = Inl e \<Longrightarrow> fails_within us e"
  shows "sound P item"
  unfolding sound_def
proof
  fix us
  show "case item us of Inr (x, k) \<Rightarrow> P x \<and> length k < length us | Inl e \<Rightarrow> fails_within us e"
    using assms [of us] by (cases "item us") auto
qed

lemma soundD:
  assumes "sound P item"
  shows "item us = Inr (x, k) \<Longrightarrow> P x \<and> length k < length us" "item us = Inl e \<Longrightarrow> fails_within us e"
  using assms unfolding sound_def by (auto dest!: spec [of _ us])

lemma fails_within_mono: "fails_within us e \<Longrightarrow> length us \<le> length vs \<Longrightarrow> fails_within vs e"
  by (simp add: fails_within_def)

lemma fail_within: "fail m us = Inl e \<Longrightarrow> m \<noteq> OutOfTurns \<Longrightarrow> length us \<le> length vs \<Longrightarrow> fails_within vs e"
  by (auto simp: fail_def fails_within_def)

lemma fail_not_Inr [simp]: "fail m us \<noteq> Inr x"
  by (simp add: fail_def)

lemma expect_cases:
  "expect c m us = Inr k \<longleftrightarrow> starts c us \<and> k = tl us"
  "expect c m us = Inl e \<longleftrightarrow> \<not> starts c us \<and> e = (m, length us)"
  by (auto simp: expect_def fail_def)

lemma starts_length: "starts c us \<Longrightarrow> Suc (length (tl us)) = length us"
  by (cases us) simp_all

lemmas skip_lengths = skip_ws_shorter starts_length

lemma items_sound:
  assumes "sound P item" and "m \<noteq> OutOfTurns" and "length us < n"
  shows "case items n close m item us of
      Inr (xs, k) \<Rightarrow> list_all P xs \<and> length k < length us | Inl e \<Rightarrow> fails_within us e"
  using assms(3)
proof (induction n arbitrary: us)
  case (Suc n)
  show ?case
  proof (cases "item us")
    case (Inl e)
    then show ?thesis using soundD(2) [OF assms(1) Inl] by simp
  next
    case (Inr r)
    then obtain x k where item: "item us = Inr (x, k)" by (cases r) simp
    then have x: "P x" "length k < length us" using soundD(1) [OF assms(1)] by blast+
    have k: "length (skip_ws k) \<le> length k" by (rule skip_ws_shorter)
    show ?thesis
    proof (cases "starts close (skip_ws k)")
      case True
      with item x k starts_length [OF True] show ?thesis by (simp add: Let_def)
    next
      case False
      show ?thesis
      proof (cases "starts CHR '','' (skip_ws k)")
        case True
        let ?k = "skip_ws (tl (skip_ws k))"
        have len: "length ?k < length us"
          using x(2) k starts_length [OF True] skip_ws_shorter [of "tl (skip_ws k)"] by simp
        with Suc.prems have "length ?k < n" by simp
        from Suc.IH [OF this] show ?thesis
          using item x(1) False True len
          by (auto simp: expect_def fail_def fails_within_def Let_def split: sum.splits)
      next
        case no: False
        with item False x(2) k assms(2) show ?thesis by (simp add: expect_def fail_def fails_within_def Let_def)
      qed
    qed
  qed
qed simp

definition within :: "code_units \<Rightarrow> ('a \<times> code_units) snbt_result \<Rightarrow> bool" where
  "within us r \<longleftrightarrow> (case r of Inr (x, k) \<Rightarrow> length k < length us | Inl e \<Rightarrow> fails_within us e)"

lemma within_simps [simp]:
  "within us (Inr (x, k)) \<longleftrightarrow> length k < length us"
  "within us (fail m vs) \<longleftrightarrow> m \<noteq> OutOfTurns \<and> length vs \<le> length us"
  by (simp_all add: within_def fail_def fails_within_def)

lemma within_prepend: "within vs r \<Longrightarrow> length vs \<le> length us \<Longrightarrow> within us (prepend xs r)"
  by (cases r) (auto simp: within_def prepend_def fails_within_def)

lemma within_if: "(c \<Longrightarrow> within us a) \<Longrightarrow> (\<not> c \<Longrightarrow> within us b) \<Longrightarrow> within us (if c then a else b)"
  by simp

lemma quoted_rest_within: "within us (quoted_rest binary quote us)"
proof (induction us rule: length_induct)
  case (1 us)
  then have rec: "within us (prepend xs (quoted_rest binary quote vs))" if "length vs < length us" for xs vs
    using that within_prepend by fastforce
  show ?case
  proof (cases us)
    case Nil
    then show ?thesis by (simp add: quoted_rest.simps within_def fails_within_def)
  next
    case u: (Cons u us')
    show ?thesis
    proof (cases us')
      case Nil
      show ?thesis unfolding u Nil
        by (subst quoted_rest.simps(2), unfold list.case, intro within_if rec [unfolded u Nil]) simp_all
    next
      case e: (Cons e vs)
      show ?thesis
      proof (cases "simple_escape e")
        case None
        show ?thesis unfolding u e
          by (subst quoted_rest.simps(2), unfold list.case None option.case Let_def, intro within_if rec [unfolded u e]) (simp_all add: less_Suc_eq_le)
      next
        case (Some c)
        show ?thesis unfolding u e
          by (subst quoted_rest.simps(2), unfold list.case Some option.case, intro within_if rec [unfolded u e]) simp_all
      qed
    qed
  qed
qed

lemma integer_tag_type [simp]: "integer_of (integer_tag type v) = Some v"
  by (cases type) simp_all

lemma parse_integer_sound:
  "case parse_integer left r us sign_mode suffix of
     Inr None \<Rightarrow> True | Inr (Some t) \<Rightarrow> well_formed binary t | Inl e \<Rightarrow> fst e \<noteq> OutOfTurns \<and> snd e \<le> left"
proof -
  have signed: "well_formed binary (integer_tag type (to_signed (type_bytes type) (nat v)))"
    if "\<not> (v < 0 \<or> v > 2 ^ (8 * type_bytes type) - 1)" for type v
  proof (rule integer_tag_well_formed, rule to_signed_range)
    show "0 < type_bytes type" by (cases type) simp_all
    have "int (nat v) < 2 ^ (8 * type_bytes type)" using that by linarith
    then show "nat v < 2 ^ (8 * type_bytes type)" by (metis of_nat_less_iff of_nat_numeral of_nat_power)
  qed
  obtain negative body where sign: "leading_sign us = (negative, body)" by fastforce
  show ?thesis
  proof (cases "read_natural body")
    case None
    with sign show ?thesis by (simp add: parse_integer_def)
  next
    case (Some n)
    obtain v where v: "v = (if negative then - int n else int n)" by blast
    obtain type where type: "type = suffix_type suffix" by blast
    show ?thesis
      using signed [where v = v and type = type] integer_tag_well_formed [of type v binary]
      unfolding parse_integer_def sign prod.case Some option.case Let_def v [symmetric] type [symmetric]
      by simp
  qed
qed

lemma parse_float_sound:
  "case parse_float left us suffix of
     Inr None \<Rightarrow> True | Inr (Some t) \<Rightarrow> well_formed binary t | Inl e \<Rightarrow> fst e \<noteq> OutOfTurns \<and> snd e \<le> left"
  using double_of_finite by (auto simp: parse_float_def split: option.split)

lemma parse_numeric_sound:
  "case parse_numeric left us of
     Inr None \<Rightarrow> True | Inr (Some t) \<Rightarrow> well_formed binary t | Inl e \<Rightarrow> fst e \<noteq> OutOfTurns \<and> snd e \<le> left"
  using parse_integer_sound [of left] parse_float_sound [of left]
  by (auto simp: parse_numeric_def Let_def split: prod.split option.split)

lemma bare_token_length: "bare_token us = (token, k) \<Longrightarrow> length us = length token + length k"
  by (auto simp: bare_token_def) (metis length_append takeWhile_dropWhile_id)

lemma parse_key_length: "parse_key us = (name, k) \<Longrightarrow> length us = length name + length k"
  by (auto simp: parse_key_def) (metis length_append takeWhile_dropWhile_id)

lemma parse_array_value_sound: "sound (in_range (type_bytes type)) (parse_array_value type)"
  unfolding sound_def
proof
  fix us
  obtain token k where t: "bare_token (skip_ws us) = (token, k)" by fastforce
  have len: "length (skip_ws us) = length token + length k" "length (skip_ws us) \<le> length us"
    using bare_token_length [OF t] skip_ws_shorter [of us] by simp_all
  show "case parse_array_value type us of
      Inr (x, k) \<Rightarrow> in_range (type_bytes type) x \<and> length k < length us | Inl e \<Rightarrow> fails_within us e"
  proof (cases "parse_numeric (length (skip_ws us)) token")
    case (Inl e)
    then show ?thesis using parse_numeric_sound [where left = "length (skip_ws us)" and us = token and binary = True] len t
      by (auto simp: parse_array_value_def Let_def fail_def fails_within_def)
  next
    case (Inr numeric)
    then show ?thesis using len t
      by (cases token)
        (auto simp: parse_array_value_def Let_def fail_def fails_within_def coerce_array_integer_def split: option.split)
  qed
qed

lemma parse_quoted_within: "is_quote us \<Longrightarrow> within us (parse_quoted binary us)"
  using quoted_rest_within [of "tl us" binary "hd us"]
  by (cases us) (auto simp: is_quote_def parse_quoted_def within_def fails_within_def split: sum.splits)

lemma parse_entry_sound:
  assumes "sound P tag"
  shows "sound (\<lambda>e. fst e \<noteq> [] \<and> P (snd e)) (parse_entry binary tag)"
  unfolding sound_def
proof
  fix us
  let ?us = "skip_ws us"
  let ?name = "if is_quote ?us then parse_quoted binary ?us else Inr (parse_key ?us)"
  have us: "length ?us \<le> length us" by (rule skip_ws_shorter)
  show "case parse_entry binary tag us of
      Inr (x, k) \<Rightarrow> (fst x \<noteq> [] \<and> P (snd x)) \<and> length k < length us | Inl e \<Rightarrow> fails_within us e"
  proof (cases ?name)
    case (Inl e)
    then have "is_quote ?us" by (auto split: if_splits)
    with Inl parse_quoted_within [of ?us binary] us show ?thesis
      by (auto simp: parse_entry_def Let_def within_def fails_within_def)
  next
    case (Inr r)
    then obtain name k where name: "?name = Inr (name, k)" by (cases r) simp
    have k: "length k \<le> length us"
      using name parse_quoted_within [of ?us binary] parse_key_length [of ?us name k] us
      by (auto simp: within_def split: if_splits)
    show ?thesis
    proof (cases "name = [] \<or> \<not> starts CHR '':'' (skip_ws k)")
      case True
      with name k skip_ws_shorter [of k] show ?thesis
        by (auto simp: parse_entry_def Let_def expect_def fail_def fails_within_def)
    next
      case False
      let ?k = "tl (skip_ws k)"
      have "length ?k < length us" using k skip_ws_shorter [of k] starts_length [of "CHR '':''" "skip_ws k"] False by simp
      with False name soundD [OF assms, of ?k] show ?thesis
        by (cases "tag ?k") (auto simp: parse_entry_def Let_def expect_def fails_within_def)
    qed
  qed
qed

lemma nonempty_tl: "us \<noteq> [] \<Longrightarrow> length (skip_ws (tl us)) < length us"
  using skip_ws_shorter [of "tl us"] by (cases us) simp_all

lemma parse_compound_sound:
  assumes "sound P tag" and "us \<noteq> []"
  shows "case parse_compound binary tag us of
      Inr (t, k) \<Rightarrow> (\<exists>es. t = TCompound es \<and> list_all (\<lambda>e. fst e \<noteq> [] \<and> P (snd e)) es) \<and> length k < length us | Inl e \<Rightarrow> fails_within us e"
proof -
  let ?us = "skip_ws (tl us)"
  note len = nonempty_tl [OF assms(2)]
  have "case items (Suc (length ?us)) CHR ''}'' ExpectedCommaOrBrace (parse_entry binary tag) ?us of
      Inr (xs, k) \<Rightarrow> list_all (\<lambda>e. fst e \<noteq> [] \<and> P (snd e)) xs \<and> length k < length ?us
    | Inl e \<Rightarrow> fails_within ?us e"
    by (rule items_sound [OF parse_entry_sound [OF assms(1)]]) simp_all
  with len show ?thesis
    by (auto simp: parse_compound_def Let_def list_all_iff fails_within_def split: sum.splits dest: starts_length)
qed

lemma parse_array_sound:
  assumes "length us < length vs"
  shows "case parse_array type us of
      Inr (t, k) \<Rightarrow> (\<exists>xs. t = array_tag type xs \<and> list_all (in_range (type_bytes type)) xs) \<and> length k < length vs
    | Inl e \<Rightarrow> fails_within vs e"
proof -
  let ?us = "skip_ws us"
  have len: "length ?us \<le> length us" by (rule skip_ws_shorter)
  have "case items (Suc (length ?us)) CHR '']'' ExpectedArrayComma (parse_array_value type) ?us of
      Inr (xs, k) \<Rightarrow> list_all (in_range (type_bytes type)) xs \<and> length k < length ?us
    | Inl e \<Rightarrow> fails_within ?us e"
    by (rule items_sound [OF parse_array_value_sound]) simp_all
  with len assms show ?thesis
    by (fastforce simp: parse_array_def Let_def fails_within_def split: sum.splits dest: starts_length)
qed

text \<open>What a list or an array is made of.\<close>

definition listed :: "bool \<Rightarrow> (nbt_tag \<Rightarrow> bool) \<Rightarrow> nbt_tag \<Rightarrow> bool" where
  "listed binary P t \<longleftrightarrow>
     (\<exists>vs. t = list_tag binary vs \<and> list_all P vs) \<or>
     (\<exists>type vs. type \<noteq> IShort \<and> t = array_tag type vs \<and> list_all (in_range (type_bytes type)) vs)"

lemma parse_list_sound:
  assumes "sound P tag" and "us \<noteq> []"
  shows "case parse_list_or_array binary tag us of
      Inr (t, k) \<Rightarrow> listed binary P t \<and> length k < length us | Inl e \<Rightarrow> fails_within us e"
proof -
  let ?us = "skip_ws (tl us)" and ?after = "skip_ws (tl (skip_ws (tl us)))"
  note len = nonempty_tl [OF assms(2)]
  show ?thesis
  proof (cases "array_prefix ?us \<noteq> None \<and> starts CHR '';'' ?after")
    case True
    then obtain type where type: "array_prefix ?us = Some type" by blast
    then have "type \<noteq> IShort" "?us \<noteq> []" by (auto simp: array_prefix_def split: list.splits if_splits)
    moreover have "length (tl ?after) < length us"
      using len nonempty_tl [OF \<open>?us \<noteq> []\<close>] starts_length [of "CHR '';''" ?after] True by simp
    ultimately show ?thesis using parse_array_sound [of "tl ?after" us type] True type
      by (fastforce simp: parse_list_or_array_def Let_def listed_def split: sum.splits)
  next
    case False
    then have not_array: "parse_list_or_array binary tag us =
        (if starts CHR '']'' ?us then Inr (list_tag binary [], tl ?us)
         else and_then (items (Suc (length ?us)) CHR '']'' ExpectedCommaOrBracket tag ?us) (\<lambda>(vs, us). Inr (list_tag binary vs, us)))"
      unfolding parse_list_or_array_def Let_def if_not_P [OF False] by (simp add: list_tag_def list_element_type_def)
    have "case items (Suc (length ?us)) CHR '']'' ExpectedCommaOrBracket tag ?us of
        Inr (xs, k) \<Rightarrow> list_all P xs \<and> length k < length ?us | Inl e \<Rightarrow> fails_within ?us e"
      by (rule items_sound [OF assms(1)]) simp_all
    with len show ?thesis unfolding not_array
      by (auto simp: listed_def fails_within_def split: sum.splits dest: starts_length)
  qed
qed

lemma apply_operation_sound:
  assumes "length k < length us"
  shows "case apply_operation operation t k of
      Inr t' \<Rightarrow> well_formed binary t' \<and> textual (Suc n) t' | Inl e \<Rightarrow> fails_within us e"
proof -
  have part: "in_range 4 (to_signed 4 (hex_value hex))" if "list_all is_hex_digit hex" "length hex \<le> 8" for hex
  proof -
    have "16 ^ length hex \<le> (16 :: nat) ^ 8" using that(2) by (intro power_increasing) simp_all
    then have "hex_value hex < 2 ^ (8 * 4)" using hex_value_less [OF that(1)] by simp
    then show ?thesis by (intro to_signed_range) simp_all
  qed
  have sub: "list_all is_hex_digit (take m hex)" "list_all is_hex_digit (drop m hex)" if "list_all is_hex_digit hex" for m hex
    using that by (auto simp: list_all_iff dest: in_set_takeD in_set_dropD)
  have bools: "in_range 1 0" "in_range 1 1" by (simp_all add: in_range_def)
  show ?thesis
  proof (cases "operation = text_of ''bool''")
    case True
    then show ?thesis using assms bools by (auto simp: apply_operation_def fail_def fails_within_def split: option.split)
  next
    case False
    then show ?thesis using assms part sub
      by (cases t) (auto simp: apply_operation_def Let_def fail_def fails_within_def)
  qed
qed

lemma parse_operation_sound:
  assumes "sound P tag" and "us \<noteq> []"
  shows "case parse_operation tag operation us of
      Inr (t, k) \<Rightarrow> (well_formed binary t \<and> textual (Suc n) t) \<and> length k < length us | Inl e \<Rightarrow> fails_within us e"
proof (cases "tag (tl us)")
  case (Inl e)
  then show ?thesis using soundD(2) [OF assms(1) Inl] assms(2)
    by (auto simp: parse_operation_def fails_within_def)
next
  case (Inr r)
  then obtain t k where t: "tag (tl us) = Inr (t, k)" by (cases r) simp
  then have "length k < length (tl us)" using soundD(1) [OF assms(1) t] by blast
  then have k: "length k < length us" by simp
  show ?thesis
  proof (cases "starts CHR '')'' (skip_ws k)")
    case True
    then have len: "length (tl (skip_ws k)) < length us" using k skip_ws_shorter [of k] starts_length [OF True] by simp
    then show ?thesis using t True apply_operation_sound [OF len, where operation = operation and t = t and binary = binary and n = n]
      by (cases "apply_operation operation t (tl (skip_ws k))") (simp_all add: parse_operation_def expect_def)
  next
    case False
    then show ?thesis using t k skip_ws_shorter [of k]
      by (simp add: parse_operation_def expect_def fail_def fails_within_def)
  qed
qed

lemma numeric_textual:
  "parse_numeric left us = Inr (Some t) \<Longrightarrow> textual (Suc n) t"
proof -
  assume p: "parse_numeric left us = Inr (Some t)"
  then have "well_formed True t" using parse_numeric_sound [where left = left and us = us and binary = True] by simp
  moreover have "\<exists>type v. t = integer_tag type v \<or> (\<exists>v. t = TFloat v \<or> t = TDouble v)"
    using p by (auto simp: parse_numeric_def parse_integer_def parse_float_def Let_def split: prod.splits option.splits if_splits)
  moreover have "textual (Suc n) (integer_tag type v) = well_formed True (integer_tag type v)" for type v by (cases type) simp_all
  ultimately show ?thesis by auto
qed

lemma parse_bare_sound:
  assumes "sound P tag"
  shows "case parse_bare tag us of
      Inr (t, k) \<Rightarrow> (well_formed binary t \<and> textual (Suc n) t) \<and> length k < length us | Inl e \<Rightarrow> fails_within us e"
proof -
  obtain token k where t: "bare_token us = (token, k)" by fastforce
  show ?thesis
  proof (cases "token = []")
    case True
    with t show ?thesis by (simp add: parse_bare_def fail_def fails_within_def)
  next
    case False
    have len: "length (skip_ws k) < length us" using bare_token_length [OF t] skip_ws_shorter [of k] False by (cases token) simp_all
    show ?thesis
    proof (cases "starts CHR ''('' (skip_ws k) \<and> token \<in> {text_of ''bool'', text_of ''uuid''}")
      case True
      then have "skip_ws k \<noteq> []" by auto
      from parse_operation_sound [OF assms this, where operation = token and binary = binary and n = n] True False t len show ?thesis
        by (auto simp: parse_bare_def Let_def fails_within_def split: sum.splits)
    next
      case op: False
      have bools: "in_range 1 0" "in_range 1 1" by (simp_all add: in_range_def)
      have words: "parse_bare tag us = Inr (TByte (if token = text_of ''true'' then 1 else 0), skip_ws k)"
        if "token = text_of ''true'' \<or> token = text_of ''false''"
        using t False that by (auto simp: parse_bare_def Let_def)
      have other: "parse_bare tag us = and_then (parse_numeric (length us) token) (\<lambda>numeric.
            case numeric of
              Some t \<Rightarrow> Inr (t, skip_ws k)
            | None \<Rightarrow>
                if is_digit (hd token) \<or> hd token \<in> set (text_of ''.+-'') then fail BadUnquotedStart us
                else Inr (TString token, skip_ws k))"
        if "\<not> (token = text_of ''true'' \<or> token = text_of ''false'')"
        using op that unfolding parse_bare_def Let_def t prod.case if_not_P [OF False] if_not_P [OF op] by simp
      note numeric = parse_numeric_sound [where left = "length us" and us = token and binary = binary]
      show ?thesis
      proof (cases "token = text_of ''true'' \<or> token = text_of ''false''")
        case True
        show ?thesis unfolding words [OF True] using bools len by simp
      next
        case no: False
        show ?thesis
        proof (cases "parse_numeric (length us) token")
          case (Inl e)
          then show ?thesis using numeric unfolding other [OF no] by (simp add: fails_within_def)
        next
          case (Inr n')
          then show ?thesis using numeric numeric_textual [where left = "length us" and us = token and n = n] len
            unfolding other [OF no] by (cases n') (simp_all add: fail_def fails_within_def)
        qed
      qed
    qed
  qed
qed

text \<open>
  What a tag of so many levels may be: well formed, and text again when it isn't meant for binary.
\<close>

definition parsed :: "bool \<Rightarrow> nat \<Rightarrow> nbt_tag \<Rightarrow> bool" where
  "parsed binary n t \<longleftrightarrow> well_formed binary t \<and> (binary \<or> textual n t)"

lemma parsed_compound:
  "list_all (\<lambda>e. fst e \<noteq> [] \<and> parsed binary n (snd e)) es \<Longrightarrow> parsed binary (Suc n) (TCompound es)"
  by (auto simp: parsed_def list_all_iff)

lemma parsed_listed: "listed binary (parsed binary n) t \<Longrightarrow> parsed binary (Suc n) t"
  unfolding listed_def
proof (elim disjE exE conjE)
  fix vs assume vs: "t = list_tag binary vs" "list_all (parsed binary n) vs"
  then have "list_all (well_formed binary) vs" by (simp add: parsed_def list_all_iff)
  moreover have "textual (Suc n) (list_tag binary vs)" if "\<not> binary"
    using vs(2) that by (simp add: list_tag_def Let_def parsed_def list_all_iff)
  ultimately show ?thesis using vs(1) list_tag_well_formed by (cases binary) (auto simp: parsed_def)
next
  fix type vs assume t: "type \<noteq> IShort" "t = array_tag type vs" "list_all (in_range (type_bytes type)) vs"
  then have "textual (Suc n) t" by (cases type) simp_all
  with t array_tag_well_formed show ?thesis by (simp add: parsed_def)
qed

lemma parse_tag_sound: "sound (parsed binary n) (parse_tag binary n)"
proof (induction n)
  case 0
  show ?case by (simp add: sound_def parse_tag.simps fail_def fails_within_def)
next
  case (Suc n)
  show ?case unfolding sound_def
  proof
    fix us
    let ?us = "skip_ws us"
    have le: "length ?us \<le> length us" by (rule skip_ws_shorter)
    have lift: "case r of Inr (t, k) \<Rightarrow> parsed binary (Suc n) t \<and> length k < length us | Inl e \<Rightarrow> fails_within us e"
      if "case r of Inr (t, k) \<Rightarrow> Q t \<and> length k < length ?us | Inl e \<Rightarrow> fails_within ?us e"
        "\<And>t. Q t \<Longrightarrow> parsed binary (Suc n) t" for r Q
      using that le by (auto simp: fails_within_def split: sum.splits)
    consider "starts CHR ''{'' ?us" | "starts CHR ''['' ?us" "\<not> starts CHR ''{'' ?us"
      | "is_quote ?us" "\<not> starts CHR ''['' ?us" "\<not> starts CHR ''{'' ?us"
      | "\<not> is_quote ?us" "\<not> starts CHR ''['' ?us" "\<not> starts CHR ''{'' ?us" by blast
    then show "case parse_tag binary (Suc n) us of
        Inr (t, k) \<Rightarrow> parsed binary (Suc n) t \<and> length k < length us | Inl e \<Rightarrow> fails_within us e"
    proof cases
      case 1
      then have "?us \<noteq> []" by auto
      from lift [OF parse_compound_sound [OF Suc.IH this]] parsed_compound 1 show ?thesis
        by (simp add: parse_tag.simps Let_def) blast
    next
      case 2
      then have "?us \<noteq> []" by auto
      from lift [OF parse_list_sound [OF Suc.IH this]] parsed_listed 2 show ?thesis
        by (simp add: parse_tag.simps Let_def)
    next
      case 3
      have "parsed binary (Suc n) (TString s)" for s by (simp add: parsed_def)
      then show ?thesis using 3 parse_quoted_within [OF 3(1), of binary] le
        by (auto simp: parse_tag.simps Let_def within_def fails_within_def split: sum.splits)
    next
      case 4
      from lift [OF parse_bare_sound [OF Suc.IH, where binary = binary and n = n]] 4 show ?thesis
        by (simp add: parse_tag.simps Let_def parsed_def)
    qed
  qed
qed

lemma parse_snbt_sound:
  "case parse_snbt source binary of
     Inr t \<Rightarrow> parsed binary 513 t | Inl e \<Rightarrow> se_message e \<noteq> OutOfTurns \<and> se_index e \<le> length source"
proof -
  let ?us = "skip_ws source"
  have le: "length ?us \<le> length source" by (rule skip_ws_shorter)
  have "case parse_root binary source of Inr t \<Rightarrow> parsed binary 513 t | Inl e \<Rightarrow> fails_within source e"
  proof (cases "?us = []")
    case True
    then show ?thesis by (simp add: parse_root_def fail_def fails_within_def)
  next
    case False
    show ?thesis
    proof (cases "parse_tag binary 513 ?us")
      case (Inl e)
      then show ?thesis using False soundD(2) [OF parse_tag_sound Inl] le by (simp add: parse_root_def fails_within_def)
    next
      case (Inr r)
      then obtain t k where t: "parse_tag binary 513 ?us = Inr (t, k)" by (cases r) simp
      from soundD(1) [OF parse_tag_sound t] t False le skip_ws_shorter [of k] show ?thesis
        by (simp add: parse_root_def Let_def fail_def fails_within_def)
    qed
  qed
  then show ?thesis by (auto simp: parse_snbt_def snbt_parse_error_def Let_def fails_within_def split: sum.splits)
qed

section \<open>Tags that are read as they are\<close>

text \<open>No zero has a sign.\<close>

fun plain_zeros :: "nbt_tag \<Rightarrow> bool" where
  "plain_zeros (TFloat v) = (unsigned_zero v = v)"
| "plain_zeros (TDouble v) = (unsigned_zero v = v)"
| "plain_zeros (TList element vs) = list_all plain_zeros vs"
| "plain_zeros (TCompound es) = list_all (\<lambda>e. plain_zeros (snd e)) es"
| "plain_zeros t = True"

lemma as_parsed_type [simp]: "tag_type (as_parsed binary t) = tag_type t"
  by (cases t) (simp_all add: list_tag_def Let_def)

lemma as_parsed_plain: "well_formed binary t \<Longrightarrow> plain_zeros t \<Longrightarrow> as_parsed binary t = t"
proof (induction t)
  case (TList element vs)
  then have "map (as_parsed binary) vs = vs" by (intro map_idI) (simp add: list_all_iff)
  moreover have "list_tag binary vs = TList element vs"
    using TList.prems by (cases element) (auto simp: list_tag_def Let_def list_all_iff)
  ultimately show ?case by simp
next
  case (TCompound es)
  have "as_parsed binary (snd e) = snd e" if "e \<in> set es" for e
    using TCompound.IH [OF that, of "snd e"] TCompound.prems that by (cases e) (force simp: list_all_iff)
  then show ?case by (auto intro: map_idI)
qed simp_all

lemma length_filter_count: "length (filter (\<lambda>u. u = a) us) = count_list us a"
  by (induction us) auto

lemma textual_mono: "textual n t \<Longrightarrow> n \<le> m \<Longrightarrow> textual m t"
proof (induction n t arbitrary: m rule: textual.induct)
  case (10 n element vs)
  then show ?case by (cases m) (auto simp: list_all_iff)
next
  case (11 n es)
  then show ?case by (cases m) (auto simp: list_all_iff)
next
  case (1 t)
  then show ?case by simp
qed (auto simp: Suc_le_D dest!: Suc_le_D)

section \<open>Properties\<close>

text \<open>C25: A tag with numbers in range, names that aren't empty and at most 512 levels of nesting has a
  text, with any indentation, and the parser reads that text as the same tag: zeros lose their
  sign, a list has the type of its elements (mixed ones are wrapped for binary), and a well-formed
  tag without signed zeros is read exactly as it was.\<close>

theorem snbt_roundtrip:
  assumes "textual 513 t"
  shows "\<exists>us. format_snbt t indent = Some us \<and> parse_snbt us binary = Inr (as_parsed binary t) \<and>
    (well_formed binary t \<and> plain_zeros t \<longrightarrow> parse_snbt us binary = Inr t)"
  using format_parse [OF assms, of indent binary] as_parsed_plain [of binary t] by fastforce

definition demo_snbt :: nbt_tag where
  "demo_snbt = TCompound [(text_of ''a b'', TList Mixed [TByte (-3), TString [10, 92, 34], TDouble 0x3FF8000000000000])]"

lemma demo_snbt_textual: "textual (Suc (Suc (Suc 0))) demo_snbt"
  by (simp add: demo_snbt_def in_range_def finite_double_def double_magnitude_def)

theorem snbt_roundtrip_witness:
  "\<exists>us. format_snbt demo_snbt 2 = Some us \<and> parse_snbt us False = Inr demo_snbt"
proof -
  have "textual 513 demo_snbt" using demo_snbt_textual by (rule textual_mono) simp
  moreover have "well_formed False demo_snbt"
    by (simp add: demo_snbt_def in_range_def list_element_type_def finite_double_def double_magnitude_def)
  moreover have "plain_zeros demo_snbt" by (simp add: demo_snbt_def unsigned_zero_def double_magnitude_def)
  ultimately show ?thesis using snbt_roundtrip [of demo_snbt 2 False] by blast
qed

text \<open>C26: Parsing any text ends, with a tag or with an error at a place in the text. The tag is well
  formed: integers are in the range of their type and other numbers finite, a list has the type
  of its elements and is mixed only if they differ and it isn't meant for binary, and every name
  in a compound has characters, except in those that wrap an element for binary.\<close>

theorem parse_snbt_well_formed:
  "case parse_snbt source binary of
     Inr t \<Rightarrow> well_formed binary t
   | Inl e \<Rightarrow> se_message e \<noteq> OutOfTurns \<and> se_index e \<le> length source"
  using parse_snbt_sound [of source binary] by (auto simp: parsed_def split: sum.splits)


text \<open>A diagnostic marks one character of the source, or its end, and its line and column are those of
  that character: as many line breaks come before, and as many characters since the last one.\<close>

lemma snbt_diagnostic_points:
  "case snbt_diagnostic source binary of
     None \<Rightarrow> \<exists>t. parse_snbt source binary = Inr t
   | Some d \<Rightarrow>
       (\<exists>lines before rest. source = lines @ before @ rest \<and> length (lines @ before) = sd_from d \<and>
          (lines = [] \<or> last lines = 10) \<and> 10 \<notin> set before \<and>
          se_line (sd_error d) = count_list lines 10 + 1 \<and> se_column (sd_error d) = length before + 1 \<and>
          sd_to d = sd_from d + (if rest = [] then 0 else 1))"
proof (cases "parse_snbt source binary")
  case (Inr t)
  then show ?thesis by (simp add: snbt_diagnostic_def)
next
  case (Inl e)
  then obtain m i where e: "e = snbt_parse_error m source i" by (auto simp: parse_snbt_def split: sum.splits)
  let ?safe = "min i (length source)"
  let ?passed = "take ?safe source"
  define before lines where "before = rev (takeWhile (\<lambda>u. u \<noteq> 10) (rev ?passed))"
    and "lines = rev (dropWhile (\<lambda>u. u \<noteq> 10) (rev ?passed))"
  have passed: "lines @ before = ?passed"
    unfolding before_def lines_def by (metis rev_append rev_rev_ident takeWhile_dropWhile_id)
  have "10 \<notin> set before" by (auto simp: before_def dest: set_takeWhileD)
  moreover have "lines = [] \<or> last lines = 10"
    unfolding lines_def by (metis (mono_tags, lifting) hd_dropWhile last_rev rev_is_Nil_conv)
  moreover have "length (filter (\<lambda>u. u = 10) ?passed) = count_list lines 10"
    using \<open>10 \<notin> set before\<close> unfolding passed [symmetric] by (auto simp: length_filter_count filter_empty_conv)
  moreover have "length (takeWhile (\<lambda>u. u \<noteq> 10) (rev ?passed)) = length before" by (simp add: before_def)
  moreover have "source = lines @ before @ drop ?safe source" unfolding append_assoc [symmetric] passed by simp
  moreover have "length (lines @ before) = ?safe" unfolding passed by simp
  moreover have "min (length source) (?safe + 1) = ?safe + (if drop ?safe source = [] then 0 else 1)" by simp
  moreover obtain d where d: "snbt_diagnostic source binary = Some d" "sd_from d = ?safe"
      "sd_to d = min (length source) (?safe + 1)"
      "se_line (sd_error d) = length (filter (\<lambda>u. u = 10) ?passed) + 1"
      "se_column (sd_error d) = length (takeWhile (\<lambda>u. u \<noteq> 10) (rev ?passed)) + 1"
    by (simp add: snbt_diagnostic_def Inl e snbt_parse_error_def Let_def)
  ultimately have "source = lines @ before @ drop ?safe source \<and> length (lines @ before) = sd_from d \<and>
      (lines = [] \<or> last lines = 10) \<and> 10 \<notin> set before \<and>
      se_line (sd_error d) = count_list lines 10 + 1 \<and> se_column (sd_error d) = length before + 1 \<and>
      sd_to d = sd_from d + (if drop ?safe source = [] then 0 else 1)"
    by (simp only: d) simp
  then show ?thesis unfolding d(1) option.case by (intro exI)
qed

text \<open>
  Two of the checks on numbers refuse words that aren't numbers: a separator that isn't between
  digits, and an integer's suffix after an \<open>e\<close> or a point. And the name of a compound may not
  be empty, though the format writes such a name in quotes.
\<close>

lemmas snbt_eval = parse_snbt_def parse_root_def parse_bare_def parse_numeric_def bare_token_def bare_end_def is_space_def
  skip_ws_def unsigned_token_def leading_sign_def token_radix_def split_suffix_def suffix_letters_def lower_unit_def
  is_digit_def fail_def is_quote_def Let_def

lemma words_refused:
  "parse_snbt (text_of ''oak_log'') binary = Inl (snbt_parse_error BadSeparator (text_of ''oak_log'') 3)"
  "parse_snbt (text_of ''barrel'') binary = Inl (snbt_parse_error SuffixOnDecimal (text_of ''barrel'') 0)"
proof -
  have tag: "parse_tag binary 513 us = parse_bare (parse_tag binary 512) us"
    if "skip_ws us = us" "\<not> starts CHR ''{'' us" "\<not> starts CHR ''['' us" "\<not> is_quote us" for us
  proof -
    have "(513 :: nat) = Suc 512" by simp
    then show ?thesis using that by (simp only: parse_tag.simps Let_def if_False)
  qed
  have "parse_tag binary 513 (text_of ''oak_log'') = parse_bare (parse_tag binary 512) (text_of ''oak_log'')"
    by (rule tag) (simp_all add: snbt_eval)
  then show "parse_snbt (text_of ''oak_log'') binary = Inl (snbt_parse_error BadSeparator (text_of ''oak_log'') 3)"
    by (simp add: snbt_eval numeral_3_eq_3)
  have "parse_tag binary 513 (text_of ''barrel'') = parse_bare (parse_tag binary 512) (text_of ''barrel'')"
    by (rule tag) (simp_all add: snbt_eval)
  then show "parse_snbt (text_of ''barrel'') binary = Inl (snbt_parse_error SuffixOnDecimal (text_of ''barrel'') 0)"
    by (simp add: snbt_eval parse_float_def has_point_def)
qed

lemma empty_name_refused:
  "format_snbt (TCompound [([], TByte 1)]) 0 = Some (text_of ''{'' @ [34, 34] @ text_of '': 1b}'' @ [10])"
  "parse_entry binary tag ([34, 34] @ text_of '': 1b}'' @ [10]) = fail ExpectedKey (text_of '': 1b}'' @ [10])"
  by (simp_all add: format_snbt_def format_collection_def format_key_def quote_string_units int_text_def nat_text_def
      dec_digits.simps digit_text_def digit_unit_def unit_of_def parse_entry_def is_quote_def parse_quoted_def
      quoted_rest.simps is_space_def skip_ws_def)

end
