(* ===== verification/Nbt_Files.thy ===== *)
theory Nbt_Files
  imports Snbt_Claims "HOL-Library.Sublist"
begin

text \<open>
  Reading and writing a text or NBT file for the editor: \<open>read\<close>, \<open>write\<close> and
  \<open>prepareFileWrite\<close> of \<open>apps/relay/src/files.ts\<close>, from where the file's bytes are known. An NBT
  file is shown as text and written as NBT again. Compression is an argument: \<open>gunzip\<close> is
  \<open>None\<close> where \<open>zlib\<close> throws, for what isn't gzip or expands past the limit it's given.
\<close>

section \<open>Kinds of files\<close>

definition MAX_FILE_BYTES :: nat where
  "MAX_FILE_BYTES = 2 * 1024 * 1024"

definition has_ending :: "string \<Rightarrow> code_units \<Rightarrow> bool" where
  "has_ending s us = suffix (text_of s) us"

text \<open>
  \<open>toLowerCase\<close> as far as the names' ends tell: no other character's lower case is one of their
  letters.
\<close>

definition lower_path :: "code_units \<Rightarrow> code_units" where
  "lower_path us = map lower_unit us"

definition is_binary_nbt_path :: "code_units \<Rightarrow> bool" where
  "is_binary_nbt_path us = (has_ending ''.dat'' us \<or> has_ending ''.dat_old'' us \<or> has_ending ''.nbt'' us)"

definition is_gzip :: "byte list \<Rightarrow> bool" where
  "is_gzip bs = (take 2 bs = [31, 139])"

definition try_decode_nbt :: "byte list \<Rightarrow> named_nbt option" where
  "try_decode_nbt bs = (case decode_nbt bs of Inl e \<Rightarrow> None | Inr root \<Rightarrow> Some root)"

definition looks_like_snbt :: "code_units \<Rightarrow> bool" where
  "looks_like_snbt us = (let trimmed = skip_ws us in starts CHR ''{'' trimmed \<or> starts CHR ''['' trimmed)"

section \<open>Reading\<close>

datatype file_encoding = Enc_Nbt | Enc_NbtGzip | Enc_Snbt | Enc_SnbtGzip | Enc_Gzip | Enc_Utf8

record file_content =
  fc_path :: code_units
  fc_content :: code_units
  fc_size :: nat
  fc_decoded_size :: nat
  fc_encoding :: file_encoding
  fc_read_only :: bool
  fc_modified_at :: string

text \<open>\<open>Unformattable\<close> is what \<open>formatSnbt\<close> throws; the rest are the codes of the failures.\<close>

datatype file_error =
    FileTooLarge | UnsupportedFile | InvalidNbt | InvalidGzip | Unformattable | ReadOnly | FileChanged
  | InvalidSnbtText parse_error | InvalidSnbtTag nbt_error | InvalidSnbtGzip

definition read_text :: "(byte list \<Rightarrow> byte list option) \<Rightarrow> code_units \<Rightarrow> byte list \<Rightarrow> nat \<Rightarrow> string \<Rightarrow> file_error + file_content" where
  "read_text gunzip path source filesize modified =
     (let lower = lower_path path; compressed = has_ending ''.log.gz'' lower in
      case (if compressed then gunzip source else Some source) of
        None \<Rightarrow> Inl InvalidGzip
      | Some decoded \<Rightarrow>
          (case utf8_decode decoded of
             None \<Rightarrow> Inl UnsupportedFile
           | Some content \<Rightarrow> Inr \<lparr>fc_path = path, fc_content = content, fc_size = filesize, fc_decoded_size = length decoded,
               fc_encoding = (if has_ending ''.snbt'' lower then Enc_Snbt else if compressed then Enc_Gzip else Enc_Utf8),
               fc_read_only = compressed, fc_modified_at = modified\<rparr>))"

definition read_file :: "(byte list \<Rightarrow> byte list option) \<Rightarrow> code_units \<Rightarrow> byte list \<Rightarrow> nat \<Rightarrow> string \<Rightarrow> file_error + file_content" where
  "read_file gunzip path source filesize modified =
     (let lower = lower_path path; compressed = has_ending ''.log.gz'' lower;
          shown = (\<lambda>content bytes encoding. Inr \<lparr>fc_path = path, fc_content = content, fc_size = filesize,
            fc_decoded_size = length bytes, fc_encoding = encoding, fc_read_only = False, fc_modified_at = modified\<rparr>) in
      if filesize > MAX_FILE_BYTES then Inl FileTooLarge
      else if has_ending ''.gz'' lower \<and> \<not> compressed then Inl UnsupportedFile
      else if is_binary_nbt_path lower then
        (case (if is_gzip source then gunzip source else Some source) of
           None \<Rightarrow> Inl InvalidNbt
         | Some nbt_source \<Rightarrow>
             (case try_decode_nbt nbt_source of
                Some root \<Rightarrow>
                  (case format_snbt (nn_tag root) 2 of
                     None \<Rightarrow> Inl Unformattable
                   | Some content \<Rightarrow> shown content nbt_source (if is_gzip source then Enc_NbtGzip else Enc_Nbt))
              | None \<Rightarrow>
                  (case utf8_decode nbt_source of
                     Some raw_text \<Rightarrow>
                       if looks_like_snbt raw_text
                       then shown raw_text nbt_source (if is_gzip source then Enc_SnbtGzip else Enc_Snbt)
                       else read_text gunzip path source filesize modified
                   | None \<Rightarrow> read_text gunzip path source filesize modified)))
      else read_text gunzip path source filesize modified)"

section \<open>Writing\<close>

definition prepare_file_write ::
  "(byte list \<Rightarrow> byte list) \<Rightarrow> (byte list \<Rightarrow> byte list option) \<Rightarrow> code_units \<Rightarrow> byte list \<Rightarrow> code_units \<Rightarrow> bool \<Rightarrow>
     file_error + byte list" where
  "prepare_file_write gzip gunzip lower current content force =
     (if has_ending ''.snbt'' lower then
        (case (if force then Inr (TCompound []) else parse_snbt content False) of
           Inl e \<Rightarrow> Inl (InvalidSnbtText e)
         | Inr _ \<Rightarrow> Inr (utf8_encode content))
      else if \<not> is_binary_nbt_path lower then Inr (utf8_encode content)
      else
        let compressed = is_gzip current; packed = (\<lambda>bs. if compressed then gzip bs else bs) in
        case (if compressed then gunzip current else Some current) of
          None \<Rightarrow> Inl InvalidSnbtGzip
        | Some decoded_current \<Rightarrow>
            let current_nbt = try_decode_nbt decoded_current;
                raw_text = (if current_nbt = None then utf8_decode decoded_current else None);
                raw_snbt = (case raw_text of Some us \<Rightarrow> looks_like_snbt us | None \<Rightarrow> False) in
            if current_nbt = None \<and> \<not> raw_snbt then Inr (utf8_encode content)
            else
              let converted =
                (case parse_snbt content True of
                   Inl e \<Rightarrow> Inl (InvalidSnbtText e)
                 | Inr tag \<Rightarrow>
                     (case encode_nbt \<lparr>nn_name = (case current_nbt of Some root \<Rightarrow> nn_name root | None \<Rightarrow> []), nn_tag = tag\<rparr> of
                        Inl e \<Rightarrow> Inl (InvalidSnbtTag e)
                      | Inr bs \<Rightarrow> Inr bs)) in
              case converted of
                Inl failure \<Rightarrow> if force then Inr (packed (utf8_encode content)) else Inl failure
              | Inr bs \<Rightarrow> Inr (packed bs))"

text \<open>
  \<open>write\<close>: what the file then holds, and what reading it again returns, with the time it was
  changed at. How the bytes come into the file, in place or by renaming a copy, isn't modelled.
\<close>

definition write_file ::
  "(byte list \<Rightarrow> byte list) \<Rightarrow> (byte list \<Rightarrow> byte list option) \<Rightarrow> code_units \<Rightarrow> byte list \<Rightarrow> string \<Rightarrow> string option \<Rightarrow>
     code_units \<Rightarrow> bool \<Rightarrow> string \<Rightarrow> file_error + byte list \<times> (file_error + file_content)" where
  "write_file gzip gunzip path current modified expected content force now =
     (if has_ending ''.log.gz'' (lower_path path) then Inl ReadOnly
      else if truthy expected \<and> expected \<noteq> Some modified then Inl FileChanged
      else and_then (prepare_file_write gzip gunzip (lower_path path) current content force) (\<lambda>bs.
        Inr (bs, read_file gunzip path bs (length bs) now)))"

section \<open>Tags of files\<close>

text \<open>Names that aren't empty; bytes that are bytes.\<close>

fun named :: "nbt_tag \<Rightarrow> bool" where
  "named (TList element vs) = list_all named vs"
| "named (TCompound es) = list_all (\<lambda>e. fst e \<noteq> [] \<and> named (snd e)) es"
| "named t = True"

fun bytes_fit :: "nbt_tag \<Rightarrow> bool" where
  "bytes_fit (TByteArray vs) = list_all (in_range 1) vs"
| "bytes_fit (TList element vs) = list_all bytes_fit vs"
| "bytes_fit (TCompound es) = list_all (\<lambda>e. bytes_fit (snd e)) es"
| "bytes_fit t = True"

lemma byte_value_range: "in_range 1 (byte_value b)"
proof -
  obtain n where "unat b = n" "n < 256" using unat_byte_less [of b] by blast
  then show ?thesis unfolding byte_value_def in_range_def by auto
qed

lemma read_payload_bytes_fit: "read_payload filesize levels t bs = Inr (tag, rest) \<Longrightarrow> bytes_fit tag"
proof (induction levels arbitrary: t bs tag rest)
  case (Suc levels)
  show ?case
  proof (cases t)
    case NList
    with Suc(2) obtain element len r2 vs where
      "read_many len (read_payload filesize levels element) r2 = Inr (vs, rest)" "tag = TList (Elements element) vs"
      by (auto simp: and_then_Inr_iff split: if_splits)
    from read_many_items [OF this(1)] Suc.IH this(2) show ?thesis by (auto simp: list_all_iff)
  next
    case NCompound
    with Suc(2) obtain es where r:
      "read_entries (Suc (length bs)) (read_payload filesize levels) bs = Inr (es, rest)" "tag = TCompound es"
      by (auto simp: and_then_Inr_iff simp del: read_entries.simps)
    have "bytes_fit (snd e)" if "e \<in> set es" for e
      using read_entries_items [OF r(1)] that Suc.IH by blast
    then show ?thesis by (simp add: r(2) list_all_iff)
  next
    case NByteArray
    with Suc(2) show ?thesis by (auto simp: and_then_Inr_iff list_all_iff byte_value_range [simplified])
  qed (use Suc(2) in \<open>fastforce simp: and_then_Inr_iff\<close>)+
qed simp

lemma write_signed_Inr: "write_signed n v = Inr bs \<Longrightarrow> in_range n v"
  by (auto simp: write_signed_def split: if_splits)

lemma write_all_each: "write_all f vs = Inr bs \<Longrightarrow> v \<in> set vs \<Longrightarrow> \<exists>out. f v = Inr out"
  by (induction vs arbitrary: bs) (auto simp: also_write_Inr)

lemma write_elements_each: "write_elements vs depth = Inr bs \<Longrightarrow> v \<in> set vs \<Longrightarrow> \<exists>out. write_payload v depth = Inr out"
  by (induction vs arbitrary: bs) (auto simp: also_write_Inr)

lemma write_entries_each:
  "write_entries es depth = Inr bs \<Longrightarrow> e \<in> set es \<Longrightarrow>
   (\<exists>out. write_string (fst e) = Inr out) \<and> (\<exists>out. write_payload (snd e) depth = Inr out)"
  by (induction es arbitrary: bs) (auto simp: also_write_Inr)

text \<open>What can be written has a text.\<close>

lemma written_textual:
  "write_payload t depth = Inr bs \<Longrightarrow> named t \<Longrightarrow> bytes_fit t \<Longrightarrow> textual (513 - depth) t"
proof (induction t arbitrary: depth bs)
  case (TList element vs)
  then obtain levels where l: "513 - depth = Suc levels" "513 - (depth + 1) = levels" using write_payload_levels by blast
  from TList.prems(1) obtain out where "write_elements vs (depth + 1) = Inr out"
    by (auto simp: write_payload.simps [of "TList _ _"] also_write_Inr split: if_splits)
  then have "textual levels v" if "v \<in> set vs" for v
  proof -
    from write_elements_each [OF \<open>write_elements vs (depth + 1) = Inr out\<close> that] obtain o' where "write_payload v (depth + 1) = Inr o'" by blast
    from TList.IH [OF that this] show ?thesis using TList.prems(2,3) that by (simp add: list_all_iff l(2) [symmetric])
  qed
  then show ?case by (simp add: l list_all_iff)
next
  case (TCompound es)
  then obtain levels where l: "513 - depth = Suc levels" "513 - (depth + 1) = levels" using write_payload_levels by blast
  from TCompound.prems(1) obtain out where "write_entries es (depth + 1) = Inr out"
    by (auto simp: write_payload.simps [of "TCompound _"] also_write_Inr split: if_splits)
  then have "textual levels (snd e)" if "e \<in> set es" for e
  proof -
    from write_entries_each [OF \<open>write_entries es (depth + 1) = Inr out\<close> that] obtain o' where
      "write_payload (snd e) (depth + 1) = Inr o'" by blast
    from TCompound.IH [OF that _ this] show ?thesis
      using TCompound.prems(2,3) that by (cases e) (force simp: list_all_iff l(2) [symmetric])
  qed
  then show ?case using TCompound.prems(2) by (simp add: l list_all_iff)
qed (frule write_payload_levels, elim exE conjE,
  (auto simp: write_payload.simps also_write_Inr list_all_iff write_float_def write_double_def
    dest!: write_signed_Inr dest: write_all_each split: if_splits)[1])+

section \<open>Saving what was opened\<close>

lemma writable_list:
  assumes "write_payload (TList element vs) depth = Inr bs"
  shows "\<forall>v\<in>set vs. tag_type v = list_element_type vs"
    and "list_tag binary (map (as_parsed binary) vs) = TList (Elements (list_element_type vs)) (map (as_parsed binary) vs)"
proof -
  show same: "\<forall>v\<in>set vs. tag_type v = list_element_type vs"
    using assms by (auto simp: write_payload.simps [of "TList _ _"] split: if_splits)
  have "list_element_type (map (as_parsed binary) vs) = list_element_type vs"
    by (cases vs) (simp_all add: list_element_type_def)
  with same show "list_tag binary (map (as_parsed binary) vs) = TList (Elements (list_element_type vs)) (map (as_parsed binary) vs)"
    by (simp add: list_tag_def)
qed

lemma zero_fits: "finite_double 0" "finite_float (narrow 0)"
  by (simp_all add: finite_double_def double_magnitude_def finite_float_def float_magnitude_def narrow_def
      narrow_magnitude_def round_even_def)

lemma as_parsed_writable:
  "write_payload t depth = Inr bs \<Longrightarrow> \<exists>out. write_payload (as_parsed binary t) depth = Inr out"
proof (induction t arbitrary: depth bs)
  case (TFloat v)
  then show ?case by (auto simp: write_payload.simps write_float_def unsigned_zero_def zero_fits split: if_splits)
next
  case (TDouble v)
  then show ?case by (auto simp: write_payload.simps write_double_def unsigned_zero_def zero_fits split: if_splits)
next
  case (TList element vs)
  note same = writable_list(1) [OF TList.prems] and tag = writable_list(2) [OF TList.prems, of binary]
  from TList.prems obtain a b where ab: "\<not> depth > max_nbt_depth" "write_length (length vs) = Inr a"
      "write_elements vs (depth + 1) = Inr b"
    by (auto simp: write_payload.simps [of "TList _ _"] also_write_Inr split: if_splits)
  have "\<exists>out. write_payload v (depth + 1) = Inr out" if v: "v \<in> set (map (as_parsed binary) vs)" for v
  proof -
    obtain w where w: "v = as_parsed binary w" "w \<in> set vs" using v by auto
    with TList.IH [OF w(2)] write_elements_each [OF ab(3) w(2)] show ?thesis by blast
  qed
  from write_elements_ok [OF this] obtain c where "write_elements (map (as_parsed binary) vs) (depth + 1) = Inr c" by blast
  moreover obtain d where "write_type (list_element_type vs) = Inr d" using write_type_ok by blast
  moreover have "list_element_type (map (as_parsed binary) vs) = list_element_type vs"
    by (cases vs) (simp_all add: list_element_type_def)
  ultimately show ?case using ab same unfolding as_parsed.simps tag
    by (simp add: write_payload.simps [of "TList _ _"] also_write_def)
next
  case (TCompound es)
  from TCompound.prems obtain b where ab: "\<not> depth > max_nbt_depth" "write_entries es (depth + 1) = Inr b"
    by (auto simp: write_payload.simps [of "TCompound _"] also_write_Inr split: if_splits)
  have "(\<exists>out. write_string (fst e) = Inr out) \<and> (\<exists>out. write_payload (snd e) (depth + 1) = Inr out)"
    if e: "e \<in> set (map (\<lambda>e. (fst e, as_parsed binary (snd e))) es)" for e
  proof -
    obtain w where w: "e = (fst w, as_parsed binary (snd w))" "w \<in> set es" using e by auto
    note each = write_entries_each [OF ab(2) w(2)]
    then obtain o' where "write_payload (snd w) (depth + 1) = Inr o'" by blast
    from TCompound.IH [OF w(2) _ this] have "\<exists>out. write_payload (as_parsed binary (snd w)) (depth + 1) = Inr out"
      by (cases w) force
    with each w(1) show ?thesis by simp
  qed
  from write_entries_ok [OF this] obtain c where
    "write_entries (map (\<lambda>e. (fst e, as_parsed binary (snd e))) es) (depth + 1) = Inr c" by blast
  moreover obtain d where "write_type NEnd = Inr d" using write_type_ok by blast
  ultimately show ?case using ab by (simp add: write_payload.simps [of "TCompound _"] also_write_def)
qed auto

lemma as_parsed_fits: "write_payload t depth = Inr bs \<Longrightarrow> floats_fit t \<Longrightarrow> floats_fit (as_parsed binary t)"
proof (induction t arbitrary: depth bs)
  case (TFloat v)
  then show ?case by (simp add: unsigned_zero_def zero_fits)
next
  case (TList element vs)
  from TList.prems obtain b where "write_elements vs (depth + 1) = Inr b"
    by (auto simp: write_payload.simps [of "TList _ _"] also_write_Inr split: if_splits)
  then have "floats_fit (as_parsed binary v)" if "v \<in> set vs" for v
    using TList.IH [OF that] write_elements_each [OF _ that] TList.prems(2) that by (metis floats_fit.simps(2))
  then show ?case unfolding as_parsed.simps writable_list(2) [OF TList.prems(1)] by simp
next
  case (TCompound es)
  from TCompound.prems obtain b where b: "write_entries es (depth + 1) = Inr b"
    by (auto simp: write_payload.simps [of "TCompound _"] also_write_Inr split: if_splits)
  have "floats_fit (as_parsed binary (snd e))" if "e \<in> set es" for e
  proof -
    from write_entries_each [OF b that] obtain o' where "write_payload (snd e) (depth + 1) = Inr o'" by blast
    from TCompound.IH [OF that _ this] show ?thesis using TCompound.prems(2) that by (cases e) force
  qed
  then show ?case by simp
qed simp_all

lemma as_parsed_stored: "write_payload t depth = Inr bs \<Longrightarrow> plain_zeros t \<Longrightarrow> stored (as_parsed binary t) = stored t"
proof (induction t arbitrary: depth bs)
  case (TList element vs)
  from TList.prems obtain b where b: "write_elements vs (depth + 1) = Inr b"
    by (auto simp: write_payload.simps [of "TList _ _"] also_write_Inr split: if_splits)
  have "stored (as_parsed binary v) = stored v" if "v \<in> set vs" for v
    using TList.IH [OF that] write_elements_each [OF b that] TList.prems(2) that by (auto simp: list_all_iff)
  moreover have "list_element_type (map (as_parsed binary) vs) = list_element_type vs"
    by (cases vs) (simp_all add: list_element_type_def)
  ultimately show ?case unfolding as_parsed.simps writable_list(2) [OF TList.prems(1)] by simp
next
  case (TCompound es)
  from TCompound.prems obtain b where b: "write_entries es (depth + 1) = Inr b"
    by (auto simp: write_payload.simps [of "TCompound _"] also_write_Inr split: if_splits)
  have "stored (as_parsed binary (snd e)) = stored (snd e)" if "e \<in> set es" for e
  proof -
    from write_entries_each [OF b that] obtain o' where "write_payload (snd e) (depth + 1) = Inr o'" by blast
    from TCompound.IH [OF that _ this] show ?thesis using TCompound.prems(2) that by (cases e) (force simp: list_all_iff)
  qed
  then show ?case by simp
qed auto

lemma decoded_root:
  assumes "decode_nbt bs = Inr root"
  obtains out name where "write_payload (nn_tag root) 0 = Inr out" "write_string (nn_name root) = Inr name"
    "floats_fit (nn_tag root)" "bytes_fit (nn_tag root)"
proof -
  from assms obtain t r1 r2 where r: "read_string r1 = Inr (nn_name root, r2)"
      "read_payload (length bs) 513 t r2 = Inr (nn_tag root, [])"
    by (auto simp: decode_nbt_def and_then_Inr_iff max_nbt_depth_def simp del: read_payload.simps split: if_splits)
  then show ?thesis
    using that payload_read [OF r(2)] read_payload_bytes_fit [OF r(2)] read_string_Inr(2) [OF r(1)] by auto
qed

lemma nbt_path_only:
  assumes "is_binary_nbt_path us"
  shows "\<not> has_ending ''.gz'' us" "\<not> has_ending ''.log.gz'' us" "\<not> has_ending ''.snbt'' us"
proof -
  have "\<not> has_ending s us" if "s \<in> {''.gz'', ''.log.gz'', ''.snbt''}" for s
  proof
    assume s: "has_ending s us"
    from assms obtain n where n: "n \<in> {''.dat'', ''.dat_old'', ''.nbt''}" "has_ending n us"
      by (auto simp: is_binary_nbt_path_def)
    with s have "suffix (text_of s) (text_of n) \<or> suffix (text_of n) (text_of s)"
      unfolding has_ending_def by (metis suffix_same_cases)
    with n(1) that show False by (auto simp: suffix_def append_eq_Cons_conv Cons_eq_append_conv)
  qed
  then show "\<not> has_ending ''.gz'' us" "\<not> has_ending ''.log.gz'' us" "\<not> has_ending ''.snbt'' us" by blast+
qed

lemma prepare_nbt:
  assumes "is_binary_nbt_path lower"
    and "(if is_gzip current then gunzip current else Some current) = Some plain" and "decode_nbt plain = Inr root"
  shows "prepare_file_write gzip gunzip lower current content force =
    (case and_then (map_sum InvalidSnbtText id (parse_snbt content True)) (\<lambda>tag.
        map_sum InvalidSnbtTag id (encode_nbt \<lparr>nn_name = nn_name root, nn_tag = tag\<rparr>)) of
       Inl failure \<Rightarrow> if force then Inr (if is_gzip current then gzip (utf8_encode content) else utf8_encode content) else Inl failure
     | Inr bs \<Rightarrow> Inr (if is_gzip current then gzip bs else bs))"
  using nbt_path_only [OF assms(1)] assms
  by (auto simp: prepare_file_write_def try_decode_nbt_def Let_def split: sum.split)

lemma opened_text:
  assumes "is_binary_nbt_path lower"
    and "(if is_gzip current then gunzip current else Some current) = Some plain" and "decode_nbt plain = Inr root"
    and "named (nn_tag root)"
  obtains us out where "format_snbt (nn_tag root) 2 = Some us"
    "prepare_file_write gzip gunzip lower current us force = Inr (if is_gzip current then gzip out else out)"
    "decode_nbt out = Inr (stored_root (root\<lparr>nn_tag := as_parsed True (nn_tag root)\<rparr>))"
    "plain_zeros (nn_tag root) \<Longrightarrow> stored_root (root\<lparr>nn_tag := as_parsed True (nn_tag root)\<rparr>) = stored_root root"
proof -
  let ?tag = "as_parsed True (nn_tag root)"
  from decoded_root [OF assms(3)] obtain o1 name where w: "write_payload (nn_tag root) 0 = Inr o1"
      "write_string (nn_name root) = Inr name" "floats_fit (nn_tag root)" "bytes_fit (nn_tag root)" .
  have "textual 513 (nn_tag root)" using written_textual [OF w(1) assms(4) w(4)] by simp
  from format_parse [OF this, of 2 True] obtain us where us: "format_snbt (nn_tag root) 2 = Some us"
      "parse_snbt us True = Inr ?tag" by blast
  obtain o2 where o2: "write_payload ?tag 0 = Inr o2" using as_parsed_writable [OF w(1)] by blast
  obtain tb where "write_type (tag_type ?tag) = Inr tb" using write_type_ok by blast
  with o2 w(2) obtain out where out: "encode_nbt \<lparr>nn_name = nn_name root, nn_tag = ?tag\<rparr> = Inr out"
    by (auto simp: encode_nbt_def also_write_Inr)
  have root: "\<lparr>nn_name = nn_name root, nn_tag = ?tag\<rparr> = root\<lparr>nn_tag := ?tag\<rparr>" by (cases root) simp
  show ?thesis
  proof (rule that)
    show "format_snbt (nn_tag root) 2 = Some us" by (rule us(1))
    show "prepare_file_write gzip gunzip lower current us force = Inr (if is_gzip current then gzip out else out)"
      using prepare_nbt [where gunzip = gunzip and current = current, OF assms(1-3), of gzip us force] us(2) out by simp
    show "decode_nbt out = Inr (stored_root (root\<lparr>nn_tag := ?tag\<rparr>))"
      using encode_decode [OF out] as_parsed_fits [OF w(1,3)] by (simp add: root)
    show "stored_root (root\<lparr>nn_tag := ?tag\<rparr>) = stored_root root" if "plain_zeros (nn_tag root)"
      using as_parsed_stored [OF w(1) that] by (simp add: stored_root_def)
  qed
qed


definition demo_file :: "byte list" where
  "demo_file = [10, 0, 0, 9, 0, 1, 120, 2, 0, 0, 0, 2, 255, 254, 1, 44, 0]"

lemma demo_file_read:
  "\<not> is_gzip demo_file" "decode_nbt demo_file = Inr demo_nbt" "stored_root demo_nbt = demo_nbt" "length demo_file = 17"
proof -
  have "stored_text [] = []" "stored_text [120] = [120]"
    by (simp_all add: stored_text_def drop_bom_def units_of_points_def point_units_def unit_of_def unit_point_def
        high_surrogate_def low_surrogate_def)
  then show stored: "stored_root demo_nbt = demo_nbt"
    by (simp add: stored_root_def demo_nbt_def list_element_type_def)
  then show "decode_nbt demo_file = Inr demo_nbt"
    using encode_decode [OF demo_nbt_encoded] by (simp add: demo_file_def demo_nbt_def)
  show "\<not> is_gzip demo_file" "length demo_file = 17" by (simp_all add: is_gzip_def demo_file_def)
qed




end
