(* ===== verification/Schedules.thy ===== *)
theory Schedules
  imports Prelude "HOL-Library.Word" "HOL-Library.Sublist" Js_Decimal Plans Power_State
begin

unbundle bit_operations_syntax

text \<open>
  \<open>packages/contracts/src/schedules.ts\<close>: what a schedule is, which of its steps reach which of its
  targets, and the identifiers made from its parts. Times are milliseconds; the parser of cron
  expressions, the check of a time zone and \<open>Date.toISOString\<close> are arguments. The characters of
  identifiers are code units below 256.
\<close>

section \<open>Steps and targets\<close>

datatype target_kind = TKInstance | TKDatabase | TKApp | TKRelay

record schedule_target =
  tg_id :: string
  tg_kind :: target_kind
  tg_name :: string
  tg_relay_id :: string

datatype backup_mode = FullBackup | Incremental

datatype step_destination = LocalStep | StorageStep string

datatype wait_unit = Milliseconds | Seconds | Minutes | Hours | Days

text \<open>
  Where a projected backup goes: a local folder, a restic repository or an S3 bucket, whose
  settings only pass through, apart from the prefix of its object keys.
\<close>

datatype deployed_destination = DeployedLocal | DeployedRestic string | DeployedS3 string string

datatype execution_kind = XInstance | XDatabase | XRelay | XApp | XVolume

record backup_execution =
  bx_destination :: "deployed_destination option"
  bx_max_bytes :: "nat option"
  bx_mode :: backup_mode
  bx_refusal :: "string option"
  bx_repository_id :: "string option"
  bx_app_id :: "string option"
  bx_target_id :: string
  bx_target_kind :: execution_kind

record command_step =
  cm_authorized_targets :: bool
  cm_command :: string
  cm_id :: string
  cm_services :: "(string \<times> string) list option"
  cm_target_keys :: "string list option"

record backup_step =
  bu_stopped :: bool
  bu_destination :: step_destination
  bu_id :: string
  bu_mode :: backup_mode
  bu_name :: string
  bu_target_keys :: "string list option"
  bu_executions :: "backup_execution list"

record power_step =
  pw_action :: instance_power_action
  pw_authorized_targets :: bool
  pw_id :: string
  pw_target_keys :: "string list option"

record wait_step =
  wt_duration :: nat
  wt_id :: string
  wt_unit :: wait_unit

datatype schedule_action =
    CommandStep command_step
  | BackupStep backup_step
  | PowerStep power_step
  | WaitStep wait_step

fun action_id :: "schedule_action \<Rightarrow> string" where
  "action_id (CommandStep c) = cm_id c"
| "action_id (BackupStep b) = bu_id b"
| "action_id (PowerStep p) = pw_id p"
| "action_id (WaitStep w) = wt_id w"

fun action_target_keys :: "schedule_action \<Rightarrow> string list option" where
  "action_target_keys (CommandStep c) = cm_target_keys c"
| "action_target_keys (BackupStep b) = bu_target_keys b"
| "action_target_keys (PowerStep p) = pw_target_keys p"
| "action_target_keys (WaitStep w) = None"

fun action_authorized :: "schedule_action \<Rightarrow> bool" where
  "action_authorized (CommandStep c) = cm_authorized_targets c"
| "action_authorized (PowerStep p) = pw_authorized_targets p"
| "action_authorized _ = False"

definition is_wait :: "schedule_action \<Rightarrow> bool" where
  "is_wait a = (case a of WaitStep _ \<Rightarrow> True | _ \<Rightarrow> False)"

record schedule_definition =
  sch_id :: string
  sch_revision :: nat
  sch_generation :: "nat option"
  sch_actions :: "schedule_action list"
  sch_continue_on_failure :: bool
  sch_cron :: string
  sch_enabled :: bool
  sch_name :: string
  sch_targets :: "schedule_target list"
  sch_timezone :: string

section \<open>Cron expressions\<close>

definition js_space :: "char \<Rightarrow> bool" where
  "js_space c = (let n = of_char c :: nat in 9 \<le> n \<and> n \<le> 13 \<or> n = 32 \<or> n = 160)"

definition trim :: "string \<Rightarrow> string" where
  "trim s = rev (dropWhile js_space (rev (dropWhile js_space s)))"

definition lower_char :: "char \<Rightarrow> char" where
  "lower_char c = (let n = of_char c :: nat in if 65 \<le> n \<and> n \<le> 90 then char_of (n + 32) else c)"

definition schedule_cron_aliases :: "(string \<times> string) list" where
  "schedule_cron_aliases =
     [(''daily'', ''0 0 * * *''), (''hourly'', ''0 * * * *''), (''monthly'', ''0 0 1 * *''), (''weekly'', ''0 0 * * 0'')]"

definition normalize_schedule_cron :: "string \<Rightarrow> string" where
  "normalize_schedule_cron value =
     (case map_of schedule_cron_aliases (map lower_char (trim value)) of Some cron \<Rightarrow> cron | None \<Rightarrow> trim value)"

text \<open>The length of \<open>split(/\s+/)\<close>: one more than the runs of white space.\<close>

fun space_runs :: "bool \<Rightarrow> string \<Rightarrow> nat" where
  "space_runs within [] = 0"
| "space_runs within (c # cs) = (if js_space c \<and> \<not> within then 1 else 0) + space_runs (js_space c) cs"

definition validate_schedule_cron :: "(string \<Rightarrow> bool) \<Rightarrow> (string \<Rightarrow> string \<Rightarrow> bool) \<Rightarrow> string \<Rightarrow> string \<Rightarrow> bool" where
  "validate_schedule_cron zone_known cron_parses value timezone =
     (zone_known timezone \<and>
      (let normalized = normalize_schedule_cron value in space_runs False normalized + 1 = 5 \<and> cron_parses normalized timezone))"

section \<open>Which steps reach which targets\<close>

fun kind_text :: "target_kind \<Rightarrow> string" where
  "kind_text TKInstance = ''instance''"
| "kind_text TKDatabase = ''database''"
| "kind_text TKApp = ''app''"
| "kind_text TKRelay = ''relay''"

definition schedule_target_key :: "schedule_target \<Rightarrow> string" where
  "schedule_target_key t = tg_relay_id t @ '':'' @ kind_text (tg_kind t) @ '':'' @ tg_id t"

fun schedule_action_supports_target :: "schedule_action \<Rightarrow> schedule_target \<Rightarrow> bool" where
  "schedule_action_supports_target (WaitStep w) t = True"
| "schedule_action_supports_target (CommandStep c) t = (tg_kind t \<noteq> TKRelay)"
| "schedule_action_supports_target (PowerStep p) t = (tg_kind t \<noteq> TKRelay)"
| "schedule_action_supports_target (BackupStep b) t = (bu_mode b = Incremental \<longrightarrow> tg_kind t = TKInstance)"

definition schedule_action_needs_named_target :: "schedule_action \<Rightarrow> schedule_target \<Rightarrow> bool" where
  "schedule_action_needs_named_target a t =
     ((tg_kind t = TKDatabase \<or> tg_kind t = TKApp) \<and>
      (case a of CommandStep _ \<Rightarrow> True | PowerStep p \<Rightarrow> pw_action p = PowKill | _ \<Rightarrow> False))"

definition schedule_action_applies_to_target :: "schedule_action \<Rightarrow> schedule_target \<Rightarrow> bool" where
  "schedule_action_applies_to_target a t =
     (if is_wait a then True
      else if \<not> schedule_action_supports_target a t then False
      else if schedule_action_needs_named_target a t
      then action_authorized a \<and> (case action_target_keys a of None \<Rightarrow> False | Some keys \<Rightarrow> schedule_target_key t \<in> set keys)
      else (case action_target_keys a of None \<Rightarrow> True | Some keys \<Rightarrow> schedule_target_key t \<in> set keys))"

fun schedule_action_for_save :: "schedule_action \<Rightarrow> schedule_action" where
  "schedule_action_for_save (CommandStep c) = CommandStep (c\<lparr>cm_authorized_targets := True\<rparr>)"
| "schedule_action_for_save (PowerStep p) = PowerStep (p\<lparr>pw_authorized_targets := True\<rparr>)"
| "schedule_action_for_save a = a"

definition schedule_actions_for_save :: "schedule_action list \<Rightarrow> schedule_action list" where
  "schedule_actions_for_save as = map schedule_action_for_save as"

section \<open>Checking a definition\<close>

datatype schedule_issue =
    CronInvalid
  | ActionIdsRepeat
  | TargetsRepeat
  | ServiceMissing nat string
  | ServiceUnknown nat
  | OverrideRepeats nat
  | OverrideUnknown nat

text \<open>The services of a command: one for each App it runs on, and none besides.\<close>

definition service_issues :: "nat \<Rightarrow> schedule_target list \<Rightarrow> schedule_action \<Rightarrow> schedule_issue list" where
  "service_issues i targets a =
     (case a of
        CommandStep c \<Rightarrow>
          let app_targets = filter (\<lambda>t. tg_kind t = TKApp \<and> schedule_action_applies_to_target a t) targets;
              app_keys = map schedule_target_key app_targets;
              services = (case cm_services c of None \<Rightarrow> [] | Some m \<Rightarrow> m) in
          map (\<lambda>t. ServiceMissing i (tg_name t))
            (filter (\<lambda>t. \<not> truthy (map_of services (schedule_target_key t))) app_targets) @
          map (\<lambda>k. ServiceUnknown i) (filter (\<lambda>k. k \<notin> set app_keys) (map fst services))
      | _ \<Rightarrow> [])"

fun override_issues :: "nat \<Rightarrow> string list \<Rightarrow> string list \<Rightarrow> string list \<Rightarrow> schedule_issue list" where
  "override_issues i known seen [] = []"
| "override_issues i known seen (k # ks) =
     (if k \<in> set seen then [OverrideRepeats i] else []) @ (if k \<notin> set known then [OverrideUnknown i] else []) @
     override_issues i known (k # seen) ks"

definition action_issues :: "schedule_target list \<Rightarrow> nat \<times> schedule_action \<Rightarrow> schedule_issue list" where
  "action_issues targets ia =
     (case ia of (i, a) \<Rightarrow>
        service_issues i targets a @
        (case action_target_keys a of
           None \<Rightarrow> []
         | Some keys \<Rightarrow> override_issues i (map schedule_target_key targets) [] keys))"

definition schedule_issues :: "(string \<Rightarrow> bool) \<Rightarrow> (string \<Rightarrow> string \<Rightarrow> bool) \<Rightarrow> schedule_definition \<Rightarrow> schedule_issue list" where
  "schedule_issues zone_known cron_parses s =
     (if validate_schedule_cron zone_known cron_parses (sch_cron s) (sch_timezone s) then [] else [CronInvalid]) @
     (if length (dedup (map action_id (sch_actions s))) \<noteq> length (sch_actions s) then [ActionIdsRepeat] else []) @
     (if length (dedup (map schedule_target_key (sch_targets s))) \<noteq> length (sch_targets s) then [TargetsRepeat] else []) @
     concat (map (action_issues (sch_targets s)) (List.enumerate 0 (sch_actions s)))"

section \<open>Identifiers\<close>

datatype id_part = TextPart string | NumberPart int

definition digit_char :: "nat \<Rightarrow> char" where
  "digit_char d = char_of (48 + d)"

fun part_text :: "id_part \<Rightarrow> string" where
  "part_text (TextPart s) = s"
| "part_text (NumberPart v) = (if v < 0 then ''-'' else []) @ map digit_char (dec_digits (nat \<bar>v\<bar>))"

primrec join_parts :: "string list \<Rightarrow> string" where
  "join_parts [] = []"
| "join_parts (x # xs) = x @ (if xs = [] then [] else CHR 0x1F # join_parts xs)"

definition stable_seeds :: "32 word list" where
  "stable_seeds = [0x811c9dc5, 0x9e3779b9, 0x85ebca6b, 0xc2b2ae35]"

definition stable_hash :: "string \<Rightarrow> 32 word \<Rightarrow> 32 word" where
  "stable_hash s seed = foldl (\<lambda>h c. (h XOR of_char c) * 0x01000193) seed s"

definition hex_char :: "nat \<Rightarrow> char" where
  "hex_char d = (if d < 10 then char_of (48 + d) else char_of (87 + d))"

text \<open>\<open>toString(16).padStart(8, "0")\<close>, which is as long for any 32 bits.\<close>

primrec hex_text :: "nat \<Rightarrow> nat \<Rightarrow> string" where
  "hex_text 0 v = []"
| "hex_text (Suc n) v = hex_text n (v div 16) @ [hex_char (v mod 16)]"

definition schedule_stable_id :: "id_part list \<Rightarrow> string" where
  "schedule_stable_id parts =
     (let value = join_parts (map part_text parts) in
      concat (map (\<lambda>seed. hex_text 8 (unat (stable_hash value seed))) stable_seeds))"

definition hex_char_value :: "char \<Rightarrow> nat" where
  "hex_char_value c = (let n = of_char c in if n < 58 then n - 48 else n - 87)"

definition schedule_deterministic_uuid :: "id_part list \<Rightarrow> string" where
  "schedule_deterministic_uuid parts =
     (let id = (schedule_stable_id parts)[12 := CHR ''5''];
          value = id[16 := hex_char (hex_char_value (id ! 16) mod 4 + 8)] in
      take 8 value @ ''-'' @ take 4 (drop 8 value) @ ''-'' @ take 4 (drop 12 value) @ ''-'' @
      take 4 (drop 16 value) @ ''-'' @ drop 20 value)"

section \<open>Names of backups\<close>

record backup_name_context =
  bn_backup_id :: string
  bn_instance_id :: string
  bn_run_id :: string
  bn_schedule_id :: string
  bn_schedule_name :: string
  bn_timestamp :: int

definition replace_char :: "char \<Rightarrow> char \<Rightarrow> string \<Rightarrow> string" where
  "replace_char a b s = map (\<lambda>c. if c = a then b else c) s"

definition backup_name_tags :: "(int \<Rightarrow> string) \<Rightarrow> backup_name_context \<Rightarrow> (string \<times> string) list" where
  "backup_name_tags iso_text c =
     (let t = iso_text (bn_timestamp c);
          timestamp = replace_char CHR ''-'' CHR ''.'' (take 10 t) @ ''-'' @
            replace_char CHR '':'' CHR ''.'' (take 8 (drop 11 t)) @ ''Z'' in
      [(''<backup_id>'', bn_backup_id c), (''<instance_id>'', bn_instance_id c), (''<run_id>'', bn_run_id c),
       (''<schedule>'', bn_schedule_name c), (''<schedule_id>'', bn_schedule_id c), (''<timestamp>'', timestamp)])"

function replace_tags :: "(string \<times> string) list \<Rightarrow> string \<Rightarrow> string" where
  "replace_tags tags [] = []"
| "replace_tags tags (c # cs) =
     (case find (\<lambda>t. fst t \<noteq> [] \<and> prefix (fst t) (c # cs)) tags of
        Some t \<Rightarrow> snd t @ replace_tags tags (drop (length (fst t)) (c # cs))
      | None \<Rightarrow> c # replace_tags tags cs)"
  by pat_completeness auto
termination
  by (relation "measure (\<lambda>(tags, s). length s)") (auto simp: find_Some_iff)

definition resolve_schedule_backup_name :: "(int \<Rightarrow> string) \<Rightarrow> string \<Rightarrow> backup_name_context \<Rightarrow> string" where
  "resolve_schedule_backup_name iso_text template c = take 120 (replace_tags (backup_name_tags iso_text c) template)"

end
