(* ===== verification/Schedule_State.thy ===== *)
theory Schedule_State
  imports Schedules "HOL-Library.Option_ord" "HOL-Library.Product_Lexorder"
begin

text \<open>
  \<open>apps/relay/src/effect/schedule-state.ts\<close>: the Relay's tables of schedules, of removed schedules
  (tombstones) and of runs. A definition is stored as a document of a type of its own; writing it
  (\<open>enc\<close>), reading it (\<open>dec\<close>, which may find it unreadable) and the generation in it (\<open>gen\<close>) are
  arguments, as are the cron parser (\<open>occurs\<close>: the next occurrence after a time) and the rows a
  storage failure keeps from being written (\<open>broken\<close>).
\<close>

section \<open>Tables\<close>

datatype run_status = RunRunning | RunSucceeded | RunPartial | RunFailed | RunNoop | RunInterrupted | RunMissed

record 'j schedule_row =
  sr_revision :: nat
  sr_enabled :: bool
  sr_next_run_at :: "int option"
  sr_definition :: 'j

text \<open>A run; \<open>'r\<close> is what it holds of its attempts.\<close>

record 'r schedule_run =
  run_id :: string
  run_schedule_id :: string
  run_revision :: nat
  run_scheduled_at :: int
  run_started_at :: int
  run_finished_at :: int
  run_status_of :: run_status
  run_sequence :: "'r list"
  run_targets :: "'r list"

text \<open>A row of the table, whose finishing time is null while it runs.\<close>

record 'r run_row =
  rw_run_id :: string
  rw_schedule_id :: string
  rw_revision :: nat
  rw_scheduled_at :: int
  rw_started_at :: int
  rw_finished_at :: "int option"
  rw_status :: run_status
  rw_sequence :: "'r list"
  rw_targets :: "'r list"

record ('j, 'r) schedule_tables =
  st_schedules :: "(string \<times> 'j schedule_row) list"
  st_tombstones :: "(string \<times> nat) list"
  st_runs :: "'r run_row list"

record deployment =
  dp_generation :: "nat option"
  dp_revision :: nat
  dp_next_run_at :: "int option"
  dp_schedule_id :: string

definition history_limit :: nat where
  "history_limit = 1000"

definition run_values :: "'r schedule_run \<Rightarrow> 'r run_row" where
  "run_values r = \<lparr>rw_run_id = run_id r, rw_schedule_id = run_schedule_id r, rw_revision = run_revision r,
     rw_scheduled_at = run_scheduled_at r, rw_started_at = run_started_at r,
     rw_finished_at = (if run_status_of r = RunRunning then None else Some (run_finished_at r)),
     rw_status = run_status_of r, rw_sequence = run_sequence r, rw_targets = run_targets r\<rparr>"

definition read_run :: "'r run_row \<Rightarrow> 'r schedule_run" where
  "read_run w = \<lparr>run_id = rw_run_id w, run_schedule_id = rw_schedule_id w, run_revision = rw_revision w,
     run_scheduled_at = rw_scheduled_at w, run_started_at = rw_started_at w,
     run_finished_at = (case rw_finished_at w of Some t \<Rightarrow> t | None \<Rightarrow> rw_started_at w),
     run_status_of = rw_status w, run_sequence = rw_sequence w, run_targets = rw_targets w\<rparr>"

text \<open>\<open>INSERT ... ON CONFLICT DO NOTHING\<close>: a run's id is unique, and so are its schedule and time.\<close>

definition run_conflicts :: "'r run_row \<Rightarrow> 'r run_row list \<Rightarrow> bool" where
  "run_conflicts w ws \<longleftrightarrow>
     list_ex (\<lambda>x. rw_run_id x = rw_run_id w \<or> rw_schedule_id x = rw_schedule_id w \<and> rw_scheduled_at x = rw_scheduled_at w) ws"

definition insert_run :: "'r schedule_run \<Rightarrow> 'r run_row list \<Rightarrow> 'r run_row list" where
  "insert_run r ws = (if run_conflicts (run_values r) ws then ws else ws @ [run_values r])"

text \<open>
  The same, but a run of that id is updated; a run of another id at the same time of the same
  schedule is an error.
\<close>

definition write_run :: "'r schedule_run \<Rightarrow> 'r run_row list \<Rightarrow> 'r run_row list option" where
  "write_run r ws =
     (let w = run_values r in
      if list_ex (\<lambda>x. rw_run_id x = rw_run_id w) ws then
        Some (map (\<lambda>x. if rw_run_id x = rw_run_id w
          then x\<lparr>rw_finished_at := rw_finished_at w, rw_status := rw_status w, rw_sequence := rw_sequence w, rw_targets := rw_targets w\<rparr>
          else x) ws)
      else if run_conflicts w ws then None
      else Some (ws @ [w]))"

definition run_order :: "'r run_row \<Rightarrow> int option \<times> string" where
  "run_order w = (rw_finished_at w, rw_run_id w)"

definition finished_runs :: "'r run_row list \<Rightarrow> 'r run_row list" where
  "finished_runs ws = rev (sort_key run_order (filter (\<lambda>w. rw_status w \<noteq> RunRunning) ws))"

definition prune_runs :: "'r run_row list \<Rightarrow> 'r run_row list" where
  "prune_runs ws =
     (let dropped = map rw_run_id (drop history_limit (finished_runs ws)) in filter (\<lambda>w. rw_run_id w \<notin> set dropped) ws)"

section \<open>Schedules\<close>

definition next_run_at :: "('j, 'r) schedule_tables \<Rightarrow> int option" where
  "next_run_at s =
     (case List.map_filter (\<lambda>(i, row). if sr_enabled row then sr_next_run_at row else None) (st_schedules s) of
        [] \<Rightarrow> None | t # ts \<Rightarrow> Some (fold min ts t))"

text \<open>
  \<open>apply\<close>: what a Relay holds moves forward only, by revision and then by generation, and what
  comes late is answered with what is held.
\<close>

definition apply_schedule ::
  "(schedule_definition \<Rightarrow> 'j) \<Rightarrow> ('j \<Rightarrow> nat option) \<Rightarrow> schedule_definition \<Rightarrow> int option \<Rightarrow>
     ('j, 'r) schedule_tables \<Rightarrow> deployment \<times> ('j, 'r) schedule_tables" where
  "apply_schedule enc gen d next_at s =
     (let i = sch_id d;
          put = (\<lparr>dp_generation = sch_generation d, dp_revision = sch_revision d, dp_next_run_at = next_at, dp_schedule_id = i\<rparr>,
            s\<lparr>st_schedules := AList.update i \<lparr>sr_revision = sch_revision d, sr_enabled = sch_enabled d,
                sr_next_run_at = next_at, sr_definition = enc d\<rparr> (st_schedules s),
              st_tombstones := AList.delete i (st_tombstones s)\<rparr>);
          held = (case map_of (st_schedules s) i of
             None \<Rightarrow> put
           | Some row \<Rightarrow>
               let stored = gen (sr_definition row) in
               if sr_revision row > sch_revision d \<or>
                 sr_revision row = sch_revision d \<and> (case stored of Some g \<Rightarrow> g | None \<Rightarrow> 0) > (case sch_generation d of Some g \<Rightarrow> g | None \<Rightarrow> 0)
               then (\<lparr>dp_generation = stored, dp_revision = sr_revision row, dp_next_run_at = sr_next_run_at row, dp_schedule_id = i\<rparr>, s)
               else put) in
      case map_of (st_tombstones s) i of
        None \<Rightarrow> held
      | Some r \<Rightarrow>
          if r \<ge> sch_revision d then (\<lparr>dp_generation = None, dp_revision = r, dp_next_run_at = None, dp_schedule_id = i\<rparr>, s)
          else held)"

definition remove_schedule :: "string \<Rightarrow> nat \<Rightarrow> ('j, 'r) schedule_tables \<Rightarrow> deployment \<times> ('j, 'r) schedule_tables" where
  "remove_schedule i revision s =
     (let deleted = (case map_of (st_tombstones s) i of Some r \<Rightarrow> r | None \<Rightarrow> 0);
          r = max revision deleted;
          dropped = (\<lparr>dp_generation = None, dp_revision = r, dp_next_run_at = None, dp_schedule_id = i\<rparr>,
            s\<lparr>st_schedules := AList.delete i (st_schedules s), st_tombstones := AList.update i r (st_tombstones s)\<rparr>) in
      case map_of (st_schedules s) i of
        Some row \<Rightarrow>
          if sr_revision row > revision
          then (\<lparr>dp_generation = None, dp_revision = sr_revision row, dp_next_run_at = sr_next_run_at row, dp_schedule_id = i\<rparr>, s)
          else dropped
      | None \<Rightarrow> dropped)"

text \<open>
  \<open>importLegacy\<close>: a file of an older Relay wins ties, and a newer revision or deletion in it
  wins too.
\<close>

definition import_schedule ::
  "(schedule_definition \<Rightarrow> 'j) \<Rightarrow> schedule_definition \<times> int option \<Rightarrow> ('j, 'r) schedule_tables \<Rightarrow> ('j, 'r) schedule_tables" where
  "import_schedule enc dn s =
     (case dn of (d, next_at) \<Rightarrow>
        let i = sch_id d;
            buried = (case map_of (st_tombstones s) i of Some r \<Rightarrow> r \<ge> sch_revision d | None \<Rightarrow> False);
            newer = (case map_of (st_schedules s) i of Some row \<Rightarrow> sr_revision row > sch_revision d | None \<Rightarrow> False) in
        s\<lparr>st_schedules := (if buried \<or> newer then st_schedules s
            else AList.update i \<lparr>sr_revision = sch_revision d, sr_enabled = sch_enabled d,
              sr_next_run_at = next_at, sr_definition = enc d\<rparr> (st_schedules s)),
          st_tombstones := (if buried then st_tombstones s else AList.delete i (st_tombstones s))\<rparr>)"

definition import_tombstone :: "string \<times> nat \<Rightarrow> ('j, 'r) schedule_tables \<Rightarrow> ('j, 'r) schedule_tables" where
  "import_tombstone ir s =
     (case ir of (i, r) \<Rightarrow>
        let schedules = (case map_of (st_schedules s) i of
               Some row \<Rightarrow> if sr_revision row \<le> r then AList.delete i (st_schedules s) else st_schedules s
             | None \<Rightarrow> st_schedules s) in
        s\<lparr>st_schedules := schedules,
          st_tombstones := (if map_of schedules i \<noteq> None then st_tombstones s
            else AList.update i (case map_of (st_tombstones s) i of Some r' \<Rightarrow> max r' r | None \<Rightarrow> r) (st_tombstones s))\<rparr>)"

definition import_legacy ::
  "(schedule_definition \<Rightarrow> 'j) \<Rightarrow> (schedule_definition \<times> int option) list \<Rightarrow> (string \<times> nat) list \<Rightarrow> 'r schedule_run list \<Rightarrow>
     ('j, 'r) schedule_tables \<Rightarrow> ('j, 'r) schedule_tables" where
  "import_legacy enc schedules tombstones runs s =
     (let s = fold import_tombstone tombstones (fold (import_schedule enc) schedules s) in
      s\<lparr>st_runs := prune_runs (fold insert_run runs (st_runs s))\<rparr>)"

section \<open>Runs\<close>

record 'r occurrence =
  oc_definition :: schedule_definition
  oc_run :: "'r schedule_run"
  oc_scheduled_at :: int

definition new_run :: "string \<Rightarrow> nat \<Rightarrow> int \<Rightarrow> string \<Rightarrow> int \<Rightarrow> run_status \<Rightarrow> 'r schedule_run" where
  "new_run i revision at relay now status =
     \<lparr>run_id = schedule_stable_id [TextPart i, NumberPart at, TextPart relay], run_schedule_id = i, run_revision = revision,
       run_scheduled_at = at, run_started_at = now, run_finished_at = now, run_status_of = status, run_sequence = [], run_targets = []\<rparr>"

text \<open>
  \<open>claim\<close>: an occurrence that fell due while the Relay was down is recorded as missed. One whose
  time another run took isn't run at all; the schedule moves on either way.
\<close>

definition claim ::
  "string \<times> 'j schedule_row \<Rightarrow> schedule_definition \<Rightarrow> int \<Rightarrow> int \<Rightarrow> int \<Rightarrow> string \<Rightarrow> ('j, 'r) schedule_tables \<Rightarrow>
     'r occurrence option \<times> ('j, 'r) schedule_tables" where
  "claim ir definition next_at now boot_at relay s =
     (case ir of (i, row) \<Rightarrow>
        let at = the (sr_next_run_at row);
            rec0 = new_run i (sr_revision row) at relay now (if at \<le> boot_at then RunMissed else RunRunning);
            taken = run_conflicts (run_values rec0) (st_runs s) in
        (if taken then None else Some \<lparr>oc_definition = definition, oc_run = rec0, oc_scheduled_at = at\<rparr>,
         s\<lparr>st_runs := insert_run rec0 (st_runs s),
           st_schedules := (case map_of (st_schedules s) i of
              Some r \<Rightarrow> AList.update i (r\<lparr>sr_next_run_at := Some next_at\<rparr>) (st_schedules s) | None \<Rightarrow> st_schedules s)\<rparr>))"

definition due_rows :: "int \<Rightarrow> nat \<Rightarrow> ('j, 'r) schedule_tables \<Rightarrow> (string \<times> 'j schedule_row) list" where
  "due_rows now limit s =
     take limit (sort_key (\<lambda>(i, row). (sr_next_run_at row, i))
       (filter (\<lambda>(i, row). sr_enabled row \<and> (case sr_next_run_at row of Some t \<Rightarrow> t \<le> now | None \<Rightarrow> False)) (st_schedules s)))"

record ('j, 'r) claims =
  cl_tables :: "('j, 'r) schedule_tables"
  cl_occurrences :: "'r occurrence list"
  cl_failed :: bool

text \<open>One row: an unreadable one is dropped, so that Hearth deploys it again.\<close>

definition claim_row ::
  "('j \<Rightarrow> schedule_definition option) \<Rightarrow> (string \<Rightarrow> int \<Rightarrow> int option) \<Rightarrow> (string \<Rightarrow> bool) \<Rightarrow> int \<Rightarrow> int \<Rightarrow> string \<Rightarrow>
     string \<times> 'j schedule_row \<Rightarrow> ('j, 'r) claims \<Rightarrow> ('j, 'r) claims" where
  "claim_row dec occurs broken now boot_at relay ir c =
     (if broken (fst ir) then c\<lparr>cl_failed := True\<rparr>
      else
        let readable = Option.bind (dec (sr_definition (snd ir))) (\<lambda>d. map_option (\<lambda>t. (d, t)) (occurs (sch_cron d) now)) in
        case readable of
          None \<Rightarrow> c\<lparr>cl_tables := (cl_tables c)\<lparr>st_schedules := AList.delete (fst ir) (st_schedules (cl_tables c))\<rparr>\<rparr>
        | Some (d, next_at) \<Rightarrow>
            (case claim ir d next_at now boot_at relay (cl_tables c) of (claimed, s) \<Rightarrow>
               c\<lparr>cl_tables := s, cl_occurrences := cl_occurrences c @ (case claimed of Some x \<Rightarrow> [x] | None \<Rightarrow> [])\<rparr>))"

record ('j, 'r) due =
  du_occurrences :: "'r occurrence list"
  du_failed :: bool
  du_has_more :: bool

definition claim_due ::
  "('j \<Rightarrow> schedule_definition option) \<Rightarrow> (string \<Rightarrow> int \<Rightarrow> int option) \<Rightarrow> (string \<Rightarrow> bool) \<Rightarrow> int \<Rightarrow> int \<Rightarrow> string \<Rightarrow> nat \<Rightarrow>
     ('j, 'r) schedule_tables \<Rightarrow> ('j, 'r) due \<times> ('j, 'r) schedule_tables" where
  "claim_due dec occurs broken now boot_at relay limit s =
     (let rows = due_rows now limit s;
          c = fold (claim_row dec occurs broken now boot_at relay) rows \<lparr>cl_tables = s, cl_occurrences = [], cl_failed = False\<rparr>;
          s' = cl_tables c;
          missed = list_ex (\<lambda>x. run_status_of (oc_run x) = RunMissed) (cl_occurrences c) in
      (\<lparr>du_occurrences = cl_occurrences c, du_failed = cl_failed c, du_has_more = length rows = limit\<rparr>,
       if missed then s'\<lparr>st_runs := prune_runs (st_runs s')\<rparr> else s'))"

datatype run_now_error = NotDeployed | OutOfDate | Unreadable | RunConflict

definition run_now ::
  "('j \<Rightarrow> schedule_definition option) \<Rightarrow> string \<Rightarrow> nat \<Rightarrow> int \<Rightarrow> string \<Rightarrow> ('j, 'r) schedule_tables \<Rightarrow>
     run_now_error + 'r occurrence \<times> ('j, 'r) schedule_tables" where
  "run_now dec i revision now relay s =
     (case map_of (st_schedules s) i of
        None \<Rightarrow> Inl NotDeployed
      | Some row \<Rightarrow>
          if sr_revision row \<noteq> revision then Inl OutOfDate
          else case dec (sr_definition row) of
            None \<Rightarrow> Inl Unreadable
          | Some definition \<Rightarrow>
              let times = map rw_scheduled_at (filter (\<lambda>w. rw_schedule_id w = i) (st_runs s));
                  latest = (case times of [] \<Rightarrow> 0 | t # ts \<Rightarrow> fold max ts t);
                  earliest = max now (latest + 1);
                  at = (if sr_next_run_at row = Some earliest then earliest + 1 else earliest);
                  rec0 = new_run i (sr_revision row) at relay now RunRunning in
              case write_run rec0 (st_runs s) of
                None \<Rightarrow> Inl RunConflict
              | Some runs \<Rightarrow> Inr (\<lparr>oc_definition = definition, oc_run = rec0, oc_scheduled_at = at\<rparr>, s\<lparr>st_runs := runs\<rparr>))"

definition interrupt_runs :: "int \<Rightarrow> ('j, 'r) schedule_tables \<Rightarrow> ('j, 'r) schedule_tables" where
  "interrupt_runs now s =
     s\<lparr>st_runs := map (\<lambda>w. if rw_status w = RunRunning then w\<lparr>rw_status := RunInterrupted, rw_finished_at := Some now\<rparr> else w) (st_runs s)\<rparr>"

definition record_progress :: "'r schedule_run \<Rightarrow> ('j, 'r) schedule_tables \<Rightarrow> ('j, 'r) schedule_tables" where
  "record_progress r s =
     s\<lparr>st_runs := map (\<lambda>w. if rw_run_id w = run_id r \<and> rw_status w = RunRunning
       then w\<lparr>rw_sequence := run_sequence r, rw_targets := run_targets r\<rparr> else w) (st_runs s)\<rparr>"

definition complete_run :: "'r schedule_run \<Rightarrow> ('j, 'r) schedule_tables \<Rightarrow> ('j, 'r) schedule_tables option" where
  "complete_run r s = map_option (\<lambda>runs. s\<lparr>st_runs := prune_runs runs\<rparr>) (write_run r (st_runs s))"

text \<open>\<open>ORDER BY finished_at IS NOT NULL, finished_at DESC, run_id DESC\<close>: running ones first.\<close>

definition overview_runs :: "'r run_row list \<Rightarrow> 'r run_row list" where
  "overview_runs ws = rev (sort_key (\<lambda>w. (rw_finished_at w = None, run_order w)) ws)"

definition overview ::
  "('j \<Rightarrow> nat option) \<Rightarrow> string list option \<Rightarrow> ('j, 'r) schedule_tables \<Rightarrow> deployment list \<times> 'r schedule_run list" where
  "overview gen ids s =
     (let wanted = (\<lambda>i. case ids of None \<Rightarrow> True | Some is \<Rightarrow> i \<in> set is) in
      (map (\<lambda>(i, row). \<lparr>dp_generation = gen (sr_definition row), dp_revision = sr_revision row,
          dp_next_run_at = sr_next_run_at row, dp_schedule_id = i\<rparr>) (filter (\<lambda>(i, row). wanted i) (st_schedules s)),
       map read_run (take history_limit (overview_runs (filter (\<lambda>w. wanted (rw_schedule_id w)) (st_runs s))))))"

end
