(* ===== verification/Schedule_Runs.thy ===== *)
theory Schedule_Runs
  imports Schedule_State Lanes
begin

text \<open>
  \<open>apps/relay/src/schedules.ts\<close>: how the Relay runs an occurrence of a schedule, as ordered steps
  over its targets. What a step finds outside (the clock, whether the Relay is paused, how the
  calls it makes end) is an argument per step and target. The targets of a step run side by side
  but share nothing, so each has a trace of its own; a step ends before the next one starts.
\<close>

section \<open>Attempts\<close>

datatype attempt_status =
    AttemptSucceeded | AttemptFailed | AttemptSkippedUnsupported | AttemptSkippedMissing | AttemptSkippedPolicy
  | AttemptInterrupted | AttemptNotRun | AttemptUnknown

datatype action_type = CommandAction | BackupAction | PowerAction | WaitAction

fun action_type_of :: "schedule_action \<Rightarrow> action_type" where
  "action_type_of (CommandStep _) = CommandAction"
| "action_type_of (BackupStep _) = BackupAction"
| "action_type_of (PowerStep _) = PowerAction"
| "action_type_of (WaitStep _) = WaitAction"

record command_result =
  cr_exit_code :: "int option"
  cr_output :: string
  cr_truncated :: bool
  cr_unknown :: "string option"

record action_attempt =
  at_action_id :: string
  at_action_type :: action_type
  at_error :: "string option"
  at_finished_at :: int
  at_id :: string
  at_result :: "(int option \<times> string \<times> bool) option"
  at_started_at :: int
  at_status :: attempt_status

definition attempt ::
  "string \<Rightarrow> int \<Rightarrow> int \<times> int \<Rightarrow> schedule_action \<Rightarrow> schedule_target \<Rightarrow> attempt_status \<Rightarrow> string option \<Rightarrow> action_attempt" where
  "attempt schedule_id scheduled_at clock action target status error =
     \<lparr>at_action_id = action_id action, at_action_type = action_type_of action, at_error = error, at_finished_at = snd clock,
       at_id = schedule_stable_id [TextPart schedule_id, NumberPart scheduled_at, TextPart (kind_text (tg_kind target)),
         TextPart (tg_id target), TextPart (action_id action)],
       at_result = None, at_started_at = fst clock, at_status = status\<rparr>"

definition sequence_attempt ::
  "string \<Rightarrow> int \<Rightarrow> int \<times> int \<Rightarrow> schedule_action \<Rightarrow> attempt_status \<Rightarrow> string option \<Rightarrow> action_attempt" where
  "sequence_attempt schedule_id scheduled_at clock action status error =
     \<lparr>at_action_id = action_id action, at_action_type = action_type_of action, at_error = error, at_finished_at = snd clock,
       at_id = schedule_stable_id [TextPart schedule_id, NumberPart scheduled_at, TextPart ''sequence'', TextPart (action_id action)],
       at_result = None, at_started_at = fst clock, at_status = status\<rparr>"

datatype target_status = TargetSucceeded | TargetNoop | TargetFailed | TargetInterrupted | TargetOverlap

record target_run =
  tr_attempts :: "action_attempt list"
  tr_error :: "string option"
  tr_finished_at :: int
  tr_id :: string
  tr_started_at :: int
  tr_status :: target_status
  tr_target :: schedule_target

section \<open>Waiting\<close>

definition maximum_timer_duration_ms :: nat where
  "maximum_timer_duration_ms = 2147483647"

definition wait_duration_ms :: "nat \<Rightarrow> wait_unit \<Rightarrow> nat" where
  "wait_duration_ms duration scale =
     duration * (case scale of Milliseconds \<Rightarrow> 1 | Seconds \<Rightarrow> 1000 | Minutes \<Rightarrow> 60000 | Hours \<Rightarrow> 3600000 | Days \<Rightarrow> 86400000)"

text \<open>\<open>waitForDuration\<close>: the timers it sets, one after another.\<close>

function wait_for_duration :: "nat \<Rightarrow> nat list" where
  "wait_for_duration remaining =
     (if remaining > 0
      then let chunk = min remaining maximum_timer_duration_ms in chunk # wait_for_duration (remaining - chunk)
      else [])"
  by auto
termination
  by (relation "measure id") (auto simp: maximum_timer_duration_ms_def)

declare wait_for_duration.simps [simp del]

section \<open>Failures\<close>

datatype step_failure = LaneRejection lane_rejected_error | OtherError string | NotAnError

fun error_message :: "step_failure \<Rightarrow> string" where
  "error_message (LaneRejection e) = le_message e"
| "error_message (OtherError m) = m"
| "error_message NotAnError = ''Unknown schedule error''"

definition power_owner :: "schedule_target \<Rightarrow> string" where
  "power_owner t = (case tg_kind t of TKDatabase \<Rightarrow> ''the database's'' | TKApp \<Rightarrow> ''the App's'' | _ \<Rightarrow> ''the server's'')"

section \<open>Backups\<close>

definition backup_execution_of :: "backup_step \<Rightarrow> schedule_target \<Rightarrow> backup_execution option" where
  "backup_execution_of action target =
     find (\<lambda>x. bx_target_id x = tg_id target \<and>
       bx_target_kind x = (case tg_kind target of TKInstance \<Rightarrow> XInstance | TKDatabase \<Rightarrow> XDatabase | TKApp \<Rightarrow> XApp | TKRelay \<Rightarrow> XRelay))
       (bu_executions action)"

definition app_backup_executions :: "backup_step \<Rightarrow> schedule_target \<Rightarrow> backup_execution list" where
  "app_backup_executions action target =
     filter (\<lambda>x. bx_target_kind x = XApp \<and> bx_target_id x = tg_id target \<or>
       bx_target_kind x = XVolume \<and> bx_app_id x = Some (tg_id target)) (bu_executions action)"

definition backup_refusal :: "backup_step \<Rightarrow> schedule_target \<Rightarrow> string option" where
  "backup_refusal action target =
     (let executions = (if tg_kind target = TKApp then app_backup_executions action target
        else case backup_execution_of action target of Some x \<Rightarrow> [x] | None \<Rightarrow> []) in
      Option.bind (find (\<lambda>x. truthy (bx_refusal x)) executions) bx_refusal)"

datatype artifact_kind = Archive | DatabaseDump | PlatformBundle | ResticSnapshot | TarArchive

definition backup_artifact_filename :: "string \<Rightarrow> artifact_kind \<Rightarrow> string" where
  "backup_artifact_filename backup_id artifact =
     ''backup-'' @ take 8 backup_id @ ''.'' @
     (case artifact of Archive \<Rightarrow> ''zip'' | DatabaseDump \<Rightarrow> ''dmp.gz'' | PlatformBundle \<Rightarrow> ''kiln'' | ResticSnapshot \<Rightarrow> ''zip''
      | TarArchive \<Rightarrow> ''tar.gz'')"

text \<open>The artifact's identity, and on S3 its object key; the rest of the settings passes through.\<close>

datatype backup_destination = ToLocal string | ToRestic string string | ToS3 string string string

definition scheduled_backup_destination :: "deployed_destination \<Rightarrow> string \<Rightarrow> string \<Rightarrow> artifact_kind \<Rightarrow> backup_destination" where
  "scheduled_backup_destination deployed backup_id artifact_id artifact =
     (case deployed of
        DeployedS3 settings prefix_of \<Rightarrow>
          ToS3 settings artifact_id (prefix_of @ ''/'' @ backup_id @ ''/'' @ backup_artifact_filename backup_id artifact)
      | DeployedLocal \<Rightarrow> ToLocal artifact_id
      | DeployedRestic settings \<Rightarrow> ToRestic settings artifact_id)"

datatype task_target_kind = OnInstance | OnDatabase | OnPlatform | OnApp | OnVolume

record backup_input =
  bi_artifact :: artifact_kind
  bi_backup_id :: string
  bi_name :: string
  bi_batch_id :: "string option"
  bi_repository_id :: "string option"
  bi_storage_id :: "string option"
  bi_app_coverage :: "(string \<times> string list) option"
  bi_stopped :: bool
  bi_batch :: "(string \<times> nat) option"
  bi_destination :: backup_destination
  bi_max_bytes :: "nat option"
  bi_mode :: backup_mode
  bi_target :: "task_target_kind \<times> string"
  bi_task_id :: string

text \<open>The Relay, the installation it belongs to, and how times are written.\<close>

record schedule_options =
  so_relay_id :: string
  so_platform_target_id :: string
  so_iso_text :: "int \<Rightarrow> string"

definition step_storage_id :: "backup_step \<Rightarrow> string option" where
  "step_storage_id action = (case bu_destination action of StorageStep i \<Rightarrow> Some i | LocalStep \<Rightarrow> None)"

definition backup_id_of :: "schedule_definition \<Rightarrow> int \<Rightarrow> string \<Rightarrow> string \<Rightarrow> string \<Rightarrow> string" where
  "backup_id_of schedule scheduled_at kind target_id action_id_of =
     schedule_deterministic_uuid [TextPart ''schedule-backup'', TextPart (sch_id schedule), NumberPart scheduled_at,
       TextPart kind, TextPart target_id, TextPart action_id_of]"

definition occurrence_run_id :: "schedule_options \<Rightarrow> schedule_definition \<Rightarrow> int \<Rightarrow> string" where
  "occurrence_run_id opts schedule scheduled_at =
     schedule_stable_id [TextPart (sch_id schedule), NumberPart scheduled_at, TextPart (so_relay_id opts)]"

definition target_backup_input ::
  "schedule_options \<Rightarrow> schedule_definition \<Rightarrow> backup_step \<Rightarrow> schedule_target \<Rightarrow> int \<Rightarrow> step_failure + backup_input" where
  "target_backup_input opts schedule action target scheduled_at =
     (let execution = backup_execution_of action target;
          deployed = (case Option.bind execution bx_destination of
             Some d \<Rightarrow> Some d
           | None \<Rightarrow> if bu_mode action = FullBackup \<and> bu_destination action = LocalStep then Some DeployedLocal else None) in
      case deployed of
        None \<Rightarrow> Inl (OtherError ''Scheduled backup destination is not deployed'')
      | Some d \<Rightarrow>
          let backup_id = backup_id_of schedule scheduled_at (kind_text (tg_kind target)) (tg_id target) (bu_id action);
              task_id = schedule_deterministic_uuid [TextPart ''task'', TextPart backup_id];
              artifact_id = schedule_deterministic_uuid [TextPart ''artifact'', TextPart backup_id];
              kind = (case tg_kind target of TKRelay \<Rightarrow> OnPlatform | TKInstance \<Rightarrow> OnInstance | TKDatabase \<Rightarrow> OnDatabase | TKApp \<Rightarrow> OnApp);
              artifact = (if bu_mode action = Incremental then ResticSnapshot
                else if kind = OnInstance then Archive else if kind = OnDatabase then DatabaseDump else PlatformBundle) in
          Inr \<lparr>bi_artifact = artifact, bi_backup_id = backup_id,
            bi_name = resolve_schedule_backup_name (so_iso_text opts) (bu_name action)
              \<lparr>bn_backup_id = backup_id, bn_instance_id = (if tg_kind target = TKInstance then tg_id target else []),
                bn_run_id = occurrence_run_id opts schedule scheduled_at, bn_schedule_id = sch_id schedule,
                bn_schedule_name = sch_name schedule, bn_timestamp = scheduled_at\<rparr>,
            bi_batch_id = None,
            bi_repository_id = (case Option.bind execution bx_repository_id of
               Some r \<Rightarrow> if bu_mode action = Incremental \<and> r \<noteq> [] then Some r else None | None \<Rightarrow> None),
            bi_storage_id = step_storage_id action, bi_app_coverage = None, bi_stopped = False, bi_batch = None,
            bi_destination = scheduled_backup_destination d backup_id artifact_id artifact,
            bi_max_bytes = Option.bind execution bx_max_bytes, bi_mode = bu_mode action,
            bi_target = (kind, if kind = OnPlatform then so_platform_target_id opts else tg_id target),
            bi_task_id = task_id\<rparr>)"

fun execution_kind_text :: "execution_kind \<Rightarrow> string" where
  "execution_kind_text XInstance = ''instance''"
| "execution_kind_text XDatabase = ''database''"
| "execution_kind_text XRelay = ''relay''"
| "execution_kind_text XApp = ''app''"
| "execution_kind_text XVolume = ''volume''"

definition volume_ids :: "backup_execution list \<Rightarrow> string list" where
  "volume_ids executions = map bx_target_id (filter (\<lambda>x. bx_target_kind x = XVolume) executions)"

text \<open>One backup of an App's folder or of a volume of it.\<close>

definition member_backup_input ::
  "schedule_options \<Rightarrow> schedule_definition \<Rightarrow> backup_step \<Rightarrow> schedule_target \<Rightarrow> int \<Rightarrow> backup_execution list \<Rightarrow>
     backup_execution \<Rightarrow> backup_input" where
  "member_backup_input opts schedule action target scheduled_at executions x =
     (let batch_id = schedule_deterministic_uuid [TextPart ''schedule-backup-batch'', TextPart (sch_id schedule),
            NumberPart scheduled_at, TextPart (tg_id target), TextPart (bu_id action)];
          backup_id = backup_id_of schedule scheduled_at (execution_kind_text (bx_target_kind x)) (bx_target_id x) (bu_id action) in
      \<lparr>bi_artifact = TarArchive, bi_backup_id = backup_id,
        bi_name = resolve_schedule_backup_name (so_iso_text opts) (bu_name action)
          \<lparr>bn_backup_id = backup_id, bn_instance_id = tg_id target,
            bn_run_id = occurrence_run_id opts schedule scheduled_at, bn_schedule_id = sch_id schedule,
            bn_schedule_name = sch_name schedule, bn_timestamp = scheduled_at\<rparr>,
        bi_batch_id = Some batch_id, bi_repository_id = None, bi_storage_id = step_storage_id action,
        bi_app_coverage = Some (tg_id target, volume_ids executions), bi_stopped = bu_stopped action,
        bi_batch = (if length executions \<ge> 2 then Some (batch_id, length executions) else None),
        bi_destination = scheduled_backup_destination (the (bx_destination x)) backup_id
          (schedule_deterministic_uuid [TextPart ''artifact'', TextPart backup_id]) TarArchive,
        bi_max_bytes = bx_max_bytes x, bi_mode = FullBackup,
        bi_target = (if bx_target_kind x = XVolume then OnVolume else OnApp, bx_target_id x),
        bi_task_id = schedule_deterministic_uuid [TextPart ''task'', TextPart backup_id]\<rparr>)"

text \<open>
  What an App's backup queues, given the volumes its Compose project owns now: none unless
  Hearth projected exactly those.
\<close>

definition app_backup_inputs ::
  "schedule_options \<Rightarrow> schedule_definition \<Rightarrow> backup_step \<Rightarrow> schedule_target \<Rightarrow> int \<Rightarrow> step_failure + string list \<Rightarrow>
     step_failure + backup_input list" where
  "app_backup_inputs opts schedule action target scheduled_at owned_volumes =
     (let executions = app_backup_executions action target in
      if executions = [] \<or> list_ex (\<lambda>x. bx_destination x = None) executions
      then Inl (OtherError ''Scheduled backup destination is not deployed'')
      else and_then owned_volumes (\<lambda>owned.
        let projected = dedup (volume_ids executions) in
        if length owned \<noteq> length projected \<or> list_ex (\<lambda>i. i \<notin> set projected) owned
        then Inl (OtherError ''App backup coverage changed; waiting for Hearth to refresh the schedule'')
        else Inr (map (member_backup_input opts schedule action target scheduled_at executions) executions)))"

datatype task_status = TaskQueued | TaskRunning | TaskSucceeded | TaskFailed | TaskCancelled

fun task_status_text :: "task_status \<Rightarrow> string" where
  "task_status_text TaskQueued = ''queued''"
| "task_status_text TaskRunning = ''running''"
| "task_status_text TaskSucceeded = ''succeeded''"
| "task_status_text TaskFailed = ''failed''"
| "task_status_text TaskCancelled = ''cancelled''"

record backup_task =
  bt_task_id :: string
  bt_status :: task_status
  bt_error :: "string option"

datatype poll = PollFailed | PollGone | PollTask backup_task

text \<open>
  \<open>#waitForBackup\<close> over what the polls of six hours find, one each half second; when they run out
  it has timed out.
\<close>

fun wait_for_backup :: "backup_task \<Rightarrow> poll list \<Rightarrow> step_failure option" where
  "wait_for_backup task polls =
     (if bt_status task = TaskQueued \<or> bt_status task = TaskRunning then
        case polls of
          [] \<Rightarrow> Some (OtherError ''Scheduled backup timed out'')
        | p # ps \<Rightarrow>
            (case p of
               PollFailed \<Rightarrow> Some (OtherError ''Could not inspect the scheduled backup'')
             | PollGone \<Rightarrow> Some (OtherError ''Scheduled backup disappeared from the queue'')
             | PollTask t \<Rightarrow> wait_for_backup t ps)
      else if bt_status task \<noteq> TaskSucceeded then
        Some (OtherError (case bt_error task of Some e \<Rightarrow> e | None \<Rightarrow> ''Scheduled backup '' @ task_status_text (bt_status task)))
      else None)"

declare wait_for_backup.simps [simp del]

section \<open>A step on a target\<close>

datatype container_target = DatabaseContainer string | AppService string string

datatype call =
    SendConsole string string
  | RunContainer container_target string
  | RunPower target_kind string instance_power_action string
  | EnqueueBackup backup_input

text \<open>A progress record lands, is lost to a storage failure, or throws as a run out of bounds does.\<close>

datatype progress = Landed | Lost | Threw

text \<open>
  What a step finds: when it starts and ends, whether the Relay is paused, whether its record of a
  command lands, how its calls end, the volumes an App owns, the tasks its backups queue, what
  polls of them find and which of several failures came first.
\<close>

record step_env =
  se_clock :: "int \<times> int"
  se_paused :: bool
  se_progress :: progress
  se_late_progress :: progress
  se_call :: "call \<Rightarrow> step_failure + command_result"
  se_owned :: "step_failure + string list"
  se_enqueue :: "backup_input \<Rightarrow> step_failure + backup_task"
  se_polls :: "string \<Rightarrow> poll list"
  se_first :: "step_failure list \<Rightarrow> step_failure"

type_synonym call_outcome = "step_failure + command_result option"

definition send :: "step_env \<Rightarrow> call \<Rightarrow> call list \<times> call_outcome" where
  "send env c = ([c], and_then (se_call env c) (\<lambda>_. Inr None))"

definition run_container :: "step_env \<Rightarrow> call \<Rightarrow> call list \<times> call_outcome" where
  "run_container env c = ([c], and_then (se_call env c) (\<lambda>r. Inr (Some r)))"

definition queue_backups :: "step_env \<Rightarrow> backup_input list \<Rightarrow> call list \<times> call_outcome" where
  "queue_backups env inputs =
     (let queued = map (se_enqueue env) inputs;
          refused = List.map_filter (\<lambda>q. case q of Inl f \<Rightarrow> Some f | Inr _ \<Rightarrow> None) queued;
          tasks = List.map_filter (\<lambda>q. case q of Inl _ \<Rightarrow> None | Inr t \<Rightarrow> Some t) queued;
          failed = List.map_filter (\<lambda>t. wait_for_backup t (se_polls env (bt_task_id t))) tasks in
      (map EnqueueBackup inputs,
       if refused \<noteq> [] then Inl (se_first env refused) else if failed \<noteq> [] then Inl (se_first env failed) else Inr None))"

definition execute_action ::
  "schedule_options \<Rightarrow> step_env \<Rightarrow> schedule_definition \<Rightarrow> schedule_action \<Rightarrow> schedule_target \<Rightarrow> int \<Rightarrow> string \<Rightarrow>
     call list \<times> call_outcome" where
  "execute_action opts env schedule action target scheduled_at power_intent =
     (case action of
        CommandStep c \<Rightarrow>
          (case tg_kind target of
             TKInstance \<Rightarrow> send env (SendConsole (tg_id target) (cm_command c))
           | TKDatabase \<Rightarrow> run_container env (RunContainer (DatabaseContainer (tg_id target)) (cm_command c))
           | TKApp \<Rightarrow>
               (case Option.bind (cm_services c) (\<lambda>m. map_of m (schedule_target_key target)) of
                  Some service \<Rightarrow>
                    if service = [] then ([], Inl (OtherError ''No service was chosen to run the command''))
                    else run_container env (RunContainer (AppService (tg_id target) service) (cm_command c))
                | None \<Rightarrow> ([], Inl (OtherError ''No service was chosen to run the command'')))
           | TKRelay \<Rightarrow> ([], Inr None))
      | PowerStep p \<Rightarrow>
          if tg_kind target = TKRelay then ([], Inr None)
          else send env (RunPower (tg_kind target) (tg_id target) (pw_action p) power_intent)
      | BackupStep b \<Rightarrow>
          (case (if tg_kind target = TKApp then app_backup_inputs opts schedule b target scheduled_at (se_owned env)
             else and_then (target_backup_input opts schedule b target scheduled_at) (\<lambda>i. Inr [i])) of
             Inl f \<Rightarrow> ([], Inl f)
           | Inr inputs \<Rightarrow> queue_backups env inputs)
      | WaitStep w \<Rightarrow> ([], Inr None))"

text \<open>
  A target while its occurrence runs. What happened is its trace: records of progress, with what
  they say of the target, and calls.
\<close>

datatype trace_event = Recorded bool progress target_run | Called call

record target_state =
  ts_active_key :: "string option"
  ts_attempts :: "action_attempt list"
  ts_power_intent :: string
  ts_error :: "string option"
  ts_failure :: "string option"
  ts_in_flight :: "action_attempt option"
  ts_missing :: bool
  ts_started_at :: int
  ts_target :: schedule_target
  ts_trace :: "trace_event list"
  ts_threw :: bool

definition target_run_of :: "string \<Rightarrow> int \<Rightarrow> int \<Rightarrow> target_state \<Rightarrow> target_run" where
  "target_run_of schedule_id scheduled_at now st =
     \<lparr>tr_attempts = ts_attempts st @ (case ts_in_flight st of Some a \<Rightarrow> [a] | None \<Rightarrow> []), tr_error = ts_error st,
       tr_finished_at = now,
       tr_id = schedule_stable_id [TextPart schedule_id, NumberPart scheduled_at, TextPart (kind_text (tg_kind (ts_target st))),
         TextPart (tg_id (ts_target st))],
       tr_started_at = ts_started_at st,
       tr_status = (if ts_active_key st = None then TargetOverlap
         else if ts_in_flight st \<noteq> None then TargetInterrupted
         else if truthy (ts_failure st) \<or> ts_missing st then TargetFailed
         else if list_ex (\<lambda>a. at_status a = AttemptSucceeded) (ts_attempts st) then TargetSucceeded
         else TargetNoop),
       tr_target = ts_target st\<rparr>"

definition push_attempt :: "action_attempt \<Rightarrow> target_state \<Rightarrow> target_state" where
  "push_attempt a st = st\<lparr>ts_attempts := ts_attempts st @ [a]\<rparr>"

text \<open>The first failure stays the target's error when later steps continue.\<close>

definition note_failure :: "string \<Rightarrow> target_state \<Rightarrow> target_state" where
  "note_failure failure st = (if truthy (ts_failure st) then st else st\<lparr>ts_failure := Some failure, ts_error := Some failure\<rparr>)"

definition record_step :: "schedule_definition \<Rightarrow> int \<Rightarrow> int \<Rightarrow> bool \<Rightarrow> progress \<Rightarrow> target_state \<Rightarrow> target_state" where
  "record_step schedule scheduled_at now required result st =
     st\<lparr>ts_trace := ts_trace st @ [Recorded required result (target_run_of (sch_id schedule) scheduled_at now st)],
        ts_threw := ts_threw st \<or> result = Threw\<rparr>"

definition lane_gives_way :: "step_failure \<Rightarrow> bool" where
  "lane_gives_way f = (case f of LaneRejection e \<Rightarrow> le_reason e \<in> {RSuperseded, RPaused, RRefused} | _ \<Rightarrow> False)"

definition give_way_message :: "schedule_target \<Rightarrow> step_failure \<Rightarrow> string" where
  "give_way_message target f =
     (case f of LaneRejection e \<Rightarrow>
        (if le_reason e = RPaused then ''Not run: the Relay is paused''
         else if le_reason e = RRefused then ''Not run: '' @ le_message e
         else ''Not run: '' @ power_owner target @ '' power was changed during the schedule'')
      | _ \<Rightarrow> [])"

text \<open>How a call that wasn't given way to ended: its failure, if any, and its command's result.\<close>

definition exit_text :: "int option \<Rightarrow> string" where
  "exit_text code = (case code of None \<Rightarrow> ''null'' | Some c \<Rightarrow> part_text (NumberPart c))"

definition outcome_failure :: "call_outcome \<Rightarrow> string option" where
  "outcome_failure outcome =
     (case outcome of
        Inl f \<Rightarrow> Some (error_message f)
      | Inr None \<Rightarrow> None
      | Inr (Some r) \<Rightarrow>
          if truthy (cr_unknown r) then cr_unknown r
          else if cr_exit_code r \<noteq> Some 0 then Some (''The command exited with code '' @ exit_text (cr_exit_code r))
          else None)"

definition outcome_attempt ::
  "schedule_definition \<Rightarrow> int \<Rightarrow> int \<times> int \<Rightarrow> schedule_action \<Rightarrow> schedule_target \<Rightarrow> call_outcome \<Rightarrow> action_attempt" where
  "outcome_attempt schedule scheduled_at clock action target outcome =
     (let failure = outcome_failure outcome;
          unknown = (case outcome of Inr (Some r) \<Rightarrow> truthy (cr_unknown r) | _ \<Rightarrow> False);
          status = (if unknown then AttemptUnknown else if truthy failure then AttemptFailed else AttemptSucceeded) in
      (attempt (sch_id schedule) scheduled_at clock action target status failure)
        \<lparr>at_result := (case outcome of Inr (Some r) \<Rightarrow> Some (cr_exit_code r, cr_output r, cr_truncated r) | _ \<Rightarrow> None)\<rparr>)"

definition in_container :: "schedule_action \<Rightarrow> schedule_target \<Rightarrow> bool" where
  "in_container action target = (action_type_of action = CommandAction \<and> tg_kind target \<noteq> TKInstance)"

text \<open>Why a step isn't tried, in the order the code asks, with the attempt that says so.\<close>

definition step_held_back ::
  "schedule_definition \<Rightarrow> schedule_action \<Rightarrow> string option \<Rightarrow> step_env \<Rightarrow> target_state \<Rightarrow> (attempt_status \<times> string option) option" where
  "step_held_back schedule action sequence_failure env st =
     (let refusal = (case action of BackupStep b \<Rightarrow> backup_refusal b (ts_target st) | _ \<Rightarrow> None) in
      if truthy sequence_failure then Some (AttemptNotRun, Some ''A previous sequence action failed'')
      else if truthy (ts_failure st) \<and> \<not> sch_continue_on_failure schedule then Some (AttemptNotRun, Some ''A previous action failed'')
      else if ts_missing st then Some (AttemptSkippedMissing, Some ''Target no longer exists'')
      else if se_paused env then Some (AttemptNotRun, Some ''Not run: the Relay is paused'')
      else if \<not> schedule_action_supports_target action (ts_target st) then Some (AttemptSkippedUnsupported, None)
      else if \<not> schedule_action_applies_to_target action (ts_target st) then Some (AttemptSkippedPolicy, None)
      else case refusal of
        Some r \<Rightarrow> if r = [] then None else Some (AttemptNotRun, Some (''Not run: '' @ r))
      | None \<Rightarrow> None)"

definition unknown_attempt :: "schedule_definition \<Rightarrow> int \<Rightarrow> int \<times> int \<Rightarrow> schedule_action \<Rightarrow> schedule_target \<Rightarrow> action_attempt" where
  "unknown_attempt schedule scheduled_at clock action target =
     attempt (sch_id schedule) scheduled_at clock action target AttemptUnknown
       (Some ''The Relay stopped before this command finished, so it may have run'')"

definition record_failed :: string where
  "record_failed = ''Not run: the Relay couldn't record the command before sending it''"

text \<open>The call and what becomes of its end, once nothing holds the step back and its record landed.\<close>

definition perform_step ::
  "schedule_options \<Rightarrow> schedule_definition \<Rightarrow> schedule_action \<Rightarrow> int \<Rightarrow> step_env \<Rightarrow> target_state \<Rightarrow> target_state" where
  "perform_step opts schedule action scheduled_at env st =
     (let target = ts_target st;
          noted = (\<lambda>st. if in_container action target
            then record_step schedule scheduled_at (snd (se_clock env)) False (se_late_progress env) st else st);
          made = attempt (sch_id schedule) scheduled_at (se_clock env) action target in
      case execute_action opts env schedule action target scheduled_at (ts_power_intent st) of (calls, outcome) \<Rightarrow>
        let called = st\<lparr>ts_trace := ts_trace st @ map Called calls, ts_in_flight := None\<rparr>;
            finished = (
              let failure = outcome_failure outcome in
              noted (push_attempt (outcome_attempt schedule scheduled_at (se_clock env) action target outcome)
                (if truthy failure then note_failure (the failure) called else called))) in
        case outcome of
          Inl f \<Rightarrow>
            if lane_gives_way f
            then noted (push_attempt (made AttemptNotRun (Some (give_way_message target f))) called)
            else finished
        | Inr _ \<Rightarrow> finished)"

text \<open>
  \<open>#executeTargetAction\<close>: a command in a container may run from the moment it is sent, so it is
  recorded as unknown first and sent only once that record has landed.
\<close>

definition execute_target_action ::
  "schedule_options \<Rightarrow> schedule_definition \<Rightarrow> schedule_action \<Rightarrow> int \<Rightarrow> string option \<Rightarrow> step_env \<Rightarrow> target_state \<Rightarrow> target_state" where
  "execute_target_action opts schedule action scheduled_at sequence_failure env st =
     (let made = attempt (sch_id schedule) scheduled_at (se_clock env) action (ts_target st) in
      if ts_active_key st = None then st
      else case step_held_back schedule action sequence_failure env st of
        Some (status, error) \<Rightarrow> push_attempt (made status error) st
      | None \<Rightarrow>
          if in_container action (ts_target st) then
            let recorded = record_step schedule scheduled_at (fst (se_clock env)) True (se_progress env)
                  (st\<lparr>ts_in_flight := Some (unknown_attempt schedule scheduled_at (se_clock env) action (ts_target st))\<rparr>) in
            (case se_progress env of
               Threw \<Rightarrow> recorded
             | Lost \<Rightarrow> push_attempt (made AttemptFailed (Some record_failed)) (note_failure record_failed (recorded\<lparr>ts_in_flight := None\<rparr>))
             | Landed \<Rightarrow> perform_step opts schedule action scheduled_at env recorded)
          else perform_step opts schedule action scheduled_at env st)"

section \<open>An occurrence\<close>

text \<open>
  What an occurrence finds: its clock, the power intents and targets when it begins, each step on
  each target by their positions, and how its waits end (interrupted, or in time).
\<close>

record occurrence_env =
  oe_started_at :: int
  oe_target_started :: "nat \<Rightarrow> int"
  oe_intent :: "target_kind \<Rightarrow> string \<Rightarrow> string"
  oe_instance :: "string \<Rightarrow> step_failure + bool"
  oe_apps :: "step_failure + string list"
  oe_databases :: "step_failure + string list"
  oe_step :: "nat \<Rightarrow> nat \<Rightarrow> step_env"
  oe_wait_clock :: "nat \<Rightarrow> int \<times> int"
  oe_wait :: "nat \<Rightarrow> nat list \<Rightarrow> step_failure option"
  oe_target_finished :: "nat \<Rightarrow> int"
  oe_finished_at :: int

definition active_target_key :: "schedule_target \<Rightarrow> string" where
  "active_target_key t = kind_text (tg_kind t) @ '':'' @ tg_id t"

definition start_target :: "occurrence_env \<Rightarrow> nat \<Rightarrow> string option \<Rightarrow> schedule_target \<Rightarrow> target_state" where
  "start_target env n key t =
     \<lparr>ts_active_key = key, ts_attempts = [], ts_power_intent = (if tg_kind t = TKRelay then [] else oe_intent env (tg_kind t) (tg_id t)),
       ts_error = None, ts_failure = None, ts_in_flight = None, ts_missing = False, ts_started_at = oe_target_started env n,
       ts_target = t, ts_trace = [], ts_threw = False\<rparr>"

text \<open>The targets another occurrence is at are left to it; \<open>active\<close> is \<open>#activeTargets\<close>.\<close>

fun reserve_targets :: "occurrence_env \<Rightarrow> nat \<Rightarrow> schedule_target list \<Rightarrow> string list \<Rightarrow> target_state list \<times> string list" where
  "reserve_targets env n [] active = ([], active)"
| "reserve_targets env n (t # ts) active =
     (let key = active_target_key t;
          overlapping = key \<in> set active in
      case reserve_targets env (Suc n) ts (if overlapping then active else active @ [key]) of (states, active') \<Rightarrow>
        (start_target env n (if overlapping then None else Some key) t # states, active'))"

definition target_exists :: "schedule_options \<Rightarrow> occurrence_env \<Rightarrow> schedule_target \<Rightarrow> step_failure + bool" where
  "target_exists opts env t =
     (case tg_kind t of
        TKRelay \<Rightarrow> Inr (tg_id t = so_relay_id opts)
      | TKInstance \<Rightarrow> oe_instance env (tg_id t)
      | TKApp \<Rightarrow> and_then (oe_apps env) (\<lambda>ids. Inr (tg_id t \<in> set ids))
      | TKDatabase \<Rightarrow> and_then (oe_databases env) (\<lambda>ids. Inr (tg_id t \<in> set ids)))"

definition check_target :: "schedule_options \<Rightarrow> occurrence_env \<Rightarrow> target_state \<Rightarrow> target_state" where
  "check_target opts env st =
     (if ts_active_key st = None then st
      else case target_exists opts env (ts_target st) of
        Inl f \<Rightarrow> st\<lparr>ts_failure := Some (error_message f), ts_error := Some (error_message f)\<rparr>
      | Inr found \<Rightarrow> if found then st else st\<lparr>ts_missing := True, ts_error := Some ''Target no longer exists''\<rparr>)"

record occurrence_state =
  os_targets :: "target_state list"
  os_sequence :: "action_attempt list"
  os_sequence_failure :: "string option"

definition can_continue :: "schedule_definition \<Rightarrow> target_state \<Rightarrow> bool" where
  "can_continue schedule st \<longleftrightarrow>
     ts_active_key st \<noteq> None \<and> (sch_continue_on_failure schedule \<or> \<not> truthy (ts_failure st)) \<and> \<not> ts_missing st"

definition wait_phase ::
  "schedule_definition \<Rightarrow> int \<Rightarrow> occurrence_env \<Rightarrow> nat \<Rightarrow> wait_step \<Rightarrow> occurrence_state \<Rightarrow> occurrence_state" where
  "wait_phase schedule scheduled_at env n w os =
     (let made = sequence_attempt (sch_id schedule) scheduled_at (oe_wait_clock env n) (WaitStep w);
          push = (\<lambda>a os. os\<lparr>os_sequence := os_sequence os @ [a]\<rparr>) in
      if truthy (os_sequence_failure os) \<or> \<not> list_ex (can_continue schedule) (os_targets os) then
        push (made AttemptNotRun (Some (if truthy (os_sequence_failure os) then ''A previous sequence action failed''
          else ''No targets can continue''))) os
      else case oe_wait env n (wait_for_duration (wait_duration_ms (wt_duration w) (wt_unit w))) of
        None \<Rightarrow> push (made AttemptSucceeded None) os
      | Some f \<Rightarrow> push (made AttemptFailed (Some (error_message f))) (os\<lparr>os_sequence_failure := Some (error_message f)\<rparr>))"

definition target_phase ::
  "schedule_options \<Rightarrow> schedule_definition \<Rightarrow> int \<Rightarrow> occurrence_env \<Rightarrow> nat \<Rightarrow> schedule_action \<Rightarrow> occurrence_state \<Rightarrow> occurrence_state" where
  "target_phase opts schedule scheduled_at env n action os =
     os\<lparr>os_targets := map (\<lambda>(k, st). execute_target_action opts schedule action scheduled_at (os_sequence_failure os) (oe_step env n k) st)
       (List.enumerate 0 (os_targets os))\<rparr>"

definition phase ::
  "schedule_options \<Rightarrow> schedule_definition \<Rightarrow> int \<Rightarrow> occurrence_env \<Rightarrow> nat \<Rightarrow> schedule_action \<Rightarrow> occurrence_state \<Rightarrow> occurrence_state" where
  "phase opts schedule scheduled_at env n action os =
     (case action of
        WaitStep w \<Rightarrow> wait_phase schedule scheduled_at env n w os
      | _ \<Rightarrow> target_phase opts schedule scheduled_at env n action os)"

text \<open>A record that throws ends the occurrence.\<close>

fun execute_phases ::
  "schedule_options \<Rightarrow> schedule_definition \<Rightarrow> int \<Rightarrow> occurrence_env \<Rightarrow> nat \<Rightarrow> schedule_action list \<Rightarrow> occurrence_state \<Rightarrow> occurrence_state" where
  "execute_phases opts schedule scheduled_at env n [] os = os"
| "execute_phases opts schedule scheduled_at env n (a # as) os =
     (if list_ex ts_threw (os_targets os) then os
      else execute_phases opts schedule scheduled_at env (Suc n) as (phase opts schedule scheduled_at env n a os))"

definition aggregate_run_status :: "target_status list \<Rightarrow> run_status" where
  "aggregate_run_status statuses =
     (let failed = length (filter (\<lambda>s. s = TargetFailed \<or> s = TargetInterrupted) statuses) in
      if failed = length statuses \<and> length statuses > 0 then RunFailed
      else if failed > 0 then RunPartial
      else if list_ex (\<lambda>s. s = TargetSucceeded) statuses then RunSucceeded
      else RunNoop)"

datatype run_entry = SequenceEntry action_attempt | TargetEntry target_run

definition occurrence_run ::
  "schedule_options \<Rightarrow> schedule_definition \<Rightarrow> int \<Rightarrow> occurrence_env \<Rightarrow> occurrence_state \<Rightarrow> run_entry schedule_run" where
  "occurrence_run opts schedule scheduled_at env os =
     (let target_runs = map (\<lambda>(k, st). target_run_of (sch_id schedule) scheduled_at (oe_target_finished env k) st)
            (List.enumerate 0 (os_targets os));
          sequence_failed = list_ex (\<lambda>a. at_status a = AttemptFailed \<or> at_status a = AttemptInterrupted) (os_sequence os);
          target_status = aggregate_run_status (map tr_status target_runs) in
      \<lparr>run_id = occurrence_run_id opts schedule scheduled_at, run_schedule_id = sch_id schedule,
        run_revision = sch_revision schedule, run_scheduled_at = scheduled_at, run_started_at = oe_started_at env,
        run_finished_at = oe_finished_at env,
        run_status_of = (if sequence_failed then (if target_status = RunSucceeded \<or> target_status = RunPartial then RunPartial else RunFailed)
          else target_status),
        run_sequence = map SequenceEntry (os_sequence os), run_targets = map TargetEntry target_runs\<rparr>)"

text \<open>The bounds of \<open>scheduleRunSchema\<close>, past which its parser throws.\<close>

definition attempt_fits :: "action_attempt \<Rightarrow> bool" where
  "attempt_fits a \<longleftrightarrow>
     (case at_error a of Some e \<Rightarrow> length e \<le> 2000 | None \<Rightarrow> True) \<and>
     (case at_result a of Some (_, output, _) \<Rightarrow> length output \<le> 4096 | None \<Rightarrow> True)"

fun entry_fits :: "run_entry \<Rightarrow> bool" where
  "entry_fits (SequenceEntry a) = attempt_fits a"
| "entry_fits (TargetEntry t) =
     (length (tr_attempts t) \<le> 32 \<and> list_all attempt_fits (tr_attempts t) \<and>
      (case tr_error t of Some e \<Rightarrow> length e \<le> 2000 | None \<Rightarrow> True))"

definition run_fits :: "run_entry schedule_run \<Rightarrow> bool" where
  "run_fits r \<longleftrightarrow>
     length (run_sequence r) \<le> 32 \<and> list_all entry_fits (run_sequence r) \<and>
     length (run_targets r) \<le> 2000 \<and> list_all entry_fits (run_targets r)"

text \<open>
  \<open>#executeOccurrence\<close>, given the targets other occurrences are at: how its targets ended, the
  reservations it held, and the run it completes, unless a parser threw.
\<close>

definition execute_occurrence ::
  "schedule_options \<Rightarrow> schedule_definition \<Rightarrow> int \<Rightarrow> occurrence_env \<Rightarrow> string list \<Rightarrow>
     occurrence_state \<times> string list \<times> run_entry schedule_run option" where
  "execute_occurrence opts schedule scheduled_at env active =
     (case reserve_targets env 0 (sch_targets schedule) active of (states, active') \<Rightarrow>
        let os = execute_phases opts schedule scheduled_at env 0 (sch_actions schedule)
              \<lparr>os_targets = map (check_target opts env) states, os_sequence = [], os_sequence_failure = None\<rparr>;
            run = occurrence_run opts schedule scheduled_at env os in
        (os, List.map_filter ts_active_key states,
         if \<not> list_ex ts_threw (os_targets os) \<and> run_fits run then Some run else None))"

end
