(* ===== verification/Schedule_Tables.thy ===== *)
theory Schedule_Tables
  imports Schedule_State
begin

text \<open>
  What the tables of schedules keep: identifiers have the shape of UUIDs, steps reach only the
  targets they were checked for, versions only move forward, an occurrence is claimed once, and
  history is bounded.
\<close>

section \<open>Identifiers\<close>

definition hex_digit_char :: "char \<Rightarrow> bool" where
  "hex_digit_char c \<longleftrightarrow> c \<in> set ''0123456789abcdef''"

definition uuid_shape :: "string \<Rightarrow> bool" where
  "uuid_shape s \<longleftrightarrow>
     (\<exists>a b c d e. s = a @ ''-'' @ b @ ''-5'' @ c @ ''-'' @ d @ ''-'' @ e \<and>
        map length [a, b, c, d, e] = [8, 4, 3, 4, 12] \<and> list_all hex_digit_char (a @ b @ c @ d @ e) \<and>
        hd d \<in> set ''89ab'')"

lemma length_hex_text [simp]: "length (hex_text n v) = n"
  by (induction n arbitrary: v) simp_all

lemma hex_char_digit: "d < 16 \<Longrightarrow> hex_digit_char (hex_char d)"
proof -
  have "\<forall>d\<in>set [0..<16]. hex_digit_char (hex_char d)" unfolding hex_digit_char_def by code_simp
  then show "d < 16 \<Longrightarrow> ?thesis" by simp
qed

lemma hex_text_digits: "list_all hex_digit_char (hex_text n v)"
  by (induction n arbitrary: v) (simp_all add: hex_char_digit)

lemma schedule_stable_id_shape: "length (schedule_stable_id parts) = 32" "list_all hex_digit_char (schedule_stable_id parts)"
  by (simp_all add: schedule_stable_id_def stable_seeds_def hex_text_digits Let_def)

lemma variant_char: "d < 4 \<Longrightarrow> hex_char (d + 8) \<in> set ''89ab''"
proof -
  have "\<forall>d\<in>set [0..<4]. hex_char (d + 8) \<in> set ''89ab''" by code_simp
  then show "d < 4 \<Longrightarrow> ?thesis" by simp
qed

lemma list_all_update: "list_all P xs \<Longrightarrow> P x \<Longrightarrow> list_all P (xs[i := x])"
  by (auto simp: list_all_iff dest!: set_update_subset_insert [THEN subsetD])

lemma schedule_uuid_shape: "uuid_shape (schedule_deterministic_uuid parts)"
proof -
  define id where "id = (schedule_stable_id parts)[12 := CHR ''5'']"
  define whole where "whole = id[16 := hex_char (hex_char_value (id ! 16) mod 4 + 8)]"
  have len: "length whole = 32" by (simp add: whole_def id_def schedule_stable_id_shape)
  have "hex_digit_char (hex_char (n mod 4 + 8))" for n by (intro hex_char_digit) (simp add: order_less_le_trans [of _ 4])
  then have hex: "list_all hex_digit_char whole"
    unfolding whole_def id_def by (intro list_all_update schedule_stable_id_shape(2)) (simp_all add: hex_digit_char_def)
  have five: "whole ! 12 = CHR ''5''" by (simp add: whole_def id_def schedule_stable_id_shape)
  have variant: "whole ! 16 \<in> set ''89ab''"
    using variant_char [of "hex_char_value (id ! 16) mod 4"] by (simp add: whole_def id_def schedule_stable_id_shape)
  have "take 4 (drop 12 whole) = CHR ''5'' # take 3 (drop 13 whole)"
  proof -
    have "drop 12 whole = CHR ''5'' # drop 13 whole" using Cons_nth_drop_Suc [of 12 whole] five len by simp
    then show ?thesis by simp
  qed
  moreover have "hd (take 4 (drop 16 whole)) = whole ! 16" using len by (simp add: hd_drop_conv_nth)
  moreover have "schedule_deterministic_uuid parts =
      take 8 whole @ ''-'' @ take 4 (drop 8 whole) @ ''-'' @ take 4 (drop 12 whole) @ ''-'' @ take 4 (drop 16 whole) @ ''-'' @ drop 20 whole"
    by (simp add: schedule_deterministic_uuid_def whole_def id_def Let_def)
  moreover have parts: "list_all hex_digit_char (take n whole)" "list_all hex_digit_char (take n (drop m whole))"
      "list_all hex_digit_char (drop m whole)" for n m
    using hex by (auto simp: list_all_iff dest: in_set_takeD in_set_dropD)
  ultimately show ?thesis
    unfolding uuid_shape_def using len variant
    by (intro exI [of _ "take 8 whole"] exI [of _ "take 4 (drop 8 whole)"] exI [of _ "take 3 (drop 13 whole)"]
        exI [of _ "take 4 (drop 16 whole)"] exI [of _ "drop 20 whole"]) (simp only: list_all_append, simp)
qed

lemma backup_name_bound: "length (resolve_schedule_backup_name iso_text template c) \<le> 120"
  by (simp add: resolve_schedule_backup_name_def)

section \<open>Reach\<close>

lemma for_save_simps [simp]:
  "action_id (schedule_action_for_save a) = action_id a"
  "action_target_keys (schedule_action_for_save a) = action_target_keys a"
  "is_wait (schedule_action_for_save a) = is_wait a"
  "schedule_action_supports_target (schedule_action_for_save a) t = schedule_action_supports_target a t"
  "schedule_action_needs_named_target (schedule_action_for_save a) t = schedule_action_needs_named_target a t"
  by (cases a; simp add: is_wait_def schedule_action_needs_named_target_def)+

lemma needs_named_authorized:
  "schedule_action_needs_named_target a t \<Longrightarrow> action_authorized (schedule_action_for_save a) \<and> \<not> is_wait a"
  by (cases a) (auto simp: schedule_action_needs_named_target_def is_wait_def)

section \<open>Versions\<close>

text \<open>
  What is held of a schedule: the revision and generation of its row, or a tombstone's revision,
  which is past every generation.
\<close>

definition held_version :: "('j \<Rightarrow> nat option) \<Rightarrow> ('j, 'r) schedule_tables \<Rightarrow> string \<Rightarrow> (nat \<times> nat option) option" where
  "held_version gen s i =
     (case map_of (st_tombstones s) i of
        Some r \<Rightarrow> Some (r, None)
      | None \<Rightarrow>
          (case map_of (st_schedules s) i of
             Some row \<Rightarrow> Some (sr_revision row, Some (case gen (sr_definition row) of Some g \<Rightarrow> g | None \<Rightarrow> 0))
           | None \<Rightarrow> None))"

fun version_le :: "nat \<times> nat option \<Rightarrow> nat \<times> nat option \<Rightarrow> bool" where
  "version_le (r, g) (r', g') \<longleftrightarrow>
     r < r' \<or> r = r' \<and> (case g' of None \<Rightarrow> True | Some h' \<Rightarrow> (case g of None \<Rightarrow> False | Some h \<Rightarrow> h \<le> h'))"

definition not_older :: "(nat \<times> nat option) option \<Rightarrow> (nat \<times> nat option) option \<Rightarrow> bool" where
  "not_older a b \<longleftrightarrow> (case a of None \<Rightarrow> True | Some v \<Rightarrow> (case b of None \<Rightarrow> False | Some w \<Rightarrow> version_le v w))"

lemma not_older_refl [simp]: "not_older a a"
  by (cases a) (auto simp: not_older_def split: option.splits)

definition tables_ok :: "('j, 'r) schedule_tables \<Rightarrow> bool" where
  "tables_ok s \<longleftrightarrow>
     distinct (map fst (st_schedules s)) \<and> distinct (map fst (st_tombstones s)) \<and>
     fst ` set (st_schedules s) \<inter> fst ` set (st_tombstones s) = {} \<and>
     distinct (map rw_run_id (st_runs s)) \<and> distinct (map (\<lambda>w. (rw_schedule_id w, rw_scheduled_at w)) (st_runs s)) \<and>
     (\<forall>w\<in>set (st_runs s). rw_status w = RunRunning \<longleftrightarrow> rw_finished_at w = None)"

lemma tables_okI:
  "distinct (map fst (st_schedules s)) \<Longrightarrow> distinct (map fst (st_tombstones s)) \<Longrightarrow>
   fst ` set (st_schedules s) \<inter> fst ` set (st_tombstones s) = {} \<Longrightarrow>
   distinct (map rw_run_id (st_runs s)) \<Longrightarrow> distinct (map (\<lambda>w. (rw_schedule_id w, rw_scheduled_at w)) (st_runs s)) \<Longrightarrow>
   (\<And>w. w \<in> set (st_runs s) \<Longrightarrow> rw_status w = RunRunning \<longleftrightarrow> rw_finished_at w = None) \<Longrightarrow> tables_ok s"
  by (simp add: tables_ok_def)

lemma map_of_iff_key: "map_of xs i = None \<longleftrightarrow> i \<notin> fst ` set xs"
  by (simp add: map_of_eq_None_iff)

lemma not_both: "tables_ok s \<Longrightarrow> map_of (st_tombstones s) i = Some r \<Longrightarrow> map_of (st_schedules s) i = None"
proof -
  assume s: "tables_ok s" and "map_of (st_tombstones s) i = Some r"
  then have "i \<in> fst ` set (st_tombstones s)" by (metis map_of_iff_key option.distinct(1))
  moreover have "fst ` set (st_schedules s) \<inter> fst ` set (st_tombstones s) = {}" using s by (simp add: tables_ok_def)
  ultimately show ?thesis unfolding map_of_iff_key by blast
qed

lemma keys_delete [simp]: "fst ` set (AList.delete k xs) = fst ` set xs - {k}"
proof -
  have "fst ` set (AList.delete k xs) = dom (map_of (AList.delete k xs))" by (rule dom_map_of_conv_image_fst [symmetric])
  also have "\<dots> = dom (map_of xs) - {k}" by (simp only: map_of_delete dom_fun_upd) simp
  finally show ?thesis by (simp only: dom_map_of_conv_image_fst)
qed

lemma keys_update [simp]: "fst ` set (AList.update k v xs) = insert k (fst ` set xs)"
proof -
  have "fst ` set (AList.update k v xs) = dom (map_of (AList.update k v xs))" by (rule dom_map_of_conv_image_fst [symmetric])
  also have "\<dots> = insert k (dom (map_of xs))" by (simp only: map_of_update dom_fun_upd) simp
  finally show ?thesis by (simp only: dom_map_of_conv_image_fst)
qed

lemma put_ok:
  assumes "tables_ok s"
  shows "tables_ok (s\<lparr>st_schedules := AList.update i row (st_schedules s), st_tombstones := AList.delete i (st_tombstones s)\<rparr>)"
  using assms unfolding tables_ok_def by (simp add: distinct_update distinct_delete) blast

lemma bury_ok:
  assumes "tables_ok s"
  shows "tables_ok (s\<lparr>st_schedules := AList.delete i (st_schedules s), st_tombstones := AList.update i r (st_tombstones s)\<rparr>)"
  using assms unfolding tables_ok_def by (simp add: distinct_update distinct_delete) blast

lemma apply_schedule_ok:
  assumes "tables_ok s"
  shows "tables_ok (snd (apply_schedule enc gen d next_at s))"
  using assms put_ok [OF assms] by (simp add: apply_schedule_def Let_def split: option.split)

lemma remove_schedule_ok:
  assumes "tables_ok s"
  shows "tables_ok (snd (remove_schedule i revision s))"
  using assms bury_ok [OF assms] by (simp add: remove_schedule_def Let_def split: option.split)

lemma apply_schedule_version:
  assumes "tables_ok s" and "gen (enc d) = sch_generation d"
  shows "not_older (held_version gen s i) (held_version gen (snd (apply_schedule enc gen d next_at s)) i)"
  using assms(2) not_both [OF assms(1)]
  by (auto simp: apply_schedule_def Let_def held_version_def not_older_def split: option.splits if_splits)

lemma remove_schedule_version:
  assumes "tables_ok s"
  shows "not_older (held_version gen s j) (held_version gen (snd (remove_schedule i revision s)) j)"
  using not_both [OF assms]
  by (auto simp: remove_schedule_def Let_def held_version_def not_older_def split: option.splits if_splits)

section \<open>Runs\<close>

abbreviation run_key :: "'r run_row \<Rightarrow> string \<times> int" where
  "run_key w \<equiv> (rw_schedule_id w, rw_scheduled_at w)"

definition runs_ok :: "'r run_row list \<Rightarrow> bool" where
  "runs_ok ws \<longleftrightarrow>
     distinct (map rw_run_id ws) \<and> distinct (map run_key ws) \<and> (\<forall>w\<in>set ws. rw_status w = RunRunning \<longleftrightarrow> rw_finished_at w = None)"

lemma tables_ok_runs: "tables_ok s \<Longrightarrow> runs_ok (st_runs s)" "tables_ok s \<Longrightarrow> runs_ok ws \<Longrightarrow> tables_ok (s\<lparr>st_runs := ws\<rparr>)"
  by (auto simp: tables_ok_def runs_ok_def)

lemma run_values_simps [simp]:
  "rw_run_id (run_values r) = run_id r" "rw_schedule_id (run_values r) = run_schedule_id r"
  "rw_scheduled_at (run_values r) = run_scheduled_at r" "rw_status (run_values r) = run_status_of r"
  "rw_finished_at (run_values r) = None \<longleftrightarrow> run_status_of r = RunRunning"
  by (simp_all add: run_values_def)

lemma run_conflicts_set:
  "run_conflicts w ws \<longleftrightarrow> rw_run_id w \<in> rw_run_id ` set ws \<or> run_key w \<in> run_key ` set ws"
  by (auto simp: run_conflicts_def list_ex_iff image_iff) metis+

lemma runs_ok_append: "runs_ok ws \<Longrightarrow> \<not> run_conflicts w ws \<Longrightarrow> (rw_status w = RunRunning \<longleftrightarrow> rw_finished_at w = None) \<Longrightarrow> runs_ok (ws @ [w])"
  unfolding runs_ok_def run_conflicts_set by auto

lemma insert_run_ok: "runs_ok ws \<Longrightarrow> runs_ok (insert_run r ws)"
  by (simp add: insert_run_def runs_ok_append)

lemma runs_ok_map:
  assumes "runs_ok ws" and "\<And>w. rw_run_id (f w) = rw_run_id w" "\<And>w. run_key (f w) = run_key w"
    and "\<And>w. rw_status w = RunRunning \<longleftrightarrow> rw_finished_at w = None \<Longrightarrow> rw_status (f w) = RunRunning \<longleftrightarrow> rw_finished_at (f w) = None"
  shows "runs_ok (map f ws)"
  using assms unfolding runs_ok_def by (simp add: comp_def)

lemma write_run_ok: "runs_ok ws \<Longrightarrow> write_run r ws = Some ws' \<Longrightarrow> runs_ok ws'"
  by (auto simp: write_run_def Let_def runs_ok_append intro!: runs_ok_map split: if_splits)

lemma runs_ok_filter: "runs_ok ws \<Longrightarrow> runs_ok (filter P ws)"
  by (auto simp: runs_ok_def distinct_map_filter)

lemma prune_runs_ok: "runs_ok ws \<Longrightarrow> runs_ok (prune_runs ws)"
  by (simp add: prune_runs_def Let_def runs_ok_filter)

lemma prune_runs_subset: "set (prune_runs ws) \<subseteq> set ws"
  by (auto simp: prune_runs_def Let_def)

lemma finished_runs_set: "set (finished_runs ws) = {w \<in> set ws. rw_status w \<noteq> RunRunning}"
  by (simp add: finished_runs_def)

lemma prune_keeps_running: "runs_ok ws \<Longrightarrow> w \<in> set ws \<Longrightarrow> rw_status w = RunRunning \<Longrightarrow> w \<in> set (prune_runs ws)"
proof -
  assume ws: "runs_ok ws" "w \<in> set ws" "rw_status w = RunRunning"
  have "rw_run_id w \<noteq> rw_run_id x" if "x \<in> set (drop history_limit (finished_runs ws))" for x
  proof
    assume "rw_run_id w = rw_run_id x"
    moreover have "x \<in> set ws" "rw_status x \<noteq> RunRunning" using in_set_dropD [OF that] by (simp_all add: finished_runs_set)
    ultimately have "w = x" using ws(1,2) by (auto simp: runs_ok_def dest: map_of_eqI inj_onD [of rw_run_id "set ws"] simp: distinct_map)
    then show False using ws(3) \<open>rw_status x \<noteq> RunRunning\<close> by simp
  qed
  then show ?thesis using ws(2) by (auto simp: prune_runs_def Let_def)
qed

text \<open>What is left of the finished runs are the most recent ones, as many as history keeps.\<close>

lemma prune_keeps_recent:
  assumes "runs_ok ws"
  shows "set (filter (\<lambda>w. rw_status w \<noteq> RunRunning) (prune_runs ws)) = set (take history_limit (finished_runs ws))"
proof -
  let ?f = "finished_runs ws"
  have "distinct (map rw_run_id ?f)"
    using assms unfolding finished_runs_def runs_ok_def
    by (simp add: rev_map [symmetric] distinct_map) (metis (no_types, lifting) distinct_filter distinct_map inj_on_subset set_filter subset_iff mem_Collect_eq)
  then have d: "distinct (map rw_run_id (take history_limit ?f @ drop history_limit ?f))" by simp
  have "w \<in> set (take history_limit ?f) \<longleftrightarrow> w \<in> set ?f \<and> rw_run_id w \<notin> rw_run_id ` set (drop history_limit ?f)" for w
  proof
    assume w: "w \<in> set (take history_limit ?f)"
    then show "w \<in> set ?f \<and> rw_run_id w \<notin> rw_run_id ` set (drop history_limit ?f)"
      using d unfolding map_append distinct_append set_map by (blast dest: in_set_takeD)
  next
    assume w: "w \<in> set ?f \<and> rw_run_id w \<notin> rw_run_id ` set (drop history_limit ?f)"
    then have "w \<in> set (take history_limit ?f) \<union> set (drop history_limit ?f)" by (metis append_take_drop_id set_append)
    with w show "w \<in> set (take history_limit ?f)" by auto
  qed
  then show ?thesis by (auto simp: prune_runs_def Let_def finished_runs_set)
qed

lemma prune_bound: "runs_ok ws \<Longrightarrow> length (filter (\<lambda>w. rw_status w \<noteq> RunRunning) (prune_runs ws)) \<le> history_limit"
proof -
  assume ok: "runs_ok ws"
  have "distinct (filter (\<lambda>w. rw_status w \<noteq> RunRunning) (prune_runs ws))"
    using prune_runs_ok [OF ok] by (auto simp: runs_ok_def distinct_map intro: distinct_filter)
  then have "length (filter (\<lambda>w. rw_status w \<noteq> RunRunning) (prune_runs ws)) =
      card (set (take history_limit (finished_runs ws)))"
    using prune_keeps_recent [OF ok] by (metis distinct_card)
  also have "\<dots> \<le> length (take history_limit (finished_runs ws))" by (rule card_length)
  finally show ?thesis by simp
qed

section \<open>Claims\<close>

text \<open>
  The tables over time: a clock that doesn't go back, and the occurrences claimed so far, by
  schedule and time. Nothing is imported while the Relay runs.
\<close>

record ('j, 'r) schedule_world =
  sw_tables :: "('j, 'r) schedule_tables"
  sw_now :: int
  sw_claimed :: "(string \<times> int) list"

definition occurrence_key :: "'r occurrence \<Rightarrow> string \<times> int" where
  "occurrence_key x = (run_schedule_id (oc_run x), oc_scheduled_at x)"

definition next_of :: "(string \<Rightarrow> int \<Rightarrow> int option) \<Rightarrow> schedule_definition \<Rightarrow> int \<Rightarrow> int option option" where
  "next_of occurs d now = (if sch_enabled d then map_option Some (occurs (sch_cron d) now) else Some None)"

text \<open>The cron parser names a time after the one it is asked about.\<close>

definition occurs_later :: "(string \<Rightarrow> int \<Rightarrow> int option) \<Rightarrow> bool" where
  "occurs_later occurs \<longleftrightarrow> (\<forall>e t n. occurs e t = Some n \<longrightarrow> t < n)"

inductive schedule_step ::
  "(schedule_definition \<Rightarrow> 'j) \<Rightarrow> ('j \<Rightarrow> schedule_definition option) \<Rightarrow> ('j \<Rightarrow> nat option) \<Rightarrow> (string \<Rightarrow> int \<Rightarrow> int option) \<Rightarrow>
     int \<Rightarrow> string \<Rightarrow> ('j, 'r) schedule_world \<Rightarrow> ('j, 'r) schedule_world \<Rightarrow> bool"
  for enc dec gen occurs boot_at relay where
  step_time: "sw_now w \<le> t \<Longrightarrow> schedule_step enc dec gen occurs boot_at relay w (w\<lparr>sw_now := t\<rparr>)"
| step_apply: "next_of occurs d (sw_now w) = Some next_at \<Longrightarrow>
    schedule_step enc dec gen occurs boot_at relay w (w\<lparr>sw_tables := snd (apply_schedule enc gen d next_at (sw_tables w))\<rparr>)"
| step_remove: "schedule_step enc dec gen occurs boot_at relay w (w\<lparr>sw_tables := snd (remove_schedule i revision (sw_tables w))\<rparr>)"
| step_claim: "claim_due dec occurs broken (sw_now w) boot_at relay limit (sw_tables w) = (due, s) \<Longrightarrow>
    schedule_step enc dec gen occurs boot_at relay w
      (w\<lparr>sw_tables := s, sw_claimed := sw_claimed w @ map occurrence_key (du_occurrences due)\<rparr>)"
| step_run_now: "run_now dec i revision (sw_now w) relay (sw_tables w) = Inr (occurrence, s) \<Longrightarrow>
    schedule_step enc dec gen occurs boot_at relay w (w\<lparr>sw_tables := s\<rparr>)"
| step_progress: "schedule_step enc dec gen occurs boot_at relay w (w\<lparr>sw_tables := record_progress r (sw_tables w)\<rparr>)"
| step_complete: "complete_run r (sw_tables w) = Some s \<Longrightarrow>
    schedule_step enc dec gen occurs boot_at relay w (w\<lparr>sw_tables := s\<rparr>)"
| step_interrupt: "schedule_step enc dec gen occurs boot_at relay w (w\<lparr>sw_tables := interrupt_runs (sw_now w) (sw_tables w)\<rparr>)"

text \<open>A schedule's next occurrence is later than every one of it that was claimed.\<close>

definition claims_past :: "(string \<times> int) list \<Rightarrow> (string \<times> 'j schedule_row) list \<Rightarrow> bool" where
  "claims_past claimed rows \<longleftrightarrow>
     (\<forall>i row n t. map_of rows i = Some row \<longrightarrow> sr_next_run_at row = Some n \<longrightarrow> (i, t) \<in> set claimed \<longrightarrow> t < n)"

definition world_ok :: "('j, 'r) schedule_world \<Rightarrow> bool" where
  "world_ok w \<longleftrightarrow>
     tables_ok (sw_tables w) \<and> distinct (sw_claimed w) \<and> (\<forall>c\<in>set (sw_claimed w). snd c \<le> sw_now w) \<and>
     claims_past (sw_claimed w) (st_schedules (sw_tables w))"

lemma claims_pastD:
  "claims_past claimed rows \<Longrightarrow> map_of rows i = Some row \<Longrightarrow> sr_next_run_at row = Some n \<Longrightarrow> (i, t) \<in> set claimed \<Longrightarrow> t < n"
  by (auto simp: claims_past_def)

lemma claims_past_update:
  assumes "claims_past claimed rows" and "\<forall>c\<in>set claimed. snd c < n"
  shows "claims_past claimed (AList.update i (row\<lparr>sr_next_run_at := Some n\<rparr>) rows)"
  using assms by (auto simp: claims_past_def split: if_splits)

lemma claims_past_delete: "claims_past claimed rows \<Longrightarrow> claims_past claimed (AList.delete i rows)"
  by (auto simp: claims_past_def split: if_splits)

text \<open>The rows still to be claimed while others were.\<close>

definition claiming ::
  "int \<Rightarrow> (string \<times> int) list \<Rightarrow> (string \<times> 'j schedule_row) list \<Rightarrow> ('j, 'r) claims \<Rightarrow> bool" where
  "claiming now claimed rows c \<longleftrightarrow>
     world_ok \<lparr>sw_tables = cl_tables c, sw_now = now, sw_claimed = claimed @ map occurrence_key (cl_occurrences c)\<rparr> \<and>
     distinct (map fst rows) \<and>
     (\<forall>(i, row)\<in>set rows. map_of (st_schedules (cl_tables c)) i = Some row \<and>
        (case sr_next_run_at row of Some t \<Rightarrow> t \<le> now | None \<Rightarrow> False))"

lemma claim_row_claiming:
  assumes "claiming now claimed (ir # rows) c" and "occurs_later occurs"
  shows "claiming now claimed rows (claim_row dec occurs broken now boot_at relay ir c)"
proof -
  obtain i row where ir: "ir = (i, row)" by fastforce
  from assms(1) obtain at where c: "map_of (st_schedules (cl_tables c)) i = Some row" "sr_next_run_at row = Some at" "at \<le> now"
    by (auto simp: claiming_def ir split: option.splits)
  have rest: "i \<notin> fst ` set rows" "distinct (map fst rows)"
      "\<And>j r. (j, r) \<in> set rows \<Longrightarrow> map_of (st_schedules (cl_tables c)) j = Some r \<and> (case sr_next_run_at r of Some t \<Rightarrow> t \<le> now | None \<Rightarrow> False)"
    using assms(1) by (auto simp: claiming_def ir)
  have other: "j \<noteq> i" if "(j, r) \<in> set rows" for j r using rest(1) that by force
  let ?claimed = "claimed @ map occurrence_key (cl_occurrences c)"
  have ok: "tables_ok (cl_tables c)" "distinct ?claimed" "\<forall>x\<in>set ?claimed. snd x \<le> now" "claims_past ?claimed (st_schedules (cl_tables c))"
    using assms(1) by (simp_all add: claiming_def world_ok_def)
  show ?thesis
  proof (cases "broken i")
    case True
    with ok rest show ?thesis by (auto simp: claim_row_def ir claiming_def world_ok_def)
  next
    case False
    let ?readable = "Option.bind (dec (sr_definition row)) (\<lambda>d. map_option (\<lambda>t. (d, t)) (occurs (sch_cron d) now))"
    show ?thesis
    proof (cases ?readable)
      case None
      have "tables_ok ((cl_tables c)\<lparr>st_schedules := AList.delete i (st_schedules (cl_tables c))\<rparr>)"
        using ok(1) by (auto simp: tables_ok_def distinct_delete)
      with None False ok claims_past_delete [OF ok(4)] rest other show ?thesis
        by (auto simp: claim_row_def ir claiming_def world_ok_def)
    next
      case (Some dn)
      obtain d n where dn: "dn = (d, n)" by fastforce
      with Some have n: "now < n" using assms(2) by (auto simp: bind_eq_Some_conv occurs_later_def)
      let ?run = "new_run i (sr_revision row) at relay now (if at \<le> boot_at then RunMissed else RunRunning)"
      let ?tables = "(cl_tables c)\<lparr>st_runs := insert_run ?run (st_runs (cl_tables c)),
           st_schedules := AList.update i (row\<lparr>sr_next_run_at := Some n\<rparr>) (st_schedules (cl_tables c))\<rparr>"
      let ?new = "if run_conflicts (run_values ?run) (st_runs (cl_tables c)) then []
        else [\<lparr>oc_definition = d, oc_run = ?run, oc_scheduled_at = at\<rparr>]"
      have step: "claim_row dec occurs broken now boot_at relay ir c = c\<lparr>cl_tables := ?tables, cl_occurrences := cl_occurrences c @ ?new\<rparr>"
        using False Some dn c(1,2) by (simp add: claim_row_def ir claim_def Let_def)
      have "runs_ok (insert_run ?run (st_runs (cl_tables c)))" by (intro insert_run_ok tables_ok_runs(1) ok(1))
      moreover have "tables_ok ((cl_tables c)\<lparr>st_schedules := AList.update i (row\<lparr>sr_next_run_at := Some n\<rparr>) (st_schedules (cl_tables c))\<rparr>)"
      proof -
        have "i \<in> fst ` set (st_schedules (cl_tables c))" using c(1) by (metis map_of_iff_key option.distinct(1))
        then have "insert i (fst ` set (st_schedules (cl_tables c))) = fst ` set (st_schedules (cl_tables c))" by blast
        then show ?thesis using ok(1) unfolding tables_ok_def by (simp add: distinct_update)
      qed
      ultimately have tables: "tables_ok ?tables" by (simp add: tables_ok_def runs_ok_def)
      have key: "map occurrence_key ?new = (if run_conflicts (run_values ?run) (st_runs (cl_tables c)) then [] else [(i, at)])"
        by (simp add: occurrence_key_def new_run_def)
      have "(i, at) \<notin> set ?claimed"
        using claims_pastD [OF ok(4) c(1) c(2), of at] by blast
      then have distinct: "distinct (?claimed @ map occurrence_key ?new)" using ok(2) by (simp add: key)
      have now: "\<forall>x\<in>set (?claimed @ map occurrence_key ?new). snd x \<le> now" using ok(3) c(3) by (auto simp: key)
      have "claims_past (?claimed @ map occurrence_key ?new) (st_schedules ?tables)"
        unfolding claims_past_def
      proof (intro allI impI)
        fix j r m t
        assume r: "map_of (st_schedules ?tables) j = Some r" "sr_next_run_at r = Some m"
          and t: "(j, t) \<in> set (?claimed @ map occurrence_key ?new)"
        show "t < m"
        proof (cases "j = i")
          case True
          with r(1) have "r = row\<lparr>sr_next_run_at := Some n\<rparr>" by simp
          with r(2) have "m = n" by simp
          moreover from bspec [OF now t] have "t \<le> now" by (simp only: snd_conv)
          ultimately show ?thesis using n by simp
        next
          case False
          then have "(j, t) \<in> set ?claimed" using t by (auto simp: key split: if_splits)
          with r False show ?thesis by (intro claims_pastD [OF ok(4)]) simp_all
        qed
      qed
      with tables distinct now rest other show ?thesis
        unfolding step by (auto simp: claiming_def world_ok_def)
    qed
  qed
qed

lemma due_rows_distinct: "distinct (map fst (st_schedules s)) \<Longrightarrow> distinct (map fst (due_rows now limit s))"
proof -
  assume d: "distinct (map fst (st_schedules s))"
  have "distinct (map fst (sort_key f (filter P (st_schedules s))))" for f :: "_ \<Rightarrow> int option \<times> string" and P
    using distinct_map_filter [OF d, of P] by (simp add: distinct_map)
  then show ?thesis by (simp only: due_rows_def take_map [symmetric] distinct_take)
qed

lemma due_rows_due:
  assumes "(i, row) \<in> set (due_rows now limit s)"
  shows "(i, row) \<in> set (st_schedules s)" "sr_enabled row" "\<exists>t. sr_next_run_at row = Some t \<and> t \<le> now"
  using assms unfolding due_rows_def by (auto dest!: in_set_takeD split: option.splits)

lemma fold_claiming:
  assumes "occurs_later occurs"
  shows "claiming now claimed rows c \<Longrightarrow> claiming now claimed [] (fold (claim_row dec occurs broken now boot_at relay) rows c)"
proof (induction rows arbitrary: c)
  case (Cons ir rows)
  from claim_row_claiming [OF Cons.prems assms] show ?case by (simp add: Cons.IH)
qed simp

lemma world_ok_prune:
  assumes "world_ok w" shows "world_ok (w\<lparr>sw_tables := (sw_tables w)\<lparr>st_runs := prune_runs (st_runs (sw_tables w))\<rparr>\<rparr>)"
proof -
  have ok: "tables_ok (sw_tables w)" using assms by (simp add: world_ok_def)
  from tables_ok_runs(2) [OF ok prune_runs_ok [OF tables_ok_runs(1) [OF ok]]] assms show ?thesis by (simp add: world_ok_def)
qed

lemma claim_due_world:
  assumes "world_ok w" and "occurs_later occurs"
    and "claim_due dec occurs broken (sw_now w) boot_at relay limit (sw_tables w) = (due, s)"
  shows "world_ok (w\<lparr>sw_tables := s, sw_claimed := sw_claimed w @ map occurrence_key (du_occurrences due)\<rparr>)"
proof -
  let ?rows = "due_rows (sw_now w) limit (sw_tables w)"
  let ?start = "\<lparr>cl_tables = sw_tables w, cl_occurrences = [], cl_failed = False\<rparr>"
  let ?c = "fold (claim_row dec occurs broken (sw_now w) boot_at relay) ?rows ?start"
  have keys: "distinct (map fst (st_schedules (sw_tables w)))" using assms(1) by (simp add: world_ok_def tables_ok_def)
  have "\<forall>(i, row)\<in>set ?rows. map_of (st_schedules (sw_tables w)) i = Some row \<and>
      (case sr_next_run_at row of Some t \<Rightarrow> t \<le> sw_now w | None \<Rightarrow> False)"
    using due_rows_due [where s = "sw_tables w" and now = "sw_now w" and limit = limit] keys
    by (fastforce simp: map_of_eq_Some_iff)
  then have "claiming (sw_now w) (sw_claimed w) ?rows ?start"
    using assms(1) due_rows_distinct [OF keys] by (simp add: claiming_def world_ok_def)
  from fold_claiming [OF assms(2) this]
  have done_ok: "world_ok \<lparr>sw_tables = cl_tables ?c, sw_now = sw_now w, sw_claimed = sw_claimed w @ map occurrence_key (cl_occurrences ?c)\<rparr>"
    by (simp add: claiming_def)
  have due: "du_occurrences due = cl_occurrences ?c" "s = cl_tables ?c \<or> s = (cl_tables ?c)\<lparr>st_runs := prune_runs (st_runs (cl_tables ?c))\<rparr>"
    using assms(3) by (auto simp: claim_due_def Let_def split: if_splits)
  from due(2) show ?thesis
  proof
    assume "s = cl_tables ?c" with done_ok due(1) show ?thesis by (simp add: world_ok_def)
  next
    assume "s = (cl_tables ?c)\<lparr>st_runs := prune_runs (st_runs (cl_tables ?c))\<rparr>"
    with world_ok_prune [OF done_ok] due(1) show ?thesis by (simp add: world_ok_def)
  qed
qed

lemma claims_past_apply:
  assumes "claims_past claimed (st_schedules s)" and "\<forall>c\<in>set claimed. snd c \<le> now"
    and "next_of occurs d now = Some next_at" and "occurs_later occurs"
  shows "claims_past claimed (st_schedules (snd (apply_schedule enc gen d next_at s)))"
proof -
  have later: "snd c < n" if "next_at = Some n" "c \<in> set claimed" for n c
    using that assms(2,3) assms(4) [unfolded occurs_later_def, rule_format, of "sch_cron d" now n]
    by (fastforce simp: next_of_def split: if_splits)
  have "claims_past claimed (AList.update (sch_id d) (row\<lparr>sr_next_run_at := next_at\<rparr>) (st_schedules s))" for row
    using assms(1) later by (force simp: claims_past_def)
  from this [of "\<lparr>sr_revision = sch_revision d, sr_enabled = sch_enabled d, sr_next_run_at = next_at, sr_definition = enc d\<rparr>"]
  show ?thesis using assms(1) by (auto simp: apply_schedule_def Let_def split: option.split)
qed

lemma schedule_step_world:
  assumes "schedule_step enc dec gen occurs boot_at relay w w'" and "world_ok w"
    and later: "occurs_later occurs"
  shows "world_ok w'"
  using assms(1)
proof cases
  case (step_time t)
  then show ?thesis using assms(2) by (auto simp: world_ok_def)
next
  case (step_apply d next_at)
  have "claims_past (sw_claimed w) (st_schedules (snd (apply_schedule enc gen d next_at (sw_tables w))))"
    using assms(2) by (intro claims_past_apply [where occurs = occurs and now = "sw_now w"] step_apply(2) later) (simp_all add: world_ok_def)
  with step_apply assms(2) show ?thesis by (simp add: world_ok_def apply_schedule_ok)
next
  case (step_remove i revision)
  have "claims_past (sw_claimed w) (st_schedules (snd (remove_schedule i revision (sw_tables w))))"
    using assms(2) claims_past_delete by (auto simp: world_ok_def remove_schedule_def Let_def split: option.split)
  with step_remove assms(2) show ?thesis by (simp add: world_ok_def remove_schedule_ok)
next
  case (step_claim broken limit due s)
  with claim_due_world [OF assms(2) later] show ?thesis by simp
next
  case (step_run_now i revision occurrence s)
  then obtain runs r where s: "s = (sw_tables w)\<lparr>st_runs := runs\<rparr>" "write_run r (st_runs (sw_tables w)) = Some runs"
    by (auto simp: run_now_def Let_def split: option.splits if_splits)
  with step_run_now assms(2) write_run_ok [OF tables_ok_runs(1) s(2)] show ?thesis
    by (simp add: world_ok_def tables_ok_runs(2))
next
  case (step_progress r)
  have "runs_ok (st_runs (record_progress r (sw_tables w)))" if "runs_ok (st_runs (sw_tables w))"
    using that unfolding record_progress_def by (auto intro!: runs_ok_map)
  with step_progress assms(2) show ?thesis
    by (simp add: world_ok_def tables_ok_def runs_ok_def record_progress_def)
next
  case (step_complete r s)
  then obtain runs where s: "s = (sw_tables w)\<lparr>st_runs := prune_runs runs\<rparr>" "write_run r (st_runs (sw_tables w)) = Some runs"
    by (auto simp: complete_run_def)
  with step_complete assms(2) prune_runs_ok [OF write_run_ok [OF tables_ok_runs(1) s(2)]] show ?thesis
    by (simp add: world_ok_def tables_ok_runs(2))
next
  case step_interrupt
  have "runs_ok (st_runs (interrupt_runs (sw_now w) (sw_tables w)))" if "runs_ok (st_runs (sw_tables w))"
    using that unfolding interrupt_runs_def by (auto intro!: runs_ok_map)
  with step_interrupt assms(2) show ?thesis
    by (simp add: world_ok_def tables_ok_def runs_ok_def interrupt_runs_def)
qed

end
