(* ===== verification/Schedule_Manager.thy ===== *)
theory Schedule_Manager
  imports Schedule_Runs Schedule_Tables
begin

text \<open>
  \<open>apps/relay/src/schedules.ts\<close>: \<open>ScheduleManager\<close>, which claims what is due, runs it and keeps two
  occurrences off one target. The calls of a manager run one at a time; the occurrences it
  launches run on their own.
\<close>

section \<open>The manager\<close>

definition schedule_batch_size :: nat where
  "schedule_batch_size = 32"

text \<open>
  \<open>mg_next_run_at\<close> is undefined (\<open>None\<close>), null or a time. What was launched is kept as a trace, and
  \<open>mg_reports\<close> counts what was reported.
\<close>

record ('j, 'r) manager =
  mg_next_run_at :: "int option option"
  mg_next_claim_at :: int
  mg_failures :: nat
  mg_reports :: nat
  mg_running :: nat
  mg_launched :: "'r occurrence list"
  mg_tables :: "('j, 'r) schedule_tables"

definition start_manager ::
  "(schedule_definition \<Rightarrow> 'j) \<Rightarrow> ((schedule_definition \<times> int option) list \<times> (string \<times> nat) list \<times> 'r schedule_run list) option \<Rightarrow>
     int \<Rightarrow> ('j, 'r) schedule_tables \<Rightarrow> ('j, 'r) manager" where
  "start_manager enc legacy boot_at s =
     (let s = (case legacy of Some (schedules, tombstones, runs) \<Rightarrow> import_legacy enc schedules tombstones runs s | None \<Rightarrow> s) in
      \<lparr>mg_next_run_at = None, mg_next_claim_at = 0, mg_failures = 0, mg_reports = 0, mg_running = 0, mg_launched = [],
        mg_tables = interrupt_runs boot_at s\<rparr>)"

definition manager_apply ::
  "(schedule_definition \<Rightarrow> 'j) \<Rightarrow> ('j \<Rightarrow> nat option) \<Rightarrow> (string \<Rightarrow> int \<Rightarrow> int option) \<Rightarrow> schedule_definition \<Rightarrow> int \<Rightarrow>
     ('j, 'r) manager \<Rightarrow> (deployment \<times> ('j, 'r) manager) option" where
  "manager_apply enc gen occurs d now m =
     map_option (\<lambda>next_at. case apply_schedule enc gen d next_at (mg_tables m) of (answer, s) \<Rightarrow>
         (answer, m\<lparr>mg_tables := s, mg_next_run_at := None\<rparr>)) (next_of occurs d now)"

definition manager_remove :: "string \<Rightarrow> nat \<Rightarrow> ('j, 'r) manager \<Rightarrow> deployment \<times> ('j, 'r) manager" where
  "manager_remove i revision m =
     (case remove_schedule i revision (mg_tables m) of (answer, s) \<Rightarrow> (answer, m\<lparr>mg_tables := s, mg_next_run_at := None\<rparr>))"

definition launch :: "'r occurrence \<Rightarrow> ('j, 'r) manager \<Rightarrow> ('j, 'r) manager" where
  "launch x m = m\<lparr>mg_running := mg_running m + 1, mg_launched := mg_launched m @ [x]\<rparr>"

datatype run_now_failure = AtCapacity | RunNowFailed run_now_error

definition manager_run_now ::
  "('j \<Rightarrow> schedule_definition option) \<Rightarrow> string \<Rightarrow> nat \<Rightarrow> int \<Rightarrow> string \<Rightarrow> ('j, 'r) manager \<Rightarrow>
     run_now_failure + 'r schedule_run \<times> ('j, 'r) manager" where
  "manager_run_now dec i revision now relay m =
     (if mg_running m \<ge> schedule_batch_size then Inl AtCapacity
      else case run_now dec i revision now relay (mg_tables m) of
        Inl e \<Rightarrow> Inl (RunNowFailed e)
      | Inr (x, s) \<Rightarrow> Inr (oc_run x, launch x (m\<lparr>mg_tables := s\<rparr>)))"

text \<open>Storage failures affect every schedule, so one back-off covers them all.\<close>

definition claim_failed :: "int \<Rightarrow> ('j, 'r) manager \<Rightarrow> ('j, 'r) manager" where
  "claim_failed now m =
     m\<lparr>mg_reports := mg_reports m + (if mg_failures m = 0 then 1 else 0), mg_failures := mg_failures m + 1,
       mg_next_claim_at := now + min 60000 (1000 * 2 ^ min (mg_failures m) 6)\<rparr>"

text \<open>
  \<open>#tick\<close>: batches are claimed until one isn't full, as far as there is room for what they launch.
  \<open>ended\<close> tells how many occurrences end before each batch, and \<open>broken\<close> which rows of it a storage
  failure keeps; fuel counts batches.
\<close>

fun claim_batches ::
  "nat \<Rightarrow> ('j \<Rightarrow> schedule_definition option) \<Rightarrow> (string \<Rightarrow> int \<Rightarrow> int option) \<Rightarrow> (nat \<Rightarrow> string \<Rightarrow> bool) \<Rightarrow> (nat \<Rightarrow> nat) \<Rightarrow>
     int \<Rightarrow> int \<Rightarrow> string \<Rightarrow> nat \<Rightarrow> ('j, 'r) manager \<Rightarrow> ('j, 'r) manager option" where
  "claim_batches 0 dec occurs broken ended now boot_at relay n m = None"
| "claim_batches (Suc fuel) dec occurs broken ended now boot_at relay n m =
     (let m = m\<lparr>mg_running := mg_running m - ended n\<rparr>;
          available = schedule_batch_size - mg_running m in
      if available = 0 then Some m
      else case claim_due dec occurs (broken n) now boot_at relay available (mg_tables m) of (due, s) \<Rightarrow>
        let m = fold launch (filter (\<lambda>x. run_status_of (oc_run x) = RunRunning) (du_occurrences due)) (m\<lparr>mg_tables := s\<rparr>) in
        if du_failed due then Some (claim_failed now m)
        else if \<not> du_has_more due then Some (m\<lparr>mg_failures := 0\<rparr>)
        else claim_batches fuel dec occurs broken ended now boot_at relay (Suc n) (m\<lparr>mg_failures := 0\<rparr>))"

definition tick ::
  "nat \<Rightarrow> ('j \<Rightarrow> schedule_definition option) \<Rightarrow> (string \<Rightarrow> int \<Rightarrow> int option) \<Rightarrow> (nat \<Rightarrow> string \<Rightarrow> bool) \<Rightarrow> (nat \<Rightarrow> nat) \<Rightarrow>
     int \<Rightarrow> int \<Rightarrow> string \<Rightarrow> ('j, 'r) manager \<Rightarrow> ('j, 'r) manager option" where
  "tick fuel dec occurs broken ended now boot_at relay m =
     (if now < mg_next_claim_at m then Some m
      else
        let next_at = (case mg_next_run_at m of Some t \<Rightarrow> t | None \<Rightarrow> next_run_at (mg_tables m));
            idle = (case next_at of None \<Rightarrow> True | Some t \<Rightarrow> t > now) in
        if idle then Some (m\<lparr>mg_next_run_at := Some next_at, mg_failures := 0\<rparr>)
        else claim_batches fuel dec occurs broken ended now boot_at relay 0 (m\<lparr>mg_next_run_at := None\<rparr>))"

section \<open>Occurrences side by side\<close>

text \<open>
  \<open>#activeTargets\<close> while occurrences begin, reserving what is free of their targets, and end, giving
  back what they reserved.
\<close>

record occurrences_world =
  ow_active :: "string list"
  ow_running :: "(nat \<times> string list) list"

inductive occurrences_step :: "occurrences_world \<Rightarrow> occurrences_world \<Rightarrow> bool" where
  occurrence_begins: "n \<notin> fst ` set (ow_running w) \<Longrightarrow> reserve_targets env 0 targets (ow_active w) = (states, active) \<Longrightarrow>
    occurrences_step w (w\<lparr>ow_active := active, ow_running := ow_running w @ [(n, List.map_filter ts_active_key states)]\<rparr>)"
| occurrence_ends: "map_of (ow_running w) n = Some keys \<Longrightarrow>
    occurrences_step w (w\<lparr>ow_active := filter (\<lambda>k. k \<notin> set keys) (ow_active w), ow_running := AList.delete n (ow_running w)\<rparr>)"

end
