(* ===== verification/Schedule_Claims.thy ===== *)
theory Schedule_Claims
  imports Schedule_Manager
begin

text \<open>
  What running schedules guarantees: each step of each reserved target ends in one attempt, calls
  reach only what their step was checked for, a command in a container is on record before it is
  sent, two occurrences never share a target, an occurrence is claimed once, and a tick ends.
\<close>

section \<open>The calls of a step\<close>

text \<open>What a step may ask for on a target.\<close>

definition call_of_step :: "schedule_action \<Rightarrow> schedule_target \<Rightarrow> call \<Rightarrow> bool" where
  "call_of_step a t c =
     (case a of
        CommandStep s \<Rightarrow>
          (case c of
             SendConsole i command \<Rightarrow> tg_kind t = TKInstance \<and> i = tg_id t \<and> command = cm_command s
           | RunContainer (DatabaseContainer i) command \<Rightarrow> tg_kind t = TKDatabase \<and> i = tg_id t \<and> command = cm_command s
           | RunContainer (AppService i service) command \<Rightarrow>
               tg_kind t = TKApp \<and> i = tg_id t \<and> service \<noteq> [] \<and> command = cm_command s \<and>
               Option.bind (cm_services s) (\<lambda>m. map_of m (schedule_target_key t)) = Some service
           | _ \<Rightarrow> False)
      | PowerStep p \<Rightarrow>
          (case c of
             RunPower kind i action intent \<Rightarrow> tg_kind t \<noteq> TKRelay \<and> kind = tg_kind t \<and> i = tg_id t \<and> action = pw_action p
           | _ \<Rightarrow> False)
      | BackupStep b \<Rightarrow>
          (case c of
             EnqueueBackup i \<Rightarrow> \<not> truthy (backup_refusal b t) \<and>
               (if tg_kind t = TKApp
                then list_ex (\<lambda>x. bi_target i = (if bx_target_kind x = XVolume then OnVolume else OnApp, bx_target_id x))
                  (app_backup_executions b t) \<and> bi_app_coverage i = Some (tg_id t, volume_ids (app_backup_executions b t))
                else bi_mode i = bu_mode b \<and> (fst (bi_target i) = OnPlatform \<or> snd (bi_target i) = tg_id t) \<and>
                  (fst (bi_target i) = OnPlatform \<longleftrightarrow> tg_kind t = TKRelay))
           | _ \<Rightarrow> False)
      | WaitStep w \<Rightarrow> False)"

lemma execute_action_calls:
  assumes "execute_action opts env schedule a t scheduled_at intent = (calls, outcome)"
    and "\<forall>b. a = BackupStep b \<longrightarrow> \<not> truthy (backup_refusal b t)"
  shows "list_all (call_of_step a t) calls"
proof (cases a)
  case (CommandStep c)
  with assms(1) show ?thesis
    by (auto simp: execute_action_def send_def run_container_def call_of_step_def split: target_kind.splits option.splits if_splits)
next
  case (PowerStep p)
  with assms(1) show ?thesis
    by (auto simp: execute_action_def send_def call_of_step_def split: if_splits)
next
  case (WaitStep w)
  with assms(1) show ?thesis by (simp add: execute_action_def)
next
  case (BackupStep b)
  have refused: "\<not> truthy (backup_refusal b t)" using assms(2) BackupStep by simp
  show ?thesis
  proof (cases "tg_kind t = TKApp")
    case True
    have member: "call_of_step a t (EnqueueBackup (member_backup_input opts schedule b t scheduled_at (app_backup_executions b t) x))"
      if "x \<in> set (app_backup_executions b t)" for x
      using True refused BackupStep
      by (simp add: call_of_step_def member_backup_input_def Let_def list_ex_iff) (auto intro!: bexI [OF _ that])
    have "list_all (call_of_step a t) (map EnqueueBackup inputs)"
      if "app_backup_inputs opts schedule b t scheduled_at (se_owned env) = Inr inputs" for inputs
      using that member by (auto simp: app_backup_inputs_def Let_def and_then_Inr_iff list_all_iff split: if_splits)
    with True assms(1) BackupStep show ?thesis
      by (auto simp: execute_action_def queue_backups_def Let_def split: sum.splits)
  next
    case False
    have "call_of_step a t (EnqueueBackup i)" if "target_backup_input opts schedule b t scheduled_at = Inr i" for i
      using that False refused BackupStep
      by (cases "tg_kind t") (auto simp: target_backup_input_def Let_def call_of_step_def split: option.splits if_splits)
    with False assms(1) BackupStep show ?thesis
      by (auto simp: execute_action_def queue_backups_def Let_def and_then_Inr_iff split: sum.splits)
  qed
qed

text \<open>A command to a container is its step's only call.\<close>

definition runs_in_container :: "call \<Rightarrow> bool" where
  "runs_in_container c = (case c of RunContainer _ _ \<Rightarrow> True | _ \<Rightarrow> False)"

lemma container_call_alone:
  assumes "execute_action opts env schedule a t scheduled_at intent = (calls, outcome)"
  shows "list_all (\<lambda>c. \<not> runs_in_container c) calls \<or> (\<exists>c. calls = [c] \<and> in_container a t)"
proof (cases a)
  case (CommandStep c)
  with assms show ?thesis
    by (auto simp: execute_action_def send_def run_container_def runs_in_container_def in_container_def
        split: target_kind.splits option.splits if_splits)
next
  case (PowerStep p)
  with assms show ?thesis by (auto simp: execute_action_def send_def runs_in_container_def split: if_splits)
next
  case (BackupStep b)
  with assms show ?thesis
    by (auto simp: execute_action_def queue_backups_def Let_def runs_in_container_def list_all_iff split: sum.splits if_splits)
next
  case (WaitStep w)
  with assms show ?thesis by (simp add: execute_action_def)
qed

section \<open>Traces\<close>

text \<open>Each command to a container comes right after a landed record of it as unknown.\<close>

definition announces :: "trace_event option \<Rightarrow> bool" where
  "announces e =
     (case e of
        Some (Recorded True Landed r) \<Rightarrow>
          tr_status r = TargetInterrupted \<and> tr_attempts r \<noteq> [] \<and> at_status (last (tr_attempts r)) = AttemptUnknown
      | _ \<Rightarrow> False)"

fun commands_recorded :: "trace_event option \<Rightarrow> trace_event list \<Rightarrow> bool" where
  "commands_recorded prev [] \<longleftrightarrow> True"
| "commands_recorded prev (e # es) \<longleftrightarrow>
     (case e of Called c \<Rightarrow> runs_in_container c \<longrightarrow> announces prev | Recorded _ _ _ \<Rightarrow> True) \<and> commands_recorded (Some e) es"

lemma commands_recorded_append:
  "commands_recorded prev (xs @ ys) \<longleftrightarrow>
     commands_recorded prev xs \<and> commands_recorded (if xs = [] then prev else Some (last xs)) ys"
  by (induction xs arbitrary: prev) auto

lemma commands_recorded_other:
  "list_all (\<lambda>c. \<not> runs_in_container c) calls \<Longrightarrow> commands_recorded prev (map Called calls)"
  by (induction calls arbitrary: prev) auto

definition reaches :: "schedule_action list \<Rightarrow> schedule_target \<Rightarrow> trace_event \<Rightarrow> bool" where
  "reaches as t e =
     (case e of Called c \<Rightarrow> list_ex (\<lambda>a. schedule_action_applies_to_target a t \<and> call_of_step a t c) as | Recorded _ _ _ \<Rightarrow> True)"

text \<open>What every target keeps while the steps \<open>as\<close> run.\<close>

definition target_ok :: "schedule_action list \<Rightarrow> target_state \<Rightarrow> bool" where
  "target_ok as st \<longleftrightarrow>
     commands_recorded None (ts_trace st) \<and> list_all (reaches as (ts_target st)) (ts_trace st) \<and>
     (ts_threw st \<or> ts_in_flight st = None) \<and> (ts_active_key st = None \<longrightarrow> ts_attempts st = [] \<and> ts_trace st = [])"

lemma step_fields [simp]:
  "ts_trace (push_attempt a st) = ts_trace st" "ts_target (push_attempt a st) = ts_target st"
  "ts_threw (push_attempt a st) = ts_threw st" "ts_in_flight (push_attempt a st) = ts_in_flight st"
  "ts_active_key (push_attempt a st) = ts_active_key st" "ts_attempts (push_attempt a st) = ts_attempts st @ [a]"
  "ts_power_intent (push_attempt a st) = ts_power_intent st"
  "ts_trace (note_failure f st) = ts_trace st" "ts_target (note_failure f st) = ts_target st"
  "ts_threw (note_failure f st) = ts_threw st" "ts_in_flight (note_failure f st) = ts_in_flight st"
  "ts_active_key (note_failure f st) = ts_active_key st" "ts_attempts (note_failure f st) = ts_attempts st"
  by (simp_all add: push_attempt_def note_failure_def)

lemma record_fields [simp]:
  "ts_trace (record_step schedule scheduled_at now required result st) =
     ts_trace st @ [Recorded required result (target_run_of (sch_id schedule) scheduled_at now st)]"
  "ts_target (record_step schedule scheduled_at now required result st) = ts_target st"
  "ts_threw (record_step schedule scheduled_at now required result st) = (ts_threw st \<or> result = Threw)"
  "ts_in_flight (record_step schedule scheduled_at now required result st) = ts_in_flight st"
  "ts_active_key (record_step schedule scheduled_at now required result st) = ts_active_key st"
  "ts_attempts (record_step schedule scheduled_at now required result st) = ts_attempts st"
  "ts_power_intent (record_step schedule scheduled_at now required result st) = ts_power_intent st"
  by (simp_all add: record_step_def)

text \<open>The one attempt a step that was tried ends in, and the events it adds.\<close>

lemma perform_step_shape:
  fixes opts schedule a scheduled_at env st
  defines "st' \<equiv> perform_step opts schedule a scheduled_at env st"
  obtains attempt_of calls outcome late where
    "execute_action opts env schedule a (ts_target st) scheduled_at (ts_power_intent st) = (calls, outcome)"
    "ts_attempts st' = ts_attempts st @ [attempt_of]" "at_action_id attempt_of = action_id a"
    "ts_trace st' = ts_trace st @ map Called calls @ late" "late = [] \<or> (\<exists>p r. late = [Recorded False p r])"
    "ts_target st' = ts_target st" "ts_active_key st' = ts_active_key st" "ts_in_flight st' = None"
    "ts_threw st \<Longrightarrow> ts_threw st'"
proof -
  obtain calls outcome where call:
      "execute_action opts env schedule a (ts_target st) scheduled_at (ts_power_intent st) = (calls, outcome)"
    by fastforce
  let ?late = "\<lambda>r. if in_container a (ts_target st) then [Recorded False (se_late_progress env) r] else []"
  have "\<exists>attempt_of r. ts_attempts st' = ts_attempts st @ [attempt_of] \<and> at_action_id attempt_of = action_id a \<and>
      ts_trace st' = ts_trace st @ map Called calls @ ?late r \<and>
      ts_target st' = ts_target st \<and> ts_active_key st' = ts_active_key st \<and> ts_in_flight st' = None \<and> (ts_threw st \<longrightarrow> ts_threw st')"
    by (auto simp: st'_def perform_step_def call Let_def outcome_attempt_def attempt_def split: sum.split)
  then obtain attempt_of r where "ts_attempts st' = ts_attempts st @ [attempt_of]" "at_action_id attempt_of = action_id a"
      "ts_trace st' = ts_trace st @ map Called calls @ ?late r"
      "ts_target st' = ts_target st" "ts_active_key st' = ts_active_key st" "ts_in_flight st' = None" "ts_threw st \<Longrightarrow> ts_threw st'"
    by blast
  with call show thesis by (intro that [of calls outcome attempt_of "?late r"]) auto
qed

lemma step_held_back_cong:
  "ts_failure st = ts_failure st' \<Longrightarrow> ts_missing st = ts_missing st' \<Longrightarrow> ts_target st = ts_target st' \<Longrightarrow>
   step_held_back schedule a sequence_failure env st = step_held_back schedule a sequence_failure env st'"
  by (simp only: step_held_back_def)

lemma held_back_None:
  assumes "step_held_back schedule a sequence_failure env st = None"
  shows "schedule_action_applies_to_target a (ts_target st)" "a = BackupStep b \<Longrightarrow> \<not> truthy (backup_refusal b (ts_target st))"
  using assms by (auto simp: step_held_back_def Let_def truthy_def split: if_splits option.splits)

lemma perform_reaches:
  assumes "execute_action opts env schedule a (ts_target st) scheduled_at intent = (calls, outcome)"
    and "step_held_back schedule a sequence_failure env st = None" and "a \<in> set as"
  shows "list_all (reaches as (ts_target st)) (map Called calls)"
proof -
  have "list_all (call_of_step a (ts_target st)) calls"
    using execute_action_calls [OF assms(1)] held_back_None(2) [OF assms(2)] by simp
  with held_back_None(1) [OF assms(2)] assms(3) show ?thesis by (auto simp: list_all_iff list_ex_iff reaches_def)
qed

lemma announcesD: "announces (Some e) \<Longrightarrow> \<exists>r. e = Recorded True Landed r"
  by (cases e) (auto simp: announces_def split: bool.splits progress.splits)

text \<open>The record of a command that is about to be sent says so.\<close>

lemma record_announces:
  "ts_in_flight st = Some a \<Longrightarrow> at_status a = AttemptUnknown \<Longrightarrow> ts_active_key st \<noteq> None \<Longrightarrow>
   announces (Some (Recorded True Landed (target_run_of i t now st)))"
  by (simp add: announces_def target_run_of_def)

definition runs_step :: "schedule_action list \<Rightarrow> schedule_action \<Rightarrow> target_state \<Rightarrow> target_state \<Rightarrow> bool" where
  "runs_step as a st st' \<longleftrightarrow>
     target_ok as st' \<and> ts_target st' = ts_target st \<and> ts_active_key st' = ts_active_key st \<and>
     (ts_threw st' \<or> ts_active_key st = None \<or>
      map at_action_id (ts_attempts st') = map at_action_id (ts_attempts st) @ [action_id a])"

lemma perform_runs_step:
  assumes "target_ok as st0" "\<not> ts_threw st0" "ts_active_key st0 \<noteq> None"
    and "step_held_back schedule a sequence_failure env st = None" "a \<in> set as" "ts_target st = ts_target st0"
    and "ts_active_key st = ts_active_key st0" "ts_attempts st = ts_attempts st0"
    and "ts_trace st = ts_trace st0 @ recorded"
    and "if in_container a (ts_target st0) then \<exists>e. recorded = [e] \<and> announces (Some e) else recorded = []"
  shows "runs_step as a st0 (perform_step opts schedule a scheduled_at env st)"
proof -
  let ?st' = "perform_step opts schedule a scheduled_at env st"
  obtain attempt_of calls outcome late where call:
      "execute_action opts env schedule a (ts_target st) scheduled_at (ts_power_intent st) = (calls, outcome)"
    and st': "ts_attempts ?st' = ts_attempts st @ [attempt_of]" "at_action_id attempt_of = action_id a"
      "ts_trace ?st' = ts_trace st @ map Called calls @ late" "late = [] \<or> (\<exists>p r. late = [Recorded False p r])"
      "ts_target ?st' = ts_target st" "ts_active_key ?st' = ts_active_key st" "ts_in_flight ?st' = None"
    by (rule perform_step_shape [where opts = opts and schedule = schedule and a = a and scheduled_at = scheduled_at and env = env and st = st]) blast
  have late: "commands_recorded e late" "list_all (reaches as (ts_target st0)) late" for e
    using st'(4) by (auto simp: reaches_def)
  have recorded: "commands_recorded e recorded" "list_all (reaches as (ts_target st0)) recorded" for e
    using assms(10) by (auto simp: reaches_def dest!: announcesD split: if_splits)
  have "commands_recorded (if ts_trace st = [] then None else Some (last (ts_trace st))) (map Called calls)"
  proof (cases "list_all (\<lambda>c. \<not> runs_in_container c) calls")
    case True
    then show ?thesis by (rule commands_recorded_other)
  next
    case False
    then obtain c where "calls = [c]" "in_container a (ts_target st0)" using container_call_alone [OF call] assms(6) by auto
    with assms(9,10) show ?thesis by auto
  qed
  moreover have "commands_recorded None (ts_trace st)"
    using assms(1) recorded(1) by (simp add: assms(9) commands_recorded_append target_ok_def)
  ultimately have "commands_recorded None (ts_trace ?st')"
    using late(1) by (simp only: st'(3) commands_recorded_append)
  moreover have "list_all (reaches as (ts_target st0)) (map Called calls)"
    using perform_reaches [OF call assms(4,5)] assms(6) by simp
  then have "list_all (reaches as (ts_target st0)) (ts_trace ?st')"
    using assms(1) late(2) recorded(2) by (simp add: st'(3) assms(9) target_ok_def)
  ultimately have "target_ok as ?st'" using assms(3,6,7) st'(5-7) by (auto simp: target_ok_def)
  then show ?thesis using st' assms(6-8) unfolding runs_step_def by simp
qed

lemma execute_target_runs_step:
  assumes "target_ok as st" "\<not> ts_threw st" "a \<in> set as"
  shows "runs_step as a st (execute_target_action opts schedule a scheduled_at sequence_failure env st)"
proof -
  consider (overlap) "ts_active_key st = None"
    | (held) status error where "ts_active_key st \<noteq> None" "step_held_back schedule a sequence_failure env st = Some (status, error)"
    | (plain) "ts_active_key st \<noteq> None" "step_held_back schedule a sequence_failure env st = None" "\<not> in_container a (ts_target st)"
    | (command) "ts_active_key st \<noteq> None" "step_held_back schedule a sequence_failure env st = None" "in_container a (ts_target st)"
    by (cases "step_held_back schedule a sequence_failure env st") auto
  then show ?thesis
  proof cases
    case overlap
    with assms show ?thesis by (simp add: execute_target_action_def Let_def runs_step_def)
  next
    case (held status error)
    with assms show ?thesis by (auto simp: execute_target_action_def Let_def runs_step_def target_ok_def attempt_def)
  next
    case plain
    with perform_runs_step [OF assms(1,2) plain(1,2) assms(3), of "[]"] show ?thesis
      by (auto simp: execute_target_action_def Let_def)
  next
    case command
    let ?flying = "st\<lparr>ts_in_flight := Some (unknown_attempt schedule scheduled_at (se_clock env) a (ts_target st))\<rparr>"
    let ?recorded = "record_step schedule scheduled_at (fst (se_clock env)) True (se_progress env) ?flying"
    let ?event = "Recorded True (se_progress env) (target_run_of (sch_id schedule) scheduled_at (fst (se_clock env)) ?flying)"
    show ?thesis
    proof (cases "se_progress env")
      case Landed
      have "announces (Some ?event)"
        unfolding Landed
        by (rule record_announces [where a = "unknown_attempt schedule scheduled_at (se_clock env) a (ts_target st)"])
          (use command(1) in \<open>simp_all add: unknown_attempt_def attempt_def\<close>)
      moreover have "step_held_back schedule a sequence_failure env ?recorded = None"
        using command(2) step_held_back_cong [of ?recorded st schedule a sequence_failure env] by (simp add: record_step_def)
      ultimately have "runs_step as a st (perform_step opts schedule a scheduled_at env ?recorded)"
        using command assms by (intro perform_runs_step [where recorded = "[?event]"]) simp_all
      with command Landed show ?thesis by (auto simp: execute_target_action_def Let_def)
    next
      case Lost
      with command assms show ?thesis
        by (simp add: execute_target_action_def Let_def runs_step_def target_ok_def commands_recorded_append reaches_def attempt_def)
    next
      case Threw
      with command assms show ?thesis
        by (simp add: execute_target_action_def Let_def runs_step_def target_ok_def commands_recorded_append reaches_def)
    qed
  qed
qed

section \<open>The steps of an occurrence\<close>

text \<open>
  After the steps \<open>past\<close>: what the targets and the sequence have to show for them, unless a record
  threw.
\<close>

definition occurrence_ok ::
  "schedule_action list \<Rightarrow> (schedule_target \<times> string option) list \<Rightarrow> schedule_action list \<Rightarrow> occurrence_state \<Rightarrow> bool" where
  "occurrence_ok as reserved past os \<longleftrightarrow>
     list_all (target_ok as) (os_targets os) \<and> map (\<lambda>st. (ts_target st, ts_active_key st)) (os_targets os) = reserved \<and>
     (list_ex ts_threw (os_targets os) \<or>
      list_all (\<lambda>st. ts_active_key st = None \<or>
        map at_action_id (ts_attempts st) = map action_id (filter (\<lambda>a. \<not> is_wait a) past)) (os_targets os) \<and>
      map at_action_id (os_sequence os) = map action_id (filter is_wait past))"

lemma is_wait_simps [simp]:
  "is_wait (CommandStep c) = False" "is_wait (BackupStep b) = False" "is_wait (PowerStep p) = False" "is_wait (WaitStep w) = True"
  by (simp_all add: is_wait_def)

lemma wait_phase_fields:
  "os_targets (wait_phase schedule scheduled_at env n w os) = os_targets os"
  "map at_action_id (os_sequence (wait_phase schedule scheduled_at env n w os)) = map at_action_id (os_sequence os) @ [wt_id w]"
  by (auto simp: wait_phase_def Let_def sequence_attempt_def split: option.split)

lemma phase_wait: "is_wait a \<Longrightarrow> \<exists>w. a = WaitStep w"
  by (cases a) simp_all

lemma phase_target: "\<not> is_wait a \<Longrightarrow> phase opts schedule scheduled_at env n a os = target_phase opts schedule scheduled_at env n a os"
  by (cases a) (simp_all add: phase_def)

lemma target_phase_fields:
  "os_sequence (target_phase opts schedule scheduled_at env n a os) = os_sequence os"
  "length (os_targets (target_phase opts schedule scheduled_at env n a os)) = length (os_targets os)"
  "k < length (os_targets os) \<Longrightarrow> os_targets (target_phase opts schedule scheduled_at env n a os) ! k =
     execute_target_action opts schedule a scheduled_at (os_sequence_failure os) (oe_step env n k) (os_targets os ! k)"
  by (simp_all add: target_phase_def nth_enumerate_eq)

lemma phase_ok:
  assumes ok: "occurrence_ok as reserved past os" and calm: "\<not> list_ex ts_threw (os_targets os)" and a: "a \<in> set as"
  shows "occurrence_ok as reserved (past @ [a]) (phase opts schedule scheduled_at env n a os)"
proof (cases "is_wait a")
  case True
  then obtain w where "a = WaitStep w" using phase_wait by blast
  with ok show ?thesis by (auto simp: occurrence_ok_def phase_def wait_phase_fields)
next
  case False
  let ?os' = "target_phase opts schedule scheduled_at env n a os"
  have step: "runs_step as a (os_targets os ! k) (os_targets ?os' ! k)" if "k < length (os_targets os)" for k
    using ok calm a that
    by (simp add: target_phase_fields(3) execute_target_runs_step occurrence_ok_def list_all_length list_ex_length)
  have "list_all (target_ok as) (os_targets ?os')"
    using step by (simp add: list_all_length target_phase_fields(2) runs_step_def)
  moreover have "map (\<lambda>st. (ts_target st, ts_active_key st)) (os_targets ?os') = reserved"
  proof -
    have "map (\<lambda>st. (ts_target st, ts_active_key st)) (os_targets ?os') = map (\<lambda>st. (ts_target st, ts_active_key st)) (os_targets os)"
      by (rule nth_equalityI) (use step in \<open>simp_all add: target_phase_fields(2) runs_step_def\<close>)
    with ok show ?thesis by (simp add: occurrence_ok_def)
  qed
  moreover have "list_ex ts_threw (os_targets ?os') \<or>
      list_all (\<lambda>st. ts_active_key st = None \<or>
        map at_action_id (ts_attempts st) = map action_id (filter (\<lambda>a. \<not> is_wait a) (past @ [a]))) (os_targets ?os')"
  proof (rule disjCI)
    assume threw: "\<not> list_all (\<lambda>st. ts_active_key st = None \<or>
        map at_action_id (ts_attempts st) = map action_id (filter (\<lambda>a. \<not> is_wait a) (past @ [a]))) (os_targets ?os')"
    then obtain k where k: "k < length (os_targets os)" "ts_active_key (os_targets ?os' ! k) \<noteq> None"
        "map at_action_id (ts_attempts (os_targets ?os' ! k)) \<noteq> map action_id (filter (\<lambda>a. \<not> is_wait a) (past @ [a]))"
      by (auto simp: list_all_length target_phase_fields(2))
    have "ts_active_key (os_targets os ! k) = None \<or>
        map at_action_id (ts_attempts (os_targets os ! k)) = map action_id (filter (\<lambda>a. \<not> is_wait a) past)"
      using ok calm k(1) by (simp add: occurrence_ok_def list_all_length)
    then have "ts_threw (os_targets ?os' ! k)" using step [OF k(1)] k(2,3) False by (auto simp: runs_step_def)
    with k(1) show "list_ex ts_threw (os_targets ?os')" by (auto simp: list_ex_length target_phase_fields(2))
  qed
  ultimately have "occurrence_ok as reserved (past @ [a]) ?os'"
    using ok calm False by (simp add: occurrence_ok_def target_phase_fields(1))
  with False show ?thesis by (simp add: phase_target)
qed

lemma threw_ok: "list_ex ts_threw (os_targets os) \<Longrightarrow> occurrence_ok as reserved past os \<Longrightarrow> occurrence_ok as reserved past' os"
  by (simp add: occurrence_ok_def)

lemma execute_phases_ok:
  "occurrence_ok as reserved past os \<Longrightarrow> set actions \<subseteq> set as \<Longrightarrow>
   occurrence_ok as reserved (past @ actions) (execute_phases opts schedule scheduled_at env n actions os)"
proof (induction actions arbitrary: n past os)
  case Nil
  then show ?case by simp
next
  case (Cons a actions)
  show ?case
  proof (cases "list_ex ts_threw (os_targets os)")
    case True
    with Cons.prems(1) show ?thesis by (simp add: threw_ok)
  next
    case False
    with Cons.prems have "occurrence_ok as reserved (past @ [a]) (phase opts schedule scheduled_at env n a os)"
      by (simp add: phase_ok)
    from Cons.IH [OF this] Cons.prems(2) False show ?thesis by simp
  qed
qed

lemma reserve_targets_start:
  "reserve_targets env n targets active = (states, active') \<Longrightarrow>
   map ts_target states = targets \<and>
   list_all (\<lambda>st. ts_attempts st = [] \<and> ts_trace st = [] \<and> ts_in_flight st = None \<and> \<not> ts_threw st) states"
  by (induction targets arbitrary: n active states active')
    (auto simp: start_target_def Let_def split: prod.splits if_splits)

lemma check_target_fields [simp]:
  "ts_target (check_target opts env st) = ts_target st" "ts_active_key (check_target opts env st) = ts_active_key st"
  "ts_attempts (check_target opts env st) = ts_attempts st" "ts_trace (check_target opts env st) = ts_trace st"
  "ts_in_flight (check_target opts env st) = ts_in_flight st" "ts_threw (check_target opts env st) = ts_threw st"
  by (simp_all add: check_target_def split: sum.split)

lemma execute_occurrence_ok:
  assumes "execute_occurrence opts schedule scheduled_at env active = (os, keys, run)"
  obtains reserved where "occurrence_ok (sch_actions schedule) reserved (sch_actions schedule) os"
    "map fst reserved = sch_targets schedule" "List.map_filter snd reserved = keys"
    "run \<noteq> None \<longleftrightarrow> \<not> list_ex ts_threw (os_targets os) \<and> run_fits (occurrence_run opts schedule scheduled_at env os)"
proof -
  obtain states active' where start: "reserve_targets env 0 (sch_targets schedule) active = (states, active')" by fastforce
  let ?os0 = "\<lparr>os_targets = map (check_target opts env) states, os_sequence = [], os_sequence_failure = None\<rparr>"
  let ?reserved = "map (\<lambda>st. (ts_target st, ts_active_key st)) states"
  have "occurrence_ok (sch_actions schedule) ?reserved [] ?os0"
    using reserve_targets_start [OF start]
    by (auto simp: occurrence_ok_def target_ok_def list_all_iff list_ex_iff)
  from execute_phases_ok [OF this order_refl] have
    "occurrence_ok (sch_actions schedule) ?reserved (sch_actions schedule)
       (execute_phases opts schedule scheduled_at env 0 (sch_actions schedule) ?os0)"
    by simp
  moreover have "map fst ?reserved = sch_targets schedule" using reserve_targets_start [OF start] by (simp add: comp_def)
  moreover have "List.map_filter snd ?reserved = List.map_filter ts_active_key states"
    by (induction states) (simp_all add: map_filter_simps split: option.split)
  ultimately show thesis
    using assms by (intro that [of ?reserved]) (auto simp: execute_occurrence_def start Let_def split: if_splits)
qed

lemma final_targets_ok:
  "list_all (target_ok (sch_actions schedule)) (os_targets (fst (execute_occurrence opts schedule scheduled_at env active)))"
proof -
  obtain os keys run where occurrence: "execute_occurrence opts schedule scheduled_at env active = (os, keys, run)" by (metis prod_cases3)
  obtain reserved where "occurrence_ok (sch_actions schedule) reserved (sch_actions schedule) os"
    using execute_occurrence_ok [OF occurrence] by metis
  with occurrence show ?thesis by (simp add: occurrence_ok_def)
qed

text \<open>
  A run past the bounds of its schema isn't completed: one error of more than 2000 characters, which
  a failed backup's may be, keeps the whole occurrence from being reported.
\<close>

lemma long_error_loses_run:
  assumes "execute_occurrence opts schedule scheduled_at env active = (os, keys, run)"
    and "st \<in> set (os_targets os)" "a \<in> set (ts_attempts st)" "at_error a = Some e" "2000 < length e"
  shows "run = None"
proof (rule ccontr)
  assume "run \<noteq> None"
  with execute_occurrence_ok [OF assms(1)] have "run_fits (occurrence_run opts schedule scheduled_at env os)" by metis
  moreover obtain k where k: "k < length (os_targets os)" "st = os_targets os ! k" using assms(2) by (metis in_set_conv_nth)
  ultimately have "entry_fits (TargetEntry (target_run_of (sch_id schedule) scheduled_at (oe_target_finished env k) st))"
    by (simp add: run_fits_def occurrence_run_def Let_def list_all_length nth_enumerate_eq)
  then have "attempt_fits a" using assms(3) by (simp add: target_run_of_def list_all_iff)
  with assms(4,5) show False by (simp add: attempt_fits_def)
qed

section \<open>Reservations\<close>

lemma reserve_targets_keys:
  "reserve_targets env n targets active = (states, active') \<Longrightarrow> distinct active \<Longrightarrow>
   active' = active @ List.map_filter ts_active_key states \<and> distinct active'"
proof (induction targets arbitrary: n active states)
  case Nil
  then show ?case by (simp add: map_filter_simps)
next
  case (Cons t targets)
  show ?case
  proof (cases "active_target_key t \<in> set active")
    case True
    with Cons.prems obtain rest where rest: "reserve_targets env (Suc n) targets active = (rest, active')"
      and "states = start_target env n None t # rest" by (auto simp: Let_def split: prod.splits)
    then have "List.map_filter ts_active_key states = List.map_filter ts_active_key rest"
      by (simp add: map_filter_simps start_target_def)
    with Cons.IH [OF rest Cons.prems(2)] show ?thesis by metis
  next
    case False
    with Cons.prems obtain rest where rest: "reserve_targets env (Suc n) targets (active @ [active_target_key t]) = (rest, active')"
      and "states = start_target env n (Some (active_target_key t)) t # rest" by (auto simp: Let_def split: prod.splits)
    then have "active @ List.map_filter ts_active_key states = (active @ [active_target_key t]) @ List.map_filter ts_active_key rest"
      by (simp add: map_filter_simps start_target_def)
    moreover have "distinct (active @ [active_target_key t])" using Cons.prems(2) False by simp
    ultimately show ?thesis using Cons.IH [OF rest] by metis
  qed
qed

definition reserved_by :: "occurrences_world \<Rightarrow> string list" where
  "reserved_by w = concat (map snd (ow_running w))"

definition reservations_ok :: "occurrences_world \<Rightarrow> bool" where
  "reservations_ok w \<longleftrightarrow>
     distinct (map fst (ow_running w)) \<and> distinct (ow_active w) \<and> distinct (reserved_by w) \<and> set (ow_active w) = set (reserved_by w)"

lemma delete_split: "n \<notin> fst ` set xs \<Longrightarrow> n \<notin> fst ` set ys \<Longrightarrow> AList.delete n (xs @ (n, k) # ys) = xs @ ys"
  using delete_id [of n xs] delete_id [of n ys] unfolding AList.delete_eq by simp

lemma occurrences_step_ok: "reservations_ok w \<Longrightarrow> occurrences_step w w' \<Longrightarrow> reservations_ok w'"
proof (erule occurrences_step.cases)
  fix n w0 env targets states active
  assume ok: "reservations_ok w" and "w = w0" "n \<notin> fst ` set (ow_running w0)"
    and reserve: "reserve_targets env 0 targets (ow_active w0) = (states, active)"
    and w': "w' = w0\<lparr>ow_active := active, ow_running := ow_running w0 @ [(n, List.map_filter ts_active_key states)]\<rparr>"
  then have "reserved_by w' = reserved_by w @ List.map_filter ts_active_key states" by (simp add: reserved_by_def)
  moreover have "active = ow_active w @ List.map_filter ts_active_key states"
      "distinct (ow_active w @ List.map_filter ts_active_key states)"
    using reserve_targets_keys [OF reserve] ok \<open>w = w0\<close> by (metis reservations_ok_def)+
  ultimately show ?thesis using ok \<open>w = w0\<close> \<open>n \<notin> fst ` set (ow_running w0)\<close> unfolding w' reservations_ok_def by auto
next
  fix w0 n keys
  assume ok: "reservations_ok w" and "w = w0" and keys: "map_of (ow_running w0) n = Some keys"
    and w': "w' = w0\<lparr>ow_active := filter (\<lambda>k. k \<notin> set keys) (ow_active w0), ow_running := AList.delete n (ow_running w0)\<rparr>"
  from map_of_SomeD [OF keys] obtain xs ys where split: "ow_running w0 = xs @ (n, keys) # ys" by (meson split_list)
  with ok \<open>w = w0\<close> have "AList.delete n (ow_running w0) = xs @ ys"
    unfolding split by (intro delete_split) (auto simp: reservations_ok_def split)
  with ok \<open>w = w0\<close> split show ?thesis
    unfolding w' by (auto simp: reservations_ok_def reserved_by_def)
qed

abbreviation no_occurrences :: occurrences_world where
  "no_occurrences \<equiv> \<lparr>ow_active = [], ow_running = []\<rparr>"

interpretation reservations: invariant_system no_occurrences occurrences_step reservations_ok
proof
  show "reservations_ok no_occurrences" by (simp add: reservations_ok_def reserved_by_def)
qed (rule occurrences_step_ok)

section \<open>Batches of a tick\<close>

definition row_due :: "int \<Rightarrow> 'j schedule_row \<Rightarrow> bool" where
  "row_due now row \<longleftrightarrow> sr_enabled row \<and> (case sr_next_run_at row of Some t \<Rightarrow> t \<le> now | None \<Rightarrow> False)"

definition due_keys :: "int \<Rightarrow> ('j, 'r) schedule_tables \<Rightarrow> string list" where
  "due_keys now s = map fst (filter (\<lambda>(i, row). row_due now row) (st_schedules s))"

lemma due_keys_set:
  "distinct (map fst (st_schedules s)) \<Longrightarrow>
   i \<in> set (due_keys now s) \<longleftrightarrow> (\<exists>row. map_of (st_schedules s) i = Some row \<and> row_due now row)"
  by (force simp: due_keys_def)

lemma claiming_keys: "claiming now claimed rows c \<Longrightarrow> distinct (map fst (st_schedules (cl_tables c)))"
  by (simp add: claiming_def world_ok_def tables_ok_def)

lemma claim_row_due:
  assumes "claiming now claimed (ir # rows) c" and later: "occurs_later occurs" and "\<not> broken (fst ir)"
  shows "set (due_keys now (cl_tables (claim_row dec occurs broken now boot_at relay ir c))) \<subseteq> set (due_keys now (cl_tables c)) - {fst ir}"
proof -
  let ?c' = "claim_row dec occurs broken now boot_at relay ir c"
  have keys: "distinct (map fst (st_schedules (cl_tables c)))" "distinct (map fst (st_schedules (cl_tables ?c')))"
    by (rule claiming_keys [OF assms(1)],
        rule claiming_keys [OF claim_row_claiming [OF assms(1) later]])
  have "\<exists>r. map_of (st_schedules (cl_tables c)) j = Some r \<and> row_due now r \<and> j \<noteq> fst ir"
    if "map_of (st_schedules (cl_tables ?c')) j = Some r" "row_due now r" for j r
    using that assms(3) later [unfolded occurs_later_def]
    by (fastforce simp: claim_row_def claim_def Let_def row_due_def bind_eq_Some_conv split: option.splits if_splits prod.splits)
  then show ?thesis unfolding subset_iff Diff_iff due_keys_set [OF keys(1)] due_keys_set [OF keys(2)] by blast
qed

lemma claim_failed_stays: "cl_failed c \<Longrightarrow> cl_failed (fold (claim_row dec occurs broken now boot_at relay) rows c)"
proof (induction rows arbitrary: c)
  case (Cons ir rows)
  then have "cl_failed (claim_row dec occurs broken now boot_at relay ir c)"
    by (auto simp: claim_row_def Let_def split: option.split prod.split)
  with Cons.IH show ?case by simp
qed simp

lemma fold_claim_due:
  assumes later: "occurs_later occurs"
  shows "claiming now claimed rows c \<Longrightarrow> \<not> cl_failed (fold (claim_row dec occurs broken now boot_at relay) rows c) \<Longrightarrow>
    set (due_keys now (cl_tables (fold (claim_row dec occurs broken now boot_at relay) rows c)))
      \<subseteq> set (due_keys now (cl_tables c)) - fst ` set rows"
proof (induction rows arbitrary: c)
  case (Cons ir rows)
  let ?c' = "claim_row dec occurs broken now boot_at relay ir c"
  have "\<not> cl_failed ?c'" using Cons.prems(2) claim_failed_stays by fastforce
  then have "\<not> broken (fst ir)" by (auto simp: claim_row_def)
  note one = claim_row_due [where broken = broken, OF Cons.prems(1) later this]
  have "set (due_keys now (cl_tables (fold (claim_row dec occurs broken now boot_at relay) rows ?c')))
      \<subseteq> set (due_keys now (cl_tables ?c')) - fst ` set rows"
    using Cons.prems(2) by (intro Cons.IH claim_row_claiming [OF Cons.prems(1)] later) simp_all
  with one [where dec = dec and boot_at = boot_at and relay = relay] show ?case unfolding fold_simps list.set image_insert by blast
qed simp

lemma minus_psubset: "A \<subseteq> B - K \<Longrightarrow> K \<subseteq> B \<Longrightarrow> K \<noteq> {} \<Longrightarrow> A \<subset> B"
  by blast

lemma claim_due_fewer:
  assumes "tables_ok s" and later: "occurs_later occurs"
    and due: "claim_due dec occurs broken now boot_at relay limit s = (due, s')"
    and "\<not> du_failed due" "du_has_more due" "0 < limit"
  shows "tables_ok s'" "card (set (due_keys now s')) < card (set (due_keys now s))"
proof -
  let ?w = "\<lparr>sw_tables = s, sw_now = now, sw_claimed = []\<rparr>"
  let ?rows = "due_rows now limit s"
  let ?start = "\<lparr>cl_tables = s, cl_occurrences = [], cl_failed = False\<rparr>"
  let ?c = "fold (claim_row dec occurs broken now boot_at relay) ?rows ?start"
  have world: "world_ok ?w" using assms(1) by (simp add: world_ok_def claims_past_def)
  have "claim_due dec occurs broken (sw_now ?w) boot_at relay limit (sw_tables ?w) = (due, s')" using due by simp
  from claim_due_world [OF world later this] show "tables_ok s'" by (simp add: world_ok_def)
  have keys: "distinct (map fst (st_schedules s))" using assms(1) by (simp add: tables_ok_def)
  have rows: "\<forall>(i, row)\<in>set ?rows. map_of (st_schedules s) i = Some row \<and> (case sr_next_run_at row of Some t \<Rightarrow> t \<le> now | None \<Rightarrow> False)"
    using due_rows_due [where s = s and now = now and limit = limit] keys by (fastforce simp: map_of_eq_Some_iff)
  have claiming: "claiming now [] ?rows ?start"
    using world due_rows_distinct [OF keys] rows by (simp add: claiming_def world_ok_def)
  have calm: "\<not> cl_failed ?c" and more: "length ?rows = limit" and s': "st_schedules s' = st_schedules (cl_tables ?c)"
    using due assms(4,5) by (auto simp: claim_due_def Let_def split: if_splits)
  from fold_claim_due [OF later claiming calm]
  have fewer: "set (due_keys now s') \<subseteq> set (due_keys now s) - fst ` set ?rows" using s' by (simp add: due_keys_def)
  have listed: "i \<in> set (due_keys now s)" if r: "(i, row) \<in> set ?rows" for i row
  proof -
    from due_rows_due [OF r] have "(i, row) \<in> set (filter (\<lambda>(i, row). row_due now row) (st_schedules s))"
      by (auto simp: row_due_def)
    then show ?thesis unfolding due_keys_def by force
  qed
  have "fst ` set ?rows \<subseteq> set (due_keys now s)"
  proof (rule image_subsetI)
    fix ir assume "ir \<in> set ?rows"
    then show "fst ir \<in> set (due_keys now s)" using listed [of "fst ir" "snd ir"] by (simp only: prod.collapse)
  qed
  moreover have "fst ` set ?rows \<noteq> {}" using more assms(6) by auto
  ultimately have "set (due_keys now s') \<subset> set (due_keys now s)" by (rule minus_psubset [OF fewer])
  then show "card (set (due_keys now s')) < card (set (due_keys now s))" by (rule psubset_card_mono [OF finite_set])
qed

lemma launch_tables: "mg_tables (fold launch xs m) = mg_tables m"
  by (induction xs arbitrary: m) (simp_all add: launch_def)

lemma claim_batches_end:
  assumes later: "occurs_later occurs"
  shows "tables_ok (mg_tables m) \<Longrightarrow> card (set (due_keys now (mg_tables m))) < fuel \<Longrightarrow>
    \<exists>m'. claim_batches fuel dec occurs broken ended now boot_at relay n m = Some m'"
proof (induction fuel arbitrary: n m)
  case (Suc fuel)
  let ?m = "m\<lparr>mg_running := mg_running m - ended n\<rparr>"
  let ?available = "schedule_batch_size - mg_running ?m"
  obtain due s where due: "claim_due dec occurs (broken n) now boot_at relay ?available (mg_tables m) = (due, s)" by fastforce
  let ?m' = "fold launch (filter (\<lambda>x. run_status_of (oc_run x) = RunRunning) (du_occurrences due)) (?m\<lparr>mg_tables := s\<rparr>)"
  show ?case
  proof (cases "?available = 0 \<or> du_failed due \<or> \<not> du_has_more due")
    case True
    with due show ?thesis by (auto simp: Let_def)
  next
    case False
    with claim_due_fewer [OF Suc.prems(1) later due] Suc.prems(2)
    have "tables_ok s" "card (set (due_keys now s)) < fuel" by simp_all
    then have "\<exists>m'. claim_batches fuel dec occurs broken ended now boot_at relay (Suc n) (?m'\<lparr>mg_failures := 0\<rparr>) = Some m'"
      by (intro Suc.IH) (simp_all add: launch_tables)
    with due False show ?thesis by (simp add: Let_def)
  qed
qed simp

lemma claim_backoff: "now + 1000 \<le> mg_next_claim_at (claim_failed now m) \<and> mg_next_claim_at (claim_failed now m) \<le> now + 60000"
  by (simp add: claim_failed_def)

lemma wait_for_duration_timers:
  "sum_list (wait_for_duration n) = n \<and> list_all (\<lambda>chunk. 0 < chunk \<and> chunk \<le> maximum_timer_duration_ms) (wait_for_duration n)"
proof (induction n rule: wait_for_duration.induct)
  case (1 n)
  then show ?case
    by (subst (1 2) wait_for_duration.simps) (auto simp: Let_def maximum_timer_duration_ms_def)
qed

section \<open>Properties\<close>

text \<open>Saving a schedule authorizes its steps for the targets they name and changes nothing else: a
  step that has to name its target (a command or a kill on a database or an App) runs there once
  saved exactly when it may be run there at all and names it, and every other step reaches what it
  did.\<close>

lemma saved_step_reach:
  "schedule_action_applies_to_target (schedule_action_for_save a) t =
     (if schedule_action_needs_named_target a t
      then schedule_action_supports_target a t \<and> (\<exists>keys. action_target_keys a = Some keys \<and> schedule_target_key t \<in> set keys)
      else schedule_action_applies_to_target a t)"
  using needs_named_authorized [of a t]
  by (auto simp: schedule_action_applies_to_target_def split: option.split)

text \<open>C33: Whatever is applied, removed, claimed, run, completed or interrupted in whatever order, while
  the clock doesn't go back, no occurrence of a schedule is claimed twice. The cron parser only has
  to name times after the one it is asked about.\<close>

theorem occurrence_claimed_once:
  assumes "reach w0 (schedule_step enc dec gen occurs boot_at relay) w"
    and "tables_ok (sw_tables w0)" "sw_claimed w0 = []" and later: "occurs_later occurs"
  shows "distinct (sw_claimed w)"
proof -
  have "world_ok w"
    using assms(1)
  proof induction
    case reach_init
    show ?case using assms(2,3) by (simp add: world_ok_def claims_past_def)
  next
    case (reach_step w w')
    then show ?case using schedule_step_world later by metis
  qed
  then show ?thesis by (simp add: world_ok_def)
qed

definition sample_schedule :: schedule_definition where
  "sample_schedule = \<lparr>sch_id = ''a'', sch_revision = 2, sch_generation = Some 1, sch_actions = [WaitStep \<lparr>wt_duration = 1, wt_id = ''w'', wt_unit = Seconds\<rparr>],
     sch_continue_on_failure = False, sch_cron = ''0 * * * *'', sch_enabled = True, sch_name = ''A'',
     sch_targets = [\<lparr>tg_id = ''i'', tg_kind = TKInstance, tg_name = ''I'', tg_relay_id = ''r''\<rparr>], sch_timezone = ''UTC''\<rparr>"

definition sample_tables :: "(schedule_definition, run_entry) schedule_tables" where
  "sample_tables = \<lparr>st_schedules = [(''a'', \<lparr>sr_revision = 2, sr_enabled = True, sr_next_run_at = Some 1000, sr_definition = sample_schedule\<rparr>)],
     st_tombstones = [(''b'', 4)], st_runs = []\<rparr>"

definition minutely :: "string \<Rightarrow> int \<Rightarrow> int option" where
  "minutely e t = Some (t + 60000)"

lemma sample_facts:
  "tables_ok sample_tables" "occurs_later minutely"
  by (simp_all add: sample_tables_def tables_ok_def occurs_later_def minutely_def)

definition sample_due :: "(schedule_definition, run_entry) due \<times> (schedule_definition, run_entry) schedule_tables" where
  "sample_due = claim_due Some minutely (\<lambda>i. False) 2000 0 ''r'' 32 sample_tables"

definition sample_world :: "(schedule_definition, run_entry) schedule_world" where
  "sample_world = \<lparr>sw_tables = sample_tables, sw_now = 2000, sw_claimed = []\<rparr>"

lemma sample_claimed: "map occurrence_key (du_occurrences (fst sample_due)) = [(''a'', 1000)]"
  by (simp add: sample_due_def sample_tables_def claim_due_def due_rows_def claim_row_def claim_def minutely_def sample_schedule_def
      run_conflicts_def insert_run_def new_run_def occurrence_key_def Let_def)

theorem occurrence_claimed_once_witness:
  "distinct (sw_claimed (sample_world\<lparr>sw_tables := snd sample_due,
     sw_claimed := map occurrence_key (du_occurrences (fst sample_due))\<rparr>)) \<and>
   map occurrence_key (du_occurrences (fst sample_due)) = [(''a'', 1000)]"
proof -
  have "claim_due Some minutely (\<lambda>i. False) (sw_now sample_world) 0 ''r'' 32 (sw_tables sample_world) = (fst sample_due, snd sample_due)"
    by (simp add: sample_world_def sample_due_def)
  from step_claim [OF this, of id sch_generation]
  have "schedule_step id Some sch_generation minutely 0 ''r'' sample_world
      (sample_world\<lparr>sw_tables := snd sample_due, sw_claimed := map occurrence_key (du_occurrences (fst sample_due))\<rparr>)"
    by (simp add: sample_world_def)
  then have "reach sample_world (schedule_step id Some sch_generation minutely 0 ''r'')
      (sample_world\<lparr>sw_tables := snd sample_due, sw_claimed := map occurrence_key (du_occurrences (fst sample_due))\<rparr>)"
    by (rule reach_step [OF reach_init])
  from occurrence_claimed_once [OF this _ _ sample_facts(2)] sample_facts(1) show ?thesis
    by (simp add: sample_world_def sample_claimed)
qed

text \<open>C36: What a Relay holds of a schedule never goes back, whatever arrives late: applying a definition
  or removing a schedule leaves every schedule at its revision and generation or a later one (a
  removal counts as later than every generation of its revision), and the answer names the revision
  then held. Writing a definition has to keep its generation readable.\<close>

theorem schedule_versions_forward:
  assumes "tables_ok s" and "gen (enc d) = sch_generation d"
  shows "not_older (held_version gen s k) (held_version gen (snd (apply_schedule enc gen d next_at s)) k) \<and>
    not_older (held_version gen s k) (held_version gen (snd (remove_schedule i revision s)) k) \<and>
    map_option fst (held_version gen (snd (apply_schedule enc gen d next_at s)) (sch_id d)) =
      Some (dp_revision (fst (apply_schedule enc gen d next_at s))) \<and>
    map_option fst (held_version gen (snd (remove_schedule i revision s)) i) =
      Some (dp_revision (fst (remove_schedule i revision s)))"
proof (intro conjI)
  show "map_option fst (held_version gen (snd (apply_schedule enc gen d next_at s)) (sch_id d)) =
      Some (dp_revision (fst (apply_schedule enc gen d next_at s)))"
    using not_both [OF assms(1)] by (auto simp: apply_schedule_def Let_def held_version_def split: option.splits)
  show "map_option fst (held_version gen (snd (remove_schedule i revision s)) i) = Some (dp_revision (fst (remove_schedule i revision s)))"
    using not_both [OF assms(1)] by (auto simp: remove_schedule_def Let_def held_version_def split: option.splits)
qed (rule apply_schedule_version [where gen = gen and enc = enc, OF assms], rule remove_schedule_version [OF assms(1)])

theorem schedule_versions_forward_witness:
  "held_version sch_generation sample_tables ''b'' = Some (4, None) \<and>
   not_older (Some (4, None)) (held_version sch_generation (snd (apply_schedule id sch_generation (sample_schedule\<lparr>sch_id := ''b''\<rparr>) None sample_tables)) ''b'')"
proof -
  have "held_version sch_generation sample_tables ''b'' = Some (4, None)" by (simp add: held_version_def sample_tables_def)
  with schedule_versions_forward [OF sample_facts(1), where gen = sch_generation and enc = id and k = "''b''"
      and d = "sample_schedule\<lparr>sch_id := ''b''\<rparr>" and next_at = None]
  show ?thesis by simp
qed



text \<open>C31: An occurrence asks for nothing its schedule doesn't: every call made for a target is the call
  of one of the schedule's steps, to that target, and the step applies to it; a backup that Hearth
  refused isn't queued, and an App's backups are of its folder and its projected volumes. A target
  that another occurrence is at gets no calls.\<close>

theorem calls_reach_their_targets:
  "list_all (\<lambda>st. list_all (reaches (sch_actions schedule) (ts_target st)) (ts_trace st) \<and>
      (if ts_active_key st = None then ts_trace st = [] else True))
    (os_targets (fst (execute_occurrence opts schedule scheduled_at env active)))"
  by (rule list.pred_mono_strong [OF final_targets_ok]) (simp add: target_ok_def)

text \<open>C32: Unless a record threw, an occurrence ends with exactly one attempt per step, in the order of
  the schedule: each of its targets has one for every step but the waits, or none where another
  occurrence was at it, and the sequence has one for every wait.\<close>

theorem attempts_in_order:
  "case execute_occurrence opts schedule scheduled_at env active of (os, keys, run) \<Rightarrow>
     map ts_target (os_targets os) = sch_targets schedule \<and>
     (if list_ex ts_threw (os_targets os) then run = None
      else map at_action_id (os_sequence os) = map action_id (filter is_wait (sch_actions schedule)) \<and>
        list_all (\<lambda>st. map at_action_id (ts_attempts st) =
          (if ts_active_key st = None then [] else map action_id (filter (\<lambda>a. \<not> is_wait a) (sch_actions schedule)))) (os_targets os))"
proof -
  obtain os keys run where occurrence: "execute_occurrence opts schedule scheduled_at env active = (os, keys, run)"
    by (metis prod_cases3)
  obtain reserved where ok: "occurrence_ok (sch_actions schedule) reserved (sch_actions schedule) os"
      "map fst reserved = sch_targets schedule" "run \<noteq> None \<longrightarrow> \<not> list_ex ts_threw (os_targets os)"
    using execute_occurrence_ok [OF occurrence] by metis
  then have "map ts_target (os_targets os) = sch_targets schedule" by (auto simp: occurrence_ok_def comp_def)
  with ok occurrence show ?thesis by (auto simp: occurrence_ok_def target_ok_def list_all_iff)
qed

text \<open>C34: Occurrences that run side by side never share a target: their reservations are disjoint, and
  the set of active targets is exactly what they hold.\<close>

theorem occurrences_share_no_target:
  assumes "reach no_occurrences occurrences_step w"
  shows "distinct (concat (map snd (ow_running w))) \<and> set (ow_active w) = set (concat (map snd (ow_running w)))"
  using reservations.inv_reach [OF assms] by (simp add: reservations_ok_def reserved_by_def)

theorem occurrences_share_no_target_witness:
  "let w = \<lparr>ow_active = [''instance:i'', ''app:j''], ow_running = [(0, [''instance:i'']), (1, [''app:j''])]\<rparr> in
   distinct (concat (map snd (ow_running w))) \<and> set (ow_active w) = set (concat (map snd (ow_running w)))"
proof -
  let ?i = "\<lparr>tg_id = ''i'', tg_kind = TKInstance, tg_name = ''I'', tg_relay_id = ''r''\<rparr>"
  let ?j = "\<lparr>tg_id = ''j'', tg_kind = TKApp, tg_name = ''J'', tg_relay_id = ''r''\<rparr>"
  let ?w1 = "\<lparr>ow_active = [''instance:i''], ow_running = [(0, [''instance:i''])]\<rparr>"
  let ?w2 = "\<lparr>ow_active = [''instance:i'', ''app:j''], ow_running = [(0, [''instance:i'']), (1, [''app:j''])]\<rparr>"
  have "occurrences_step no_occurrences ?w1"
    using occurrence_begins [of 0 no_occurrences undefined "[?i]"]
    by (simp add: active_target_key_def start_target_def map_filter_simps Let_def)
  moreover have "occurrences_step ?w1 ?w2"
    using occurrence_begins [of 1 ?w1 undefined "[?i, ?j]"]
    by (simp add: active_target_key_def start_target_def map_filter_simps Let_def)
  ultimately have "reach no_occurrences occurrences_step ?w2" by (meson reach_init reach_step)
  from occurrences_share_no_target [OF this] show ?thesis by (auto simp: Let_def)
qed

text \<open>C35: A tick ends: whatever is due, however many rows a storage failure keeps and however many
  occurrences end meanwhile, it claims at most one batch more than there are rows due, since each
  full batch leaves fewer of them.\<close>

theorem tick_ends:
  assumes "tables_ok (mg_tables m)" and "occurs_later occurs" and "length (due_keys now (mg_tables m)) < fuel"
  shows "\<exists>m'. tick fuel dec occurs broken ended now boot_at relay m = Some m'"
proof -
  have "card (set (due_keys now (mg_tables m))) < fuel" using assms(3) card_length [of "due_keys now (mg_tables m)"] by simp
  then have "\<exists>m'. claim_batches fuel dec occurs broken ended now boot_at relay 0 (m\<lparr>mg_next_run_at := None\<rparr>) = Some m'"
    using assms(1,2) by (intro claim_batches_end) simp_all
  then show ?thesis by (simp add: tick_def Let_def)
qed

theorem tick_ends_witness:
  "\<exists>m'. tick 2 Some minutely (\<lambda>k i. False) (\<lambda>k. 0) 2000 0 ''r'' (start_manager id None 0 sample_tables) = Some m'"
proof -
  have "mg_tables (start_manager id None 0 sample_tables) = sample_tables"
    by (simp add: start_manager_def interrupt_runs_def sample_tables_def)
  moreover have "length (due_keys 2000 sample_tables) = 1" by (simp add: sample_tables_def due_keys_def row_due_def)
  ultimately show ?thesis using tick_ends [OF _ sample_facts(2), of "start_manager id None 0 sample_tables" 2000 2] sample_facts(1)
    by simp
qed

end
