(* ===== verification/Runtime_Recovery.thy ===== *)
theory Runtime_Recovery
  imports Power_State Plans
begin

text \<open>
  \<open>apps/relay/src/runtime-recovery.ts\<close>: how the Relay starts a game server again that exited on its
  own, and stops one that a late start left running. A write to the database may fail, which is an
  argument of each operation (\<open>ok\<close>); \<open>Date.parse\<close>, what is observed of a container and the answers of
  Docker are arguments too. The starts and stops it forks are workers whose turns in the lanes are
  steps of their own.
\<close>

section \<open>Data\<close>

datatype record_phase = PhIdle | PhPending | PhRestarting | PhMonitoring | PhFailed

record recovery_config =
  rc_initial_delay_ms :: nat
  rc_max_retries :: nat
  rc_stability_ms :: int

record recovery_record =
  rr_attempts :: nat
  rr_desired :: desired_state
  rr_instance :: string
  rr_last_exit_at :: "int option"
  rr_last_exit_code :: "int option"
  rr_last_oom :: bool
  rr_last_reason :: "recovery_reason option"
  rr_last_runtime_ms :: "int option"
  rr_last_started_at :: "string option"
  rr_next_attempt_at :: "int option"
  rr_phase :: record_phase
  rr_stop_pending :: bool
  rr_updated_at :: int

record observation =
  ob_docker_restart :: bool
  ob_exit_code :: int
  ob_finished_at :: string
  ob_installation_ready :: bool
  ob_instance :: string
  ob_managed :: bool
  ob_oom :: bool
  ob_ready :: bool
  ob_restarting :: bool
  ob_running :: bool
  ob_service :: string
  ob_started_at :: string
  ob_transition_active :: bool

record recovery_view =
  rv_attempt :: nat
  rv_exit_code :: "int option"
  rv_max_attempts :: nat
  rv_next_attempt_at :: "int option"
  rv_oom :: bool
  rv_phase :: record_phase
  rv_reason :: recovery_reason
  rv_runtime_ms :: "int option"

record recovery_snapshot =
  rs_desired :: desired_state
  rs_recovery :: "recovery_view option"

definition MAXIMUM_RETRY_DELAY_MS :: nat where
  "MAXIMUM_RETRY_DELAY_MS = 60000"

definition START_CONFIRMATION_TIMEOUT_MS :: int where
  "START_CONFIRMATION_TIMEOUT_MS = 30000"

definition retry_delay_ms :: "nat \<Rightarrow> nat \<Rightarrow> nat" where
  "retry_delay_ms attempt_number initial_delay =
     (if initial_delay = 0 then 0 else min (initial_delay * 3 ^ (attempt_number - 1)) MAXIMUM_RETRY_DELAY_MS)"

definition initial_recovery_record :: "string \<Rightarrow> desired_state \<Rightarrow> int \<Rightarrow> string option \<Rightarrow> recovery_record" where
  "initial_recovery_record i desired now last_started_at =
     \<lparr>rr_attempts = 0, rr_desired = desired, rr_instance = i, rr_last_exit_at = None, rr_last_exit_code = None,
       rr_last_oom = False, rr_last_reason = None, rr_last_runtime_ms = None, rr_last_started_at = last_started_at,
       rr_next_attempt_at = None, rr_phase = PhIdle, rr_stop_pending = False, rr_updated_at = now\<rparr>"

definition unmanaged_snapshot :: "bool \<Rightarrow> recovery_snapshot" where
  "unmanaged_snapshot running = \<lparr>rs_desired = (if running then DRunning else DStopped), rs_recovery = None\<rparr>"

definition snapshot_of :: "nat \<Rightarrow> recovery_record \<Rightarrow> recovery_snapshot" where
  "snapshot_of max_attempts r =
     \<lparr>rs_desired = rr_desired r,
       rs_recovery =
         (if rr_phase r \<in> {PhPending, PhRestarting, PhFailed}
          then map_option (\<lambda>reason. \<lparr>rv_attempt = rr_attempts r, rv_exit_code = rr_last_exit_code r, rv_max_attempts = max_attempts,
            rv_next_attempt_at = rr_next_attempt_at r, rv_oom = rr_last_oom r, rv_phase = rr_phase r, rv_reason = reason,
            rv_runtime_ms = rr_last_runtime_ms r\<rparr>) (rr_last_reason r)
          else None)\<rparr>"

definition recovery_reason_of :: "observation \<Rightarrow> recovery_reason" where
  "recovery_reason_of ob = (if ob_oom ob then OutOfMemory else if ob_exit_code ob = 0 then CleanExit else ProcessExit)"

definition runtime_duration_ms :: "(string \<Rightarrow> int option) \<Rightarrow> observation \<Rightarrow> int option" where
  "runtime_duration_ms parse ob =
     (case (parse (ob_started_at ob), parse (ob_finished_at ob)) of
        (Some s, Some f) \<Rightarrow> Some (max (f - s) 0) | _ \<Rightarrow> None)"

definition finished_at_ms :: "(string \<Rightarrow> int option) \<Rightarrow> string \<Rightarrow> int \<Rightarrow> int" where
  "finished_at_ms parse finished_at fallback = (case parse finished_at of Some t \<Rightarrow> t | None \<Rightarrow> fallback)"

section \<open>The manager\<close>

text \<open>
  A worker that starts a game server waits its turn in the lanes, then starts; tokens (\<open>Symbol\<close>s)
  are numbers that are never given again. \<open>rm_stored\<close> is the table in the database, \<open>rm_calls\<close> the
  starts and stops recovery set going; what a start does before it asks Docker (its database
  connections, its Tailscale addresses) can only make it fail. An operation holds the game server's
  lock (\<open>#lock\<close>) throughout, so each is one step.
\<close>

record start_worker =
  wk_token :: nat
  wk_observation :: observation
  wk_requested_at :: int
  wk_started :: bool

record stop_worker =
  wp_token :: nat
  wp_observation :: observation
  wp_stopping :: bool

datatype recovery_call = RecoveryStart string | RecoveryStop string

record recovery_manager =
  rm_records :: "(string \<times> recovery_record) list"
  rm_stored :: "(string \<times> recovery_record) list"
  rm_starts :: "(string \<times> nat) list"
  rm_stops :: "(string \<times> nat) list"
  rm_reported :: "string list"
  rm_token :: nat
  rm_start_workers :: "start_worker list"
  rm_stop_workers :: "stop_worker list"
  rm_calls :: "recovery_call list"
  rm_reports :: nat

definition initialize_recovery :: "recovery_manager \<Rightarrow> recovery_manager" where
  "initialize_recovery m = m\<lparr>rm_records := rm_stored m, rm_reported := []\<rparr>"

text \<open>\<open>#persist\<close> and \<open>#delete\<close>: the database first, then memory; a failed write changes neither.\<close>

definition persist :: "bool \<Rightarrow> recovery_record \<Rightarrow> recovery_manager \<Rightarrow> recovery_manager option" where
  "persist ok r m =
     (if ok then Some (m\<lparr>rm_stored := AList.update (rr_instance r) r (rm_stored m),
        rm_records := AList.update (rr_instance r) r (rm_records m),
        rm_reported := (if rr_desired r = DRunning \<or> \<not> rr_stop_pending r then removeAll (rr_instance r) (rm_reported m) else rm_reported m)\<rparr>)
      else None)"

definition delete_record :: "bool \<Rightarrow> string \<Rightarrow> recovery_manager \<Rightarrow> recovery_manager option" where
  "delete_record ok i m =
     (if ok then Some (m\<lparr>rm_stored := AList.delete i (rm_stored m), rm_records := AList.delete i (rm_records m),
        rm_reported := removeAll i (rm_reported m)\<rparr>)
      else None)"

text \<open>An operation that fails at its write leaves the manager as it was.\<close>

definition settle :: "recovery_manager \<Rightarrow> recovery_manager option \<Rightarrow> recovery_manager" where
  "settle m written = (case written of Some m' \<Rightarrow> m' | None \<Rightarrow> m)"

definition record_provisioned :: "bool \<Rightarrow> string \<Rightarrow> desired_state \<Rightarrow> int \<Rightarrow> recovery_manager \<Rightarrow> recovery_manager" where
  "record_provisioned ok i desired now m = settle m (persist ok (initial_recovery_record i desired now None) m)"

definition desired_after :: "instance_power_action \<Rightarrow> desired_state" where
  "desired_after action = (if action = PowStop \<or> action = PowKill then DStopped else DRunning)"

text \<open>Returns what was on record, to be put back when the action fails; nothing when the write fails.\<close>

definition record_power_action ::
  "bool \<Rightarrow> string \<Rightarrow> instance_power_action \<Rightarrow> int \<Rightarrow> recovery_manager \<Rightarrow> recovery_record option option \<times> recovery_manager" where
  "record_power_action ok i action now m =
     (let previous = map_of (rm_records m) i;
          base = (case previous of Some r \<Rightarrow> r | None \<Rightarrow> initial_recovery_record i (desired_after action) now None);
          next_record = base\<lparr>rr_attempts := 0, rr_desired := desired_after action, rr_next_attempt_at := None, rr_phase := PhIdle,
            rr_stop_pending := False, rr_updated_at := now\<rparr> in
      case persist ok next_record m of Some m' \<Rightarrow> (Some previous, m') | None \<Rightarrow> (None, m))"

definition restore_record :: "bool \<Rightarrow> string \<Rightarrow> recovery_record option \<Rightarrow> recovery_manager \<Rightarrow> recovery_manager" where
  "restore_record ok i previous m =
     settle m (case previous of Some r \<Rightarrow> persist ok r m | None \<Rightarrow> delete_record ok i m)"

definition forget_record :: "bool \<Rightarrow> string \<Rightarrow> recovery_manager \<Rightarrow> recovery_manager" where
  "forget_record ok i m = settle m (delete_record ok i m)"

definition record_snapshot :: "nat \<Rightarrow> string \<Rightarrow> recovery_manager \<Rightarrow> recovery_snapshot option" where
  "record_snapshot max_retries i m = map_option (snapshot_of max_retries) (map_of (rm_records m) i)"

section \<open>Exits and failed starts\<close>

type_synonym reconciled = "recovery_snapshot option \<times> recovery_manager"

definition entry_of :: "recovery_config \<Rightarrow> recovery_record \<Rightarrow> recovery_manager \<Rightarrow> reconciled" where
  "entry_of cfg r m = (Some (snapshot_of (rc_max_retries cfg) r), m)"

definition persist_entry :: "recovery_config \<Rightarrow> bool \<Rightarrow> recovery_record \<Rightarrow> recovery_manager \<Rightarrow> reconciled" where
  "persist_entry cfg ok r m = (case persist ok r m of Some m' \<Rightarrow> entry_of cfg r m' | None \<Rightarrow> (None, m))"

definition exhaust :: "recovery_config \<Rightarrow> bool \<Rightarrow> recovery_record \<Rightarrow> recovery_manager \<Rightarrow> reconciled" where
  "exhaust cfg ok r m =
     (let failed = r\<lparr>rr_next_attempt_at := None, rr_phase := PhFailed\<rparr> in
      case persist ok failed m of
        Some m' \<Rightarrow> entry_of cfg failed (m'\<lparr>rm_reports := rm_reports m' + 1\<rparr>)
      | None \<Rightarrow> (None, m))"

definition record_exit ::
  "recovery_config \<Rightarrow> (string \<Rightarrow> int option) \<Rightarrow> bool \<Rightarrow> recovery_record \<Rightarrow> observation \<Rightarrow> int \<Rightarrow> recovery_manager \<Rightarrow> reconciled" where
  "record_exit cfg parse ok existing ob now m =
     (let exited = existing\<lparr>rr_last_exit_at := Some (finished_at_ms parse (ob_finished_at ob) now), rr_last_exit_code := Some (ob_exit_code ob),
            rr_last_oom := ob_oom ob, rr_last_reason := Some (recovery_reason_of ob), rr_last_runtime_ms := runtime_duration_ms parse ob,
            rr_last_started_at := Some (ob_started_at ob), rr_updated_at := now\<rparr>;
          n = rr_attempts existing + 1 in
      if rr_attempts existing \<ge> rc_max_retries cfg then exhaust cfg ok exited m
      else persist_entry cfg ok (exited\<lparr>rr_attempts := n,
        rr_next_attempt_at := Some (now + int (retry_delay_ms n (rc_initial_delay_ms cfg))), rr_phase := PhPending\<rparr>) m)"

definition record_start_failure :: "recovery_config \<Rightarrow> bool \<Rightarrow> recovery_record \<Rightarrow> int \<Rightarrow> recovery_manager \<Rightarrow> reconciled" where
  "record_start_failure cfg ok existing now m =
     (let n = rr_attempts existing + 1 in
      if rr_attempts existing \<ge> rc_max_retries cfg
      then exhaust cfg ok (existing\<lparr>rr_last_reason := Some StartFailed, rr_next_attempt_at := None, rr_updated_at := now\<rparr>) m
      else persist_entry cfg ok (existing\<lparr>rr_attempts := n, rr_last_reason := Some StartFailed,
        rr_next_attempt_at := Some (now + int (retry_delay_ms n (rc_initial_delay_ms cfg))), rr_phase := PhPending, rr_updated_at := now\<rparr>) m)"

section \<open>Workers\<close>

definition schedule_compensating_stop :: "observation \<Rightarrow> recovery_manager \<Rightarrow> recovery_manager" where
  "schedule_compensating_stop ob m =
     (if map_of (rm_stops m) (ob_instance ob) \<noteq> None then m
      else m\<lparr>rm_stops := AList.update (ob_instance ob) (rm_token m) (rm_stops m), rm_token := rm_token m + 1,
        rm_stop_workers := rm_stop_workers m @ [\<lparr>wp_token = rm_token m, wp_observation = ob, wp_stopping = False\<rparr>]\<rparr>)"

definition request_restart ::
  "recovery_config \<Rightarrow> bool \<Rightarrow> recovery_record \<Rightarrow> observation \<Rightarrow> int \<Rightarrow> recovery_manager \<Rightarrow> reconciled" where
  "request_restart cfg ok existing ob now m =
     (let requested = existing\<lparr>rr_next_attempt_at := Some (now + START_CONFIRMATION_TIMEOUT_MS), rr_phase := PhRestarting, rr_updated_at := now\<rparr> in
      case persist ok requested m of
        None \<Rightarrow> (None, m)
      | Some m' \<Rightarrow>
          entry_of cfg requested (m'\<lparr>rm_starts := AList.update (ob_instance ob) (rm_token m') (rm_starts m'), rm_token := rm_token m' + 1,
            rm_start_workers := rm_start_workers m' @ [\<lparr>wk_token = rm_token m', wk_observation = ob, wk_requested_at = now, wk_started = False\<rparr>]\<rparr>))"

text \<open>What the lanes ask once a start's turn comes.\<close>

definition still_wanted :: "start_worker \<Rightarrow> recovery_manager \<Rightarrow> bool" where
  "still_wanted w m \<longleftrightarrow>
     map_of (rm_starts m) (ob_instance (wk_observation w)) = Some (wk_token w) \<and>
     (case map_of (rm_records m) (ob_instance (wk_observation w)) of
        Some r \<Rightarrow> rr_desired r = DRunning \<and> rr_phase r = PhRestarting | None \<Rightarrow> False)"

definition end_start :: "start_worker \<Rightarrow> recovery_manager \<Rightarrow> recovery_manager" where
  "end_start w m =
     m\<lparr>rm_start_workers := filter (\<lambda>x. wk_token x \<noteq> wk_token w) (rm_start_workers m),
       rm_starts := (if map_of (rm_starts m) (ob_instance (wk_observation w)) = Some (wk_token w)
         then AList.delete (ob_instance (wk_observation w)) (rm_starts m) else rm_starts m)\<rparr>"

text \<open>Granted, a start asks Docker if it is still wanted and otherwise ends.\<close>

definition start_granted :: "start_worker \<Rightarrow> recovery_manager \<Rightarrow> recovery_manager" where
  "start_granted w m =
     (if still_wanted w m
      then m\<lparr>rm_start_workers := map (\<lambda>x. if wk_token x = wk_token w then x\<lparr>wk_started := True\<rparr> else x) (rm_start_workers m),
        rm_calls := rm_calls m @ [RecoveryStart (ob_instance (wk_observation w))]\<rparr>
      else end_start w m)"

text \<open>Turned away by a pause: the attempt didn't happen and is made again once the Relay is resumed.\<close>

definition wait_for_resume :: "bool \<Rightarrow> start_worker \<Rightarrow> int \<Rightarrow> recovery_manager \<Rightarrow> recovery_manager" where
  "wait_for_resume ok w now m =
     (case map_of (rm_records m) (ob_instance (wk_observation w)) of
        None \<Rightarrow> m
      | Some r \<Rightarrow>
          if map_of (rm_starts m) (ob_instance (wk_observation w)) \<noteq> Some (wk_token w) \<or> rr_phase r \<noteq> PhRestarting then m
          else settle m (persist ok (r\<lparr>rr_next_attempt_at := Some now, rr_phase := PhPending, rr_updated_at := now\<rparr>) m))"

definition start_paused :: "bool \<Rightarrow> start_worker \<Rightarrow> int \<Rightarrow> recovery_manager \<Rightarrow> recovery_manager" where
  "start_paused ok w now m = end_start w (wait_for_resume ok w now m)"

definition record_restart_failure :: "recovery_config \<Rightarrow> bool \<Rightarrow> start_worker \<Rightarrow> int \<Rightarrow> recovery_manager \<Rightarrow> recovery_manager" where
  "record_restart_failure cfg ok w now m =
     (case map_of (rm_records m) (ob_instance (wk_observation w)) of
        None \<Rightarrow> m
      | Some r \<Rightarrow>
          if map_of (rm_starts m) (ob_instance (wk_observation w)) \<noteq> Some (wk_token w) \<or> rr_desired r \<noteq> DRunning \<or>
            rr_phase r \<noteq> PhRestarting \<or> rr_updated_at r \<noteq> wk_requested_at w
          then m
          else snd (record_start_failure cfg ok r now m))"

definition start_failed :: "recovery_config \<Rightarrow> bool \<Rightarrow> start_worker \<Rightarrow> int \<Rightarrow> recovery_manager \<Rightarrow> recovery_manager" where
  "start_failed cfg ok w now m = end_start w (record_restart_failure cfg ok w now m)"

definition enforce_desired_state_after_start :: "bool \<Rightarrow> observation \<Rightarrow> int \<Rightarrow> recovery_manager \<Rightarrow> recovery_manager" where
  "enforce_desired_state_after_start ok ob now m =
     (case map_of (rm_records m) (ob_instance ob) of
        None \<Rightarrow> m
      | Some r \<Rightarrow>
          if rr_desired r \<noteq> DStopped then m
          else
            (case persist ok (r\<lparr>rr_stop_pending := True, rr_updated_at := now\<rparr>) m of
               None \<Rightarrow> m
             | Some m' \<Rightarrow> schedule_compensating_stop ob (m'\<lparr>rm_reported := removeAll (ob_instance ob) (rm_reported m')\<rparr>)))"

definition start_succeeded :: "bool \<Rightarrow> start_worker \<Rightarrow> int \<Rightarrow> recovery_manager \<Rightarrow> recovery_manager" where
  "start_succeeded ok w now m = end_start w (enforce_desired_state_after_start ok (wk_observation w) now m)"

definition end_stop :: "stop_worker \<Rightarrow> recovery_manager \<Rightarrow> recovery_manager" where
  "end_stop w m =
     m\<lparr>rm_stop_workers := filter (\<lambda>x. wp_token x \<noteq> wp_token w) (rm_stop_workers m),
       rm_stops := (if map_of (rm_stops m) (ob_instance (wp_observation w)) = Some (wp_token w)
         then AList.delete (ob_instance (wp_observation w)) (rm_stops m) else rm_stops m)\<rparr>"

text \<open>The intent is rechecked once the stop's turn comes.\<close>

definition stop_wanted :: "stop_worker \<Rightarrow> recovery_manager \<Rightarrow> bool" where
  "stop_wanted w m \<longleftrightarrow>
     map_of (rm_stops m) (ob_instance (wp_observation w)) = Some (wp_token w) \<and>
     (case map_of (rm_records m) (ob_instance (wp_observation w)) of
        Some r \<Rightarrow> rr_stop_pending r \<and> rr_desired r = DStopped | None \<Rightarrow> False)"

definition stop_granted :: "stop_worker \<Rightarrow> recovery_manager \<Rightarrow> recovery_manager" where
  "stop_granted w m =
     (if stop_wanted w m
      then m\<lparr>rm_stop_workers := map (\<lambda>x. if wp_token x = wp_token w then x\<lparr>wp_stopping := True\<rparr> else x) (rm_stop_workers m),
        rm_calls := rm_calls m @ [RecoveryStop (ob_instance (wp_observation w))]\<rparr>
      else end_stop w m)"

definition stop_succeeded :: "stop_worker \<Rightarrow> recovery_manager \<Rightarrow> recovery_manager" where
  "stop_succeeded w m = end_stop w (m\<lparr>rm_reported := removeAll (ob_instance (wp_observation w)) (rm_reported m)\<rparr>)"

text \<open>Docker or the lanes refused: reported once until it works, and tried again by a reconcile.\<close>

definition stop_failed :: "stop_worker \<Rightarrow> recovery_manager \<Rightarrow> recovery_manager" where
  "stop_failed w m =
     (let i = ob_instance (wp_observation w); report = i \<notin> set (rm_reported m) in
      end_stop w (m\<lparr>rm_reported := set_add i (rm_reported m), rm_reports := rm_reports m + (if report then 1 else 0)\<rparr>))"

section \<open>Reconciling what is observed\<close>

definition reconcile_running ::
  "recovery_config \<Rightarrow> (string \<Rightarrow> int option) \<Rightarrow> bool \<Rightarrow> recovery_record \<Rightarrow> observation \<Rightarrow> int \<Rightarrow> recovery_manager \<Rightarrow> reconciled" where
  "reconcile_running cfg parse ok existing ob now m =
     (let stable = (case parse (ob_started_at ob) of Some s \<Rightarrow> now - s \<ge> rc_stability_ms cfg | None \<Rightarrow> False);
          up = existing\<lparr>rr_next_attempt_at := None, rr_stop_pending := False, rr_updated_at := now\<rparr>;
          up_phase = (if ob_ready ob then PhMonitoring else PhRestarting) in
      if stable \<and> (rr_attempts existing > 0 \<or> rr_phase existing \<noteq> PhIdle)
      then persist_entry cfg ok (up\<lparr>rr_attempts := 0, rr_phase := PhIdle\<rparr>) m
      else if ob_ready ob \<and> rr_phase existing = PhRestarting then persist_entry cfg ok (up\<lparr>rr_phase := PhMonitoring\<rparr>) m
      else if rr_phase existing = PhFailed then persist_entry cfg ok (up\<lparr>rr_phase := up_phase\<rparr>) m
      else if rr_phase existing = PhPending then persist_entry cfg ok (up\<lparr>rr_phase := up_phase\<rparr>) m
      else if rr_stop_pending existing
      then persist_entry cfg ok (existing\<lparr>rr_stop_pending := False, rr_updated_at := now\<rparr>) m
      else entry_of cfg existing m)"

text \<open>A game server seen for the first time: whether it was meant to run is read off its container.\<close>

definition adopt ::
  "recovery_config \<Rightarrow> (string \<Rightarrow> int option) \<Rightarrow> bool \<Rightarrow> observation \<Rightarrow> int \<Rightarrow> recovery_manager \<Rightarrow> reconciled" where
  "adopt cfg parse ok ob now m =
     (let preserve = ob_running ob \<or> ob_installation_ready ob \<and> (ob_restarting ob \<or> ob_docker_restart ob \<and> ob_exit_code ob \<noteq> 0);
          initial = initial_recovery_record (ob_instance ob) (if preserve then DRunning else DStopped) now
            (if preserve then None else Some (ob_started_at ob)) in
      if preserve \<and> \<not> ob_running ob \<and> \<not> ob_restarting ob then record_exit cfg parse ok initial ob now m
      else persist_entry cfg ok initial m)"

definition reconcile_stopped ::
  "recovery_config \<Rightarrow> bool \<Rightarrow> recovery_record \<Rightarrow> observation \<Rightarrow> int \<Rightarrow> recovery_manager \<Rightarrow> reconciled" where
  "reconcile_stopped cfg ok existing ob now m =
     (let enforce = (\<lambda>m. if ob_running ob \<and> rr_stop_pending existing then schedule_compensating_stop ob m else m);
          stop_pending = (if ob_running ob then rr_stop_pending existing else False);
          r = existing\<lparr>rr_attempts := 0, rr_next_attempt_at := None, rr_phase := PhIdle, rr_stop_pending := stop_pending, rr_updated_at := now\<rparr> in
      if rr_phase existing = PhIdle \<and> rr_attempts existing = 0 \<and> rr_next_attempt_at existing = None \<and> stop_pending = rr_stop_pending existing
      then entry_of cfg existing (enforce m)
      else case persist ok r m of Some m' \<Rightarrow> entry_of cfg r (enforce m') | None \<Rightarrow> (None, m))"

text \<open>One that is meant to run and doesn't.\<close>

definition reconcile_down ::
  "recovery_config \<Rightarrow> (string \<Rightarrow> int option) \<Rightarrow> bool \<Rightarrow> bool \<Rightarrow> recovery_record \<Rightarrow> observation \<Rightarrow> int \<Rightarrow> recovery_manager \<Rightarrow> reconciled" where
  "reconcile_down cfg parse paused ok existing ob now m =
     (let same_start = rr_last_started_at existing = Some (ob_started_at ob) in
      if \<not> ob_installation_ready ob
      then persist_entry cfg ok (existing\<lparr>rr_desired := DStopped, rr_last_started_at := Some (ob_started_at ob),
        rr_next_attempt_at := None, rr_phase := PhIdle, rr_updated_at := now\<rparr>) m
      else if ob_restarting ob then entry_of cfg existing m
      else if rr_phase existing = PhPending \<and> (case rr_next_attempt_at existing of Some t \<Rightarrow> t \<le> now | None \<Rightarrow> False)
      then (if paused then entry_of cfg existing m else request_restart cfg ok existing ob now m)
      else if rr_phase existing = PhRestarting \<and> same_start
      then (if map_of (rm_starts m) (ob_instance ob) \<noteq> None then entry_of cfg existing m
        else case rr_next_attempt_at existing of
          None \<Rightarrow> persist_entry cfg ok (existing\<lparr>rr_next_attempt_at := Some (now + START_CONFIRMATION_TIMEOUT_MS), rr_updated_at := now\<rparr>) m
        | Some t \<Rightarrow> if t > now then entry_of cfg existing m else record_start_failure cfg ok existing now m)
      else if same_start then entry_of cfg existing m
      else record_exit cfg parse ok existing ob now m)"

definition reconcile_observation ::
  "recovery_config \<Rightarrow> (string \<Rightarrow> int option) \<Rightarrow> bool \<Rightarrow> bool \<Rightarrow> observation \<Rightarrow> int \<Rightarrow> recovery_manager \<Rightarrow> reconciled" where
  "reconcile_observation cfg parse paused ok ob now m =
     (case map_of (rm_records m) (ob_instance ob) of
        existing \<Rightarrow>
          if \<not> ob_managed ob then
            (let view = unmanaged_snapshot (ob_running ob \<or> ob_restarting ob) in
             case existing of
               Some _ \<Rightarrow> (case delete_record ok (ob_instance ob) m of Some m' \<Rightarrow> (Some view, m') | None \<Rightarrow> (None, m))
             | None \<Rightarrow> (Some view, m))
          else case existing of
            None \<Rightarrow> adopt cfg parse ok ob now m
          | Some r \<Rightarrow>
              if ob_transition_active ob then entry_of cfg r m
              else if rr_desired r = DStopped then reconcile_stopped cfg ok r ob now m
              else if ob_running ob then reconcile_running cfg parse ok r ob now m
              else reconcile_down cfg parse paused ok r ob now m)"

end
