(* ===== verification/Recovery_Claims.thy ===== *)
theory Recovery_Claims
  imports Runtime_Recovery
begin

text \<open>
  What automatic recovery keeps: a game server that crashes again and again is started at most as
  often as configured, one that was stopped meanwhile is stopped again, and a restart of the Relay
  finds what memory held.
\<close>

section \<open>What one game server's row keeps\<close>

text \<open>A start whose turn hasn't come and which is the latest one asked for.\<close>

definition waiting :: "recovery_manager \<Rightarrow> string \<Rightarrow> bool" where
  "waiting m i \<longleftrightarrow>
     (\<exists>w\<in>set (rm_start_workers m). \<not> wk_started w \<and> ob_instance (wk_observation w) = i \<and> map_of (rm_starts m) i = Some (wk_token w))"

definition starts_of :: "recovery_manager \<Rightarrow> string \<Rightarrow> nat" where
  "starts_of m i = count_list (rm_calls m) (RecoveryStart i)"

text \<open>\<open>s\<close> is how often the game server was started since its attempts were last none.\<close>

definition row_ok :: "recovery_config \<Rightarrow> nat \<Rightarrow> bool \<Rightarrow> recovery_record \<Rightarrow> bool" where
  "row_ok cfg s waits r \<longleftrightarrow>
     rr_attempts r \<le> rc_max_retries cfg \<and> s \<le> rr_attempts r \<and>
     (rr_phase r = PhPending \<or> waits \<longrightarrow> rr_attempts r = 0 \<or> s < rr_attempts r) \<and>
     (rr_phase r = PhPending \<longrightarrow> 0 < rr_attempts r) \<and>
     (rr_phase r = PhFailed \<longrightarrow> rc_max_retries cfg \<le> rr_attempts r) \<and>
     (rr_phase r = PhRestarting \<longrightarrow> 0 < rr_attempts r \<or> rc_max_retries cfg = 0)"

definition at_ok :: "recovery_config \<Rightarrow> recovery_manager \<Rightarrow> nat \<Rightarrow> string \<Rightarrow> bool" where
  "at_ok cfg m s i \<longleftrightarrow>
     (waiting m i \<longrightarrow> 0 < rc_max_retries cfg) \<and>
     (case map_of (rm_records m) i of
        None \<Rightarrow> s = 0
      | Some r \<Rightarrow> rr_instance r = i \<and> row_ok cfg s (waiting m i) r)"

text \<open>How the count moves with a step: back to none with the attempts, and up with each start.\<close>

definition counted :: "recovery_manager \<Rightarrow> recovery_manager \<Rightarrow> nat \<Rightarrow> string \<Rightarrow> nat" where
  "counted m m' s i =
     (if (case map_of (rm_records m') i of None \<Rightarrow> True | Some r \<Rightarrow> rr_attempts r = 0) then 0
      else s + (starts_of m' i - starts_of m i))"

definition others_kept :: "string \<Rightarrow> recovery_manager \<Rightarrow> recovery_manager \<Rightarrow> bool" where
  "others_kept i m m' \<longleftrightarrow>
     (\<forall>j. j \<noteq> i \<longrightarrow> map_of (rm_records m') j = map_of (rm_records m) j \<and> (waiting m' j \<longrightarrow> waiting m j) \<and> starts_of m' j = starts_of m j)"

definition kept_at :: "recovery_config \<Rightarrow> string \<Rightarrow> nat \<Rightarrow> recovery_manager \<Rightarrow> recovery_manager \<Rightarrow> bool" where
  "kept_at cfg i s m m' \<longleftrightarrow>
     (rm_records m = rm_stored m \<longrightarrow> rm_records m' = rm_stored m') \<and> others_kept i m m' \<and>
     (at_ok cfg m s i \<longrightarrow> at_ok cfg m' (counted m m' s i) i)"

lemma counted_same: "at_ok cfg m s i \<Longrightarrow> counted m m s i = s"
  by (auto simp: counted_def at_ok_def row_ok_def split: option.splits)

lemma kept_refl: "kept_at cfg i s m m"
  by (auto simp: kept_at_def others_kept_def counted_same)

text \<open>Frames: what a step that leaves the records, or the workers, alone keeps.\<close>

definition same_workers :: "recovery_manager \<Rightarrow> recovery_manager \<Rightarrow> bool" where
  "same_workers m m' \<longleftrightarrow>
     rm_starts m' = rm_starts m \<and> rm_start_workers m' = rm_start_workers m \<and> rm_calls m' = rm_calls m"

lemma same_workers_simps: "same_workers m m' \<Longrightarrow> waiting m' = waiting m \<and> starts_of m' = starts_of m"
  by (intro conjI ext) (simp_all add: same_workers_def waiting_def starts_of_def)

lemma persist_kept:
  assumes "persist ok r m = Some m'" "rr_instance r = i"
    and "at_ok cfg m s i \<Longrightarrow> row_ok cfg (if rr_attempts r = 0 then 0 else s) (waiting m i) r"
  shows "kept_at cfg i s m m'" "same_workers m m'" "map_of (rm_records m') i = Some r"
proof -
  have m': "rm_records m' = AList.update i r (rm_records m)" "rm_stored m' = AList.update i r (rm_stored m)"
    using assms(1,2) by (auto simp: persist_def split: if_splits)
  show workers: "same_workers m m'" using assms(1) by (auto simp: persist_def same_workers_def split: if_splits)
  show "map_of (rm_records m') i = Some r" by (simp add: m')
  from same_workers_simps [OF workers] assms(2,3) show "kept_at cfg i s m m'"
    by (auto simp: kept_at_def others_kept_def at_ok_def counted_def m')
qed

lemma persist_entry_kept:
  assumes "rr_instance r = i" and "at_ok cfg m s i \<Longrightarrow> row_ok cfg (if rr_attempts r = 0 then 0 else s) (waiting m i) r"
  shows "kept_at cfg i s m (snd (persist_entry cfg ok r m))"
proof (cases "persist ok r m")
  case None
  then show ?thesis by (simp add: persist_entry_def kept_refl)
next
  case (Some m')
  with persist_kept(1) [OF Some assms] show ?thesis by (simp add: persist_entry_def entry_of_def)
qed

text \<open>What comes after a write and touches no record and adds no waiting start.\<close>

definition quiet :: "recovery_manager \<Rightarrow> recovery_manager \<Rightarrow> bool" where
  "quiet m m' \<longleftrightarrow>
     rm_records m' = rm_records m \<and> rm_stored m' = rm_stored m \<and> rm_calls m' = rm_calls m \<and> (\<forall>j. waiting m' j \<longrightarrow> waiting m j)"

lemma row_ok_waits: "row_ok cfg s waits r \<Longrightarrow> (waits' \<longrightarrow> waits) \<Longrightarrow> row_ok cfg s waits' r"
  by (auto simp: row_ok_def)

lemma kept_quiet: "kept_at cfg i s m m' \<Longrightarrow> quiet m' m'' \<Longrightarrow> kept_at cfg i s m m''"
proof -
  assume kept: "kept_at cfg i s m m'" and quiet: "quiet m' m''"
  have "counted m m'' s i = counted m m' s i" using quiet by (simp add: counted_def quiet_def starts_of_def)
  moreover have "at_ok cfg m'' n i" if "at_ok cfg m' n i" for n
    using that quiet by (auto simp: at_ok_def quiet_def intro: row_ok_waits split: option.splits)
  ultimately show ?thesis using kept quiet by (auto simp: kept_at_def others_kept_def quiet_def starts_of_def)
qed

lemma quiet_kept: "quiet m m' \<Longrightarrow> kept_at cfg i s m m'"
  using kept_quiet [OF kept_refl] .

lemma quiet_itself [simp]: "quiet m m"
  by (simp add: quiet_def)

lemma quiet_simps [simp]:
  "quiet m (m'\<lparr>rm_reports := n\<rparr>) = quiet m m'" "quiet m (m'\<lparr>rm_reported := xs\<rparr>) = quiet m m'"
  by (simp_all add: quiet_def waiting_def)

lemma quiet_stop: "quiet m (schedule_compensating_stop ob m)"
  by (simp add: quiet_def waiting_def schedule_compensating_stop_def)

lemma quiet_end_start: "quiet m (end_start w m)"
  by (auto simp: quiet_def waiting_def end_start_def split: if_splits)

lemma exhaust_kept:
  assumes "rr_instance r = i" "rc_max_retries cfg \<le> rr_attempts r"
    and "at_ok cfg m s i \<Longrightarrow> row_ok cfg (if rr_attempts r = 0 then 0 else s) (waiting m i)
      (r\<lparr>rr_next_attempt_at := None, rr_phase := PhFailed\<rparr>)"
  shows "kept_at cfg i s m (snd (exhaust cfg ok r m))"
proof (cases "persist ok (r\<lparr>rr_next_attempt_at := None, rr_phase := PhFailed\<rparr>) m")
  case None
  then show ?thesis by (simp add: exhaust_def Let_def kept_refl)
next
  case (Some m')
  then have "kept_at cfg i s m m'" using persist_kept(1) [OF Some] assms by simp
  then have "kept_at cfg i s m (m'\<lparr>rm_reports := rm_reports m' + 1\<rparr>)" by (rule kept_quiet) simp
  with Some show ?thesis by (simp add: exhaust_def entry_of_def Let_def)
qed

text \<open>A row of the table, or one just made.\<close>

definition row_at :: "recovery_config \<Rightarrow> recovery_manager \<Rightarrow> string \<Rightarrow> recovery_record \<Rightarrow> bool" where
  "row_at cfg m i r \<longleftrightarrow>
     map_of (rm_records m) i = Some r \<or>
     map_of (rm_records m) i = None \<and> rr_instance r = i \<and> rr_attempts r = 0 \<and> rr_phase r = PhIdle"

lemma row_at_ok: "at_ok cfg m s i \<Longrightarrow> row_at cfg m i r \<Longrightarrow> row_ok cfg s (waiting m i) r \<and> rr_instance r = i"
  by (auto simp: at_ok_def row_at_def row_ok_def split: option.splits)

lemma record_exit_kept:
  assumes "row_at cfg m i r" "rr_instance r = i"
  shows "kept_at cfg i s m (snd (record_exit cfg parse ok r ob now m))"
proof (cases "rc_max_retries cfg \<le> rr_attempts r")
  case True
  with assms show ?thesis
    unfolding record_exit_def Let_def by (simp, intro exhaust_kept) (auto dest!: row_at_ok simp: row_ok_def)
next
  case False
  with assms show ?thesis
    unfolding record_exit_def Let_def by (simp, intro persist_entry_kept) (auto dest!: row_at_ok simp: row_ok_def)
qed

lemma record_start_failure_kept:
  assumes "row_at cfg m i r" "rr_instance r = i"
  shows "kept_at cfg i s m (snd (record_start_failure cfg ok r now m))"
proof (cases "rc_max_retries cfg \<le> rr_attempts r")
  case True
  with assms show ?thesis
    unfolding record_start_failure_def Let_def by (simp, intro exhaust_kept) (auto dest!: row_at_ok simp: row_ok_def)
next
  case False
  with assms show ?thesis
    unfolding record_start_failure_def Let_def by (simp, intro persist_entry_kept) (auto dest!: row_at_ok simp: row_ok_def)
qed

lemma request_restart_kept:
  assumes "map_of (rm_records m) i = Some r" "rr_instance r = i" "ob_instance ob = i" "rr_phase r = PhPending"
  shows "kept_at cfg i s m (snd (request_restart cfg ok r ob now m))"
proof (cases ok)
  case False
  then show ?thesis by (simp add: request_restart_def persist_def kept_refl)
next
  case True
  let ?r = "r\<lparr>rr_next_attempt_at := Some (now + START_CONFIRMATION_TIMEOUT_MS), rr_phase := PhRestarting, rr_updated_at := now\<rparr>"
  let ?m = "snd (request_restart cfg ok r ob now m)"
  have m: "rm_records ?m = AList.update i ?r (rm_records m)" "rm_stored ?m = AList.update i ?r (rm_stored m)"
      "rm_calls ?m = rm_calls m" "rm_starts ?m = AList.update i (rm_token m) (rm_starts m)"
      "rm_start_workers ?m = rm_start_workers m @ [\<lparr>wk_token = rm_token m, wk_observation = ob, wk_requested_at = now, wk_started = False\<rparr>]"
    using True assms(2,3) by (simp_all add: request_restart_def persist_def entry_of_def Let_def)
  have "waiting ?m j \<longleftrightarrow> waiting m j" if "j \<noteq> i" for j
    using that assms(3) by (auto simp: waiting_def m)
  moreover have "row_ok cfg (counted m ?m s i) True ?r \<and> 0 < rc_max_retries cfg" if "at_ok cfg m s i"
    using that assms(1,4) by (auto simp: at_ok_def row_ok_def counted_def m starts_of_def)
  ultimately show ?thesis
    using assms(2) by (auto simp: kept_at_def others_kept_def at_ok_def m starts_of_def intro: row_ok_waits)
qed

lemma reconcile_running_kept:
  assumes "map_of (rm_records m) i = Some r" "rr_instance r = i"
  shows "kept_at cfg i s m (snd (reconcile_running cfg parse ok r ob now m))"
proof -
  have row: "row_ok cfg s (waiting m i) r" if "at_ok cfg m s i" using that assms(1) by (simp add: at_ok_def)
  show ?thesis
    unfolding reconcile_running_def Let_def
    by (simp add: kept_refl entry_of_def assms(2), intro conjI impI; (rule persist_entry_kept)?)
      (auto simp: assms(2) row_ok_def dest!: row)
qed

lemma reconcile_stopped_kept:
  assumes "map_of (rm_records m) i = Some r" "rr_instance r = i"
  shows "kept_at cfg i s m (snd (reconcile_stopped cfg ok r ob now m))"
proof -
  let ?r = "r\<lparr>rr_attempts := 0, rr_next_attempt_at := None, rr_phase := PhIdle,
    rr_stop_pending := if ob_running ob then rr_stop_pending r else False, rr_updated_at := now\<rparr>"
  let ?enforce = "\<lambda>m. if ob_running ob \<and> rr_stop_pending r then schedule_compensating_stop ob m else m"
  have enforce: "kept_at cfg i s m (?enforce m')" if "kept_at cfg i s m m'" for m'
    using kept_quiet [OF that quiet_stop] that by simp
  have "kept_at cfg i s m m'" if "persist ok ?r m = Some m'" for m'
    using that by (rule persist_kept) (simp_all add: assms(2) row_ok_def)
  then have written: "kept_at cfg i s m (case persist ok ?r m of Some m' \<Rightarrow> ?enforce m' | None \<Rightarrow> m)"
    using enforce by (cases "persist ok ?r m") (simp_all only: option.case kept_refl)
  have "snd (reconcile_stopped cfg ok r ob now m) = ?enforce m \<or>
      snd (reconcile_stopped cfg ok r ob now m) = (case persist ok ?r m of Some m' \<Rightarrow> ?enforce m' | None \<Rightarrow> m)"
    unfolding reconcile_stopped_def Let_def
    by (cases "ob_running ob"; cases "rr_stop_pending r"; cases "persist ok ?r m"; simp add: entry_of_def)
  then show ?thesis
  proof
    assume "snd (reconcile_stopped cfg ok r ob now m) = ?enforce m"
    then show ?thesis by (simp only: enforce [OF kept_refl])
  next
    assume "snd (reconcile_stopped cfg ok r ob now m) = (case persist ok ?r m of Some m' \<Rightarrow> ?enforce m' | None \<Rightarrow> m)"
    then show ?thesis by (simp only: written)
  qed
qed

lemma adopt_kept:
  assumes "map_of (rm_records m) (ob_instance ob) = None"
  shows "kept_at cfg (ob_instance ob) s m (snd (adopt cfg parse ok ob now m))"
proof -
  have initial: "row_at cfg m (ob_instance ob) (initial_recovery_record (ob_instance ob) desired now started)" for desired started
    using assms by (simp add: row_at_def initial_recovery_record_def)
  show ?thesis
    unfolding adopt_def Let_def
    by (simp, intro conjI impI; (rule record_exit_kept [OF initial] | rule persist_entry_kept))
      (simp_all add: initial_recovery_record_def row_ok_def)
qed

lemma reconcile_down_kept:
  assumes "map_of (rm_records m) i = Some r" "rr_instance r = i" "ob_instance ob = i"
  shows "kept_at cfg i s m (snd (reconcile_down cfg parse paused ok r ob now m))"
proof -
  have at: "row_at cfg m i r" using assms(1) by (simp add: row_at_def)
  have row: "row_ok cfg s (waiting m i) r" if "at_ok cfg m s i" using that assms(1) by (simp add: at_ok_def)
  have uninstalled: "kept_at cfg i s m (snd (persist_entry cfg ok (r\<lparr>rr_desired := DStopped, rr_last_started_at := started,
      rr_next_attempt_at := None, rr_phase := PhIdle, rr_updated_at := now\<rparr>) m))" for started
    by (rule persist_entry_kept) (auto simp: assms(2) row_ok_def dest!: row)
  have confirming: "kept_at cfg i s m (snd (persist_entry cfg ok (r\<lparr>rr_next_attempt_at := t, rr_updated_at := now\<rparr>) m))" for t
    by (rule persist_entry_kept) (auto simp: assms(2) row_ok_def dest!: row)
  show ?thesis
    unfolding reconcile_down_def Let_def
    using uninstalled confirming request_restart_kept [OF assms] record_start_failure_kept [OF at assms(2)]
      record_exit_kept [OF at assms(2)]
    by (auto simp: kept_refl entry_of_def split: option.split)
qed

lemma delete_kept:
  assumes "delete_record ok i m = Some m'"
  shows "kept_at cfg i s m m'"
  using assms
  by (auto simp: delete_record_def kept_at_def others_kept_def at_ok_def counted_def waiting_def starts_of_def split: if_splits)

lemma reconcile_observation_kept:
  assumes "\<And>r. map_of (rm_records m) (ob_instance ob) = Some r \<Longrightarrow> rr_instance r = ob_instance ob"
  shows "kept_at cfg (ob_instance ob) s m (snd (reconcile_observation cfg parse paused ok ob now m))"
proof (cases "map_of (rm_records m) (ob_instance ob)")
  case None
  with adopt_kept [OF None] show ?thesis
    by (simp add: reconcile_observation_def kept_refl Let_def)
next
  case (Some r)
  note r = Some assms [OF Some]
  have "kept_at cfg (ob_instance ob) s m m'" if "delete_record ok (ob_instance ob) m = Some m'" for m'
    using that by (rule delete_kept)
  with r reconcile_stopped_kept [OF r] reconcile_running_kept [OF r] reconcile_down_kept [OF r refl] show ?thesis
    by (auto simp: reconcile_observation_def kept_refl Let_def entry_of_def split: option.split)
qed

section \<open>Workers and intents\<close>

lemma settle_kept:
  "(\<And>m'. written = Some m' \<Longrightarrow> kept_at cfg i s m m') \<Longrightarrow> kept_at cfg i s m (settle m written)"
  by (simp add: settle_def kept_refl split: option.split)

lemma record_provisioned_kept: "kept_at cfg i s m (record_provisioned ok i desired now m)"
  unfolding record_provisioned_def
  by (intro settle_kept, erule persist_kept) (simp_all add: initial_recovery_record_def row_ok_def)

lemma record_power_action_kept:
  assumes "\<And>r. map_of (rm_records m) i = Some r \<Longrightarrow> rr_instance r = i"
  shows "kept_at cfg i s m (snd (record_power_action ok i action now m))"
proof -
  let ?base = "case map_of (rm_records m) i of Some r \<Rightarrow> r | None \<Rightarrow> initial_recovery_record i (desired_after action) now None"
  let ?r = "?base\<lparr>rr_attempts := 0, rr_desired := desired_after action, rr_next_attempt_at := None, rr_phase := PhIdle,
    rr_stop_pending := False, rr_updated_at := now\<rparr>"
  have inst: "rr_instance ?r = i" using assms by (simp add: initial_recovery_record_def split: option.split)
  have "kept_at cfg i s m m'" if "persist ok ?r m = Some m'" for m'
    by (rule persist_kept(1) [OF that inst]) (simp add: row_ok_def)
  then show ?thesis by (simp add: record_power_action_def Let_def kept_refl split: option.split)
qed

lemma forget_kept: "kept_at cfg i s m (forget_record ok i m)"
  unfolding forget_record_def by (intro settle_kept delete_kept)

text \<open>Put back after the action failed: nothing changed, unless the write that puts it back fails too.\<close>

lemma power_undone_kept:
  assumes action: "record_power_action ok i action now m = (Some previous, m1)"
    and inst: "\<And>r. map_of (rm_records m) i = Some r \<Longrightarrow> rr_instance r = i"
  shows "kept_at cfg i s m (restore_record ok' i previous m1)"
proof (cases ok')
  case False
  then have "restore_record ok' i previous m1 = snd (record_power_action ok i action now m)"
    by (simp add: restore_record_def settle_def action persist_def delete_record_def split: option.split)
  with record_power_action_kept [OF inst] show ?thesis by simp
next
  case True
  have previous: "previous = map_of (rm_records m) i" and workers: "same_workers m m1"
    and others: "\<And>j. j \<noteq> i \<Longrightarrow> map_of (rm_records m1) j = map_of (rm_records m) j"
    and stored: "rm_records m = rm_stored m \<Longrightarrow> rm_records m1 = rm_stored m1"
    using action inst
    by (auto simp: record_power_action_def Let_def persist_def same_workers_def initial_recovery_record_def
        split: option.splits if_splits)
  let ?m' = "restore_record ok' i previous m1"
  have "map_of (rm_records ?m') j = map_of (rm_records m) j" for j
    using True others inst by (auto simp: restore_record_def settle_def persist_def delete_record_def previous split: option.split)
  moreover have "rm_records m = rm_stored m \<Longrightarrow> rm_records ?m' = rm_stored ?m'"
    using True stored by (auto simp: restore_record_def settle_def persist_def delete_record_def split: option.split)
  moreover have same: "same_workers m ?m'"
    using True workers by (auto simp: same_workers_def restore_record_def settle_def persist_def delete_record_def split: option.split)
  note w = same_workers_simps [OF same]
  moreover have "counted m ?m' s i = s" if "at_ok cfg m s i"
    using that calculation(1) w by (auto simp: counted_def at_ok_def row_ok_def split: option.splits)
  ultimately show ?thesis using w by (auto simp: kept_at_def others_kept_def at_ok_def split: option.splits)
qed

lemma waiting_of:
  "w \<in> set (rm_start_workers m) \<Longrightarrow> \<not> wk_started w \<Longrightarrow>
   map_of (rm_starts m) (ob_instance (wk_observation w)) = Some (wk_token w) \<Longrightarrow> waiting m (ob_instance (wk_observation w))"
  by (auto simp: waiting_def)

lemma start_granted_kept:
  assumes "w \<in> set (rm_start_workers m)" "\<not> wk_started w" "ob_instance (wk_observation w) = i"
  shows "kept_at cfg i s m (start_granted w m)"
proof (cases "still_wanted w m")
  case False
  then show ?thesis using quiet_kept [OF quiet_end_start] by (simp add: start_granted_def)
next
  case True
  let ?m = "start_granted w m"
  have m: "rm_records ?m = rm_records m" "rm_stored ?m = rm_stored m" "rm_starts ?m = rm_starts m"
      "rm_calls ?m = rm_calls m @ [RecoveryStart i]"
      "rm_start_workers ?m = map (\<lambda>x. if wk_token x = wk_token w then x\<lparr>wk_started := True\<rparr> else x) (rm_start_workers m)"
    using True assms(3) by (simp_all add: start_granted_def)
  from True obtain r where r: "map_of (rm_records m) i = Some r" "rr_phase r = PhRestarting"
      and token: "map_of (rm_starts m) i = Some (wk_token w)"
    using assms(3) by (auto simp: still_wanted_def split: option.splits)
  have was: "waiting m i" using waiting_of [OF assms(1,2)] token assms(3) by simp
  have left: "x \<in> set (rm_start_workers m) \<and> wk_token x \<noteq> wk_token w"
    if "x \<in> set (rm_start_workers ?m)" "\<not> wk_started x" for x
  proof -
    from that(1) obtain y where "y \<in> set (rm_start_workers m)"
        "x = (if wk_token y = wk_token w then y\<lparr>wk_started := True\<rparr> else y)"
      unfolding m(5) set_map by blast
    with that(2) show ?thesis by (cases "wk_token y = wk_token w") simp_all
  qed
  have "\<not> waiting ?m i" using left token unfolding waiting_def m(3) by force
  moreover have "waiting ?m j \<longrightarrow> waiting m j" for j using left unfolding waiting_def m(3) by blast
  moreover have "starts_of ?m j = starts_of m j + (if j = i then 1 else 0)" for j by (simp add: starts_of_def m)
  moreover have "row_ok cfg (counted m ?m s i) False r" if "at_ok cfg m s i"
    using that r was calculation(3) by (auto simp: at_ok_def row_ok_def counted_def m)
  ultimately show ?thesis using r by (auto simp: kept_at_def others_kept_def at_ok_def m)
qed

lemma start_paused_kept:
  assumes "w \<in> set (rm_start_workers m)" "\<not> wk_started w" "ob_instance (wk_observation w) = i"
    and "\<And>r. map_of (rm_records m) i = Some r \<Longrightarrow> rr_instance r = i"
  shows "kept_at cfg i s m (start_paused ok w now m)"
proof -
  have "kept_at cfg i s m (wait_for_resume ok w now m)"
  proof (cases "map_of (rm_records m) i")
    case None
    then show ?thesis by (simp add: wait_for_resume_def assms(3) kept_refl)
  next
    case (Some r)
    let ?r = "r\<lparr>rr_next_attempt_at := Some now, rr_phase := PhPending, rr_updated_at := now\<rparr>"
    have "kept_at cfg i s m (settle m (persist ok ?r m))"
      if "map_of (rm_starts m) i = Some (wk_token w)" "rr_phase r = PhRestarting"
    proof (intro settle_kept, erule persist_kept)
      show "rr_instance ?r = i" using assms(4) [OF Some] by simp
      show "row_ok cfg (if rr_attempts ?r = 0 then 0 else s) (waiting m i) ?r" if "at_ok cfg m s i"
        using that Some \<open>rr_phase r = PhRestarting\<close> waiting_of [OF assms(1,2)] \<open>map_of (rm_starts m) i = Some (wk_token w)\<close> assms(3)
        by (auto simp: at_ok_def row_ok_def)
    qed
    with Some show ?thesis by (auto simp: wait_for_resume_def assms(3) kept_refl)
  qed
  then show ?thesis unfolding start_paused_def by (rule kept_quiet [OF _ quiet_end_start])
qed

lemma start_failed_kept:
  assumes "ob_instance (wk_observation w) = i" "\<And>r. map_of (rm_records m) i = Some r \<Longrightarrow> rr_instance r = i"
  shows "kept_at cfg i s m (start_failed cfg ok w now m)"
proof -
  have "kept_at cfg i s m (record_restart_failure cfg ok w now m)"
  proof (cases "map_of (rm_records m) i")
    case None
    then show ?thesis by (simp add: record_restart_failure_def assms(1) kept_refl)
  next
    case (Some r)
    then have "row_at cfg m i r" by (simp add: row_at_def)
    from record_start_failure_kept [OF this assms(2) [OF Some]] Some show ?thesis
      by (auto simp: record_restart_failure_def assms(1) kept_refl)
  qed
  then show ?thesis unfolding start_failed_def by (rule kept_quiet [OF _ quiet_end_start])
qed

lemma start_succeeded_kept:
  assumes "ob_instance (wk_observation w) = i" "\<And>r. map_of (rm_records m) i = Some r \<Longrightarrow> rr_instance r = i"
  shows "kept_at cfg i s m (start_succeeded ok w now m)"
proof -
  let ?ob = "wk_observation w"
  have "kept_at cfg i s m (enforce_desired_state_after_start ok ?ob now m)"
  proof (cases "map_of (rm_records m) i")
    case None
    then show ?thesis by (simp add: enforce_desired_state_after_start_def assms(1) kept_refl)
  next
    case (Some r)
    let ?r = "r\<lparr>rr_stop_pending := True, rr_updated_at := now\<rparr>"
    have "kept_at cfg i s m (schedule_compensating_stop ?ob (m'\<lparr>rm_reported := xs\<rparr>))" if "persist ok ?r m = Some m'" for m' xs
    proof -
      have "kept_at cfg i s m m'"
        using that by (rule persist_kept) (use assms(2) [OF Some] Some in \<open>auto simp: at_ok_def row_ok_def\<close>)
      then have "kept_at cfg i s m (m'\<lparr>rm_reported := xs\<rparr>)" by (rule kept_quiet) simp
      then show ?thesis by (rule kept_quiet [OF _ quiet_stop])
    qed
    with Some show ?thesis
      by (auto simp: enforce_desired_state_after_start_def assms(1) kept_refl split: option.split)
  qed
  then show ?thesis unfolding start_succeeded_def by (rule kept_quiet [OF _ quiet_end_start])
qed

lemma stop_quiet: "quiet m (end_stop w m)"
  by (simp add: quiet_def waiting_def end_stop_def)

lemma stop_granted_kept: "kept_at cfg i s m (stop_granted w m)"
proof (cases "stop_wanted w m")
  case False
  then show ?thesis using quiet_kept [OF stop_quiet] by (simp add: stop_granted_def)
next
  case True
  then show ?thesis
    by (auto simp: stop_granted_def kept_at_def others_kept_def waiting_def starts_of_def at_ok_def counted_def row_ok_def split: option.splits)
qed

section \<open>Every step\<close>

text \<open>
  A manager and, for each game server, how often recovery started it since its attempts were last
  none. Between a power action and its failure nothing is reconciled: the game server's transition
  is active, and the action holds its lane. A reboot loses what is in memory only.
\<close>

record recovery_world =
  rw_manager :: recovery_manager
  rw_since :: "string \<Rightarrow> nat"

definition moved :: "recovery_world \<Rightarrow> recovery_manager \<Rightarrow> recovery_world" where
  "moved w m = \<lparr>rw_manager = m, rw_since = (\<lambda>i. counted (rw_manager w) m (rw_since w i) i)\<rparr>"

inductive recovery_step :: "recovery_config \<Rightarrow> (string \<Rightarrow> int option) \<Rightarrow> recovery_world \<Rightarrow> recovery_world \<Rightarrow> bool"
  for cfg parse where
  rs_reconcile: "recovery_step cfg parse w (moved w (snd (reconcile_observation cfg parse paused ok ob now (rw_manager w))))"
| rs_provisioned: "recovery_step cfg parse w (moved w (record_provisioned ok i desired now (rw_manager w)))"
| rs_power: "recovery_step cfg parse w (moved w (snd (record_power_action ok i action now (rw_manager w))))"
| rs_power_undone: "record_power_action ok i action now (rw_manager w) = (Some previous, m) \<Longrightarrow>
    recovery_step cfg parse w (moved w (restore_record ok' i previous m))"
| rs_forget: "recovery_step cfg parse w (moved w (forget_record ok i (rw_manager w)))"
| rs_granted: "x \<in> set (rm_start_workers (rw_manager w)) \<Longrightarrow> \<not> wk_started x \<Longrightarrow>
    recovery_step cfg parse w (moved w (start_granted x (rw_manager w)))"
| rs_turned_away: "x \<in> set (rm_start_workers (rw_manager w)) \<Longrightarrow> \<not> wk_started x \<Longrightarrow>
    recovery_step cfg parse w (moved w (end_start x (rw_manager w)))"
| rs_paused: "x \<in> set (rm_start_workers (rw_manager w)) \<Longrightarrow> \<not> wk_started x \<Longrightarrow>
    recovery_step cfg parse w (moved w (start_paused ok x now (rw_manager w)))"
| rs_failed: "x \<in> set (rm_start_workers (rw_manager w)) \<Longrightarrow> wk_started x \<Longrightarrow>
    recovery_step cfg parse w (moved w (start_failed cfg ok x now (rw_manager w)))"
| rs_succeeded: "x \<in> set (rm_start_workers (rw_manager w)) \<Longrightarrow> wk_started x \<Longrightarrow>
    recovery_step cfg parse w (moved w (start_succeeded ok x now (rw_manager w)))"
| rs_stop_granted: "y \<in> set (rm_stop_workers (rw_manager w)) \<Longrightarrow> \<not> wp_stopping y \<Longrightarrow>
    recovery_step cfg parse w (moved w (stop_granted y (rw_manager w)))"
| rs_stop_succeeded: "y \<in> set (rm_stop_workers (rw_manager w)) \<Longrightarrow> wp_stopping y \<Longrightarrow>
    recovery_step cfg parse w (moved w (stop_succeeded y (rw_manager w)))"
| rs_stop_failed: "y \<in> set (rm_stop_workers (rw_manager w)) \<Longrightarrow>
    recovery_step cfg parse w (moved w (stop_failed y (rw_manager w)))"
| rs_reboot: "recovery_step cfg parse w (moved w (initialize_recovery
    ((rw_manager w)\<lparr>rm_starts := [], rm_stops := [], rm_start_workers := [], rm_stop_workers := []\<rparr>)))"

definition world_inv :: "recovery_config \<Rightarrow> recovery_world \<Rightarrow> bool" where
  "world_inv cfg w \<longleftrightarrow> rm_records (rw_manager w) = rm_stored (rw_manager w) \<and> (\<forall>i. at_ok cfg (rw_manager w) (rw_since w i) i)"

lemma kept_world:
  assumes "world_inv cfg w" and "\<And>s. kept_at cfg i s (rw_manager w) m"
  shows "world_inv cfg (moved w m)"
proof -
  have "at_ok cfg m (counted (rw_manager w) m (rw_since w j) j) j" for j
  proof (cases "j = i")
    case True
    with assms show ?thesis by (simp add: world_inv_def kept_at_def)
  next
    case False
    then have same: "map_of (rm_records m) j = map_of (rm_records (rw_manager w)) j" "waiting m j \<longrightarrow> waiting (rw_manager w) j"
        "starts_of m j = starts_of (rw_manager w) j"
      using assms(2) [of 0] by (simp_all add: kept_at_def others_kept_def)
    have "at_ok cfg (rw_manager w) (rw_since w j) j" using assms(1) by (simp add: world_inv_def)
    with same show ?thesis by (auto simp: at_ok_def counted_def row_ok_def split: option.splits)
  qed
  with assms show ?thesis by (auto simp: world_inv_def moved_def kept_at_def)
qed

lemma quiet_world: "world_inv cfg w \<Longrightarrow> quiet (rw_manager w) m \<Longrightarrow> world_inv cfg (moved w m)"
  by (rule kept_world [OF _ quiet_kept])

lemma reboot_quiet:
  "world_inv cfg w \<Longrightarrow> quiet (rw_manager w) (initialize_recovery
     ((rw_manager w)\<lparr>rm_starts := [], rm_stops := [], rm_start_workers := [], rm_stop_workers := []\<rparr>))"
  by (simp add: initialize_recovery_def quiet_def waiting_def world_inv_def)

lemma recovery_step_inv: "world_inv cfg w \<Longrightarrow> recovery_step cfg parse w w' \<Longrightarrow> world_inv cfg w'"
proof (erule recovery_step.cases, goal_cases)
  have inst: "rr_instance r = i" if "world_inv cfg w" "map_of (rm_records (rw_manager w)) i = Some r" for w i r
  proof -
    from that(1) have "at_ok cfg (rw_manager w) (rw_since w i) i" by (simp add: world_inv_def)
    with that(2) show ?thesis by (simp add: at_ok_def)
  qed
  {
    case (1 v paused ok ob now)
    then show ?case by (auto intro!: kept_world reconcile_observation_kept inst)
  next
    case (2 v ok i desired now)
    then show ?case by (auto intro!: kept_world record_provisioned_kept)
  next
    case (3 v ok i action now)
    then show ?case by (auto intro!: kept_world record_power_action_kept inst)
  next
    case (4 ok i action now v previous m ok')
    then show ?case by (auto intro!: kept_world power_undone_kept inst)
  next
    case (5 v ok i)
    then show ?case by (auto intro!: kept_world forget_kept)
  next
    case (6 x v)
    then show ?case by (auto intro!: kept_world start_granted_kept)
  next
    case (7 x v)
    then show ?case by (auto intro!: quiet_world quiet_end_start)
  next
    case (8 x v ok now)
    then show ?case by (auto intro!: kept_world start_paused_kept inst)
  next
    case (9 x v ok now)
    then show ?case by (auto intro!: kept_world start_failed_kept inst)
  next
    case (10 x v ok now)
    then show ?case by (auto intro!: kept_world start_succeeded_kept inst)
  next
    case (11 y v)
    then show ?case by (auto intro!: kept_world stop_granted_kept)
  next
    case (12 y v)
    then show ?case by (auto intro!: quiet_world simp: stop_succeeded_def quiet_def waiting_def end_stop_def)
  next
    case (13 y v)
    then show ?case by (auto intro!: quiet_world simp: stop_failed_def quiet_def waiting_def end_stop_def Let_def)
  next
    case (14 v)
    then show ?case by (auto intro!: quiet_world reboot_quiet)
  }
qed

definition new_manager :: recovery_manager where
  "new_manager = \<lparr>rm_records = [], rm_stored = [], rm_starts = [], rm_stops = [], rm_reported = [], rm_token = 0,
     rm_start_workers = [], rm_stop_workers = [], rm_calls = [], rm_reports = 0\<rparr>"

abbreviation new_world :: recovery_world where
  "new_world \<equiv> \<lparr>rw_manager = new_manager, rw_since = \<lambda>i. 0\<rparr>"

interpretation recovery: invariant_system new_world "recovery_step cfg parse" "world_inv cfg" for cfg parse
proof
  show "world_inv cfg new_world" by (simp add: world_inv_def new_manager_def at_ok_def waiting_def)
qed (rule recovery_step_inv)


lemmas recovery_reached = recovery.inv_reach [unfolded world_inv_def]

text \<open>The delay before an attempt: none when none is configured, and never more than a minute.\<close>

lemma retry_delay_bounds:
  "retry_delay_ms n initial \<le> MAXIMUM_RETRY_DELAY_MS" "retry_delay_ms n 0 = 0"
  "min initial MAXIMUM_RETRY_DELAY_MS \<le> retry_delay_ms n initial"
proof -
  have "initial \<le> initial * 3 ^ (n - 1)" by simp
  then show "min initial MAXIMUM_RETRY_DELAY_MS \<le> retry_delay_ms n initial" 
    by (cases "initial = 0") (simp_all only: retry_delay_ms_def if_False if_True min_0L order_refl min.mono)
qed (simp_all add: retry_delay_ms_def MAXIMUM_RETRY_DELAY_MS_def)

text \<open>A configured delay of more than a minute isn't kept, though the configuration takes up to five.\<close>

lemma long_delay_cut_short: "retry_delay_ms 1 300000 = 60000"
  by (simp add: retry_delay_ms_def MAXIMUM_RETRY_DELAY_MS_def)

section \<open>Automatic recovery is bounded, remembered and gives way\<close>

text \<open>A stop that is due: the game server isn't meant to run, and its record says it has to be stopped.\<close>

definition due_stop :: "recovery_manager \<Rightarrow> string \<Rightarrow> bool" where
  "due_stop m i \<longleftrightarrow>
     (case map_of (rm_records m) i of
        Some r \<Rightarrow> rr_instance r = i \<and> rr_stop_pending r \<and> rr_desired r = DStopped | None \<Rightarrow> False)"

text \<open>A game server that runs, exits, and is started again by recovery.\<close>

definition crashed :: "bool \<Rightarrow> observation" where
  "crashed running = \<lparr>ob_docker_restart = False, ob_exit_code = 1, ob_finished_at = ''f'', ob_installation_ready = True,
     ob_instance = ''g'', ob_managed = True, ob_oom = False, ob_ready = False, ob_restarting = False, ob_running = running,
     ob_service = ''s'', ob_started_at = ''t'', ob_transition_active = False\<rparr>"

definition three_tries :: recovery_config where
  "three_tries = \<lparr>rc_initial_delay_ms = 1000, rc_max_retries = 3, rc_stability_ms = 60000\<rparr>"

definition example_worker :: start_worker where
  "example_worker = \<lparr>wk_token = 0, wk_observation = crashed False, wk_requested_at = 1010, wk_started = False\<rparr>"

definition observed :: "observation \<Rightarrow> int \<Rightarrow> recovery_world \<Rightarrow> recovery_world" where
  "observed ob now w = moved w (snd (reconcile_observation three_tries (\<lambda>t. None) False True ob now (rw_manager w)))"

definition requested_world :: recovery_world where
  "requested_world = observed (crashed False) 1010 (observed (crashed False) 10 (observed (crashed True) 0 new_world))"

definition recovered_world :: recovery_world where
  "recovered_world = moved requested_world (start_granted example_worker (rw_manager requested_world))"

lemmas example_simps = three_tries_def crashed_def example_worker_def new_manager_def initial_recovery_record_def
  reconcile_observation_def adopt_def record_exit_def reconcile_down_def request_restart_def persist_entry_def persist_def entry_of_def
  retry_delay_ms_def MAXIMUM_RETRY_DELAY_MS_def START_CONFIRMATION_TIMEOUT_MS_def recovery_reason_of_def runtime_duration_ms_def
  finished_at_ms_def start_granted_def still_wanted_def

text \<open>What the steps of the example leave.\<close>

abbreviation example_manager :: "recovery_record \<Rightarrow> recovery_manager" where
  "example_manager r \<equiv> new_manager\<lparr>rm_records := [(''g'', r)], rm_stored := [(''g'', r)]\<rparr>"

abbreviation first_row :: recovery_record where
  "first_row \<equiv> initial_recovery_record ''g'' DRunning 0 None"

abbreviation exited_row :: recovery_record where
  "exited_row \<equiv> first_row\<lparr>rr_last_exit_at := Some 10, rr_last_exit_code := Some 1, rr_last_reason := Some ProcessExit,
     rr_last_started_at := Some ''t'', rr_updated_at := 10, rr_attempts := 1, rr_next_attempt_at := Some 1010, rr_phase := PhPending\<rparr>"

abbreviation requested_row :: recovery_record where
  "requested_row \<equiv> exited_row\<lparr>rr_next_attempt_at := Some 31010, rr_phase := PhRestarting, rr_updated_at := 1010\<rparr>"

definition seen_manager :: recovery_manager where
  "seen_manager = example_manager first_row"

definition exited_manager :: recovery_manager where
  "exited_manager = example_manager exited_row"

definition requested_manager :: recovery_manager where
  "requested_manager =
     (example_manager requested_row)\<lparr>rm_starts := [(''g'', 0)], rm_token := 1, rm_start_workers := [example_worker]\<rparr>"

definition started_manager :: recovery_manager where
  "started_manager = requested_manager\<lparr>rm_start_workers := [example_worker\<lparr>wk_started := True\<rparr>], rm_calls := [RecoveryStart ''g'']\<rparr>"

lemmas stage_defs = seen_manager_def exited_manager_def requested_manager_def started_manager_def

lemma stages:
  "snd (reconcile_observation three_tries (\<lambda>t. None) False True (crashed True) 0 new_manager) = seen_manager"
  "snd (reconcile_observation three_tries (\<lambda>t. None) False True (crashed False) 10 seen_manager) = exited_manager"
  "snd (reconcile_observation three_tries (\<lambda>t. None) False True (crashed False) 1010 exited_manager) = requested_manager"
  "start_granted example_worker requested_manager = started_manager"
  by (simp_all add: stage_defs example_simps Let_def)

lemma stage_values:
  "rm_calls new_manager = []" "rm_calls seen_manager = []" "rm_calls exited_manager = []" "rm_calls requested_manager = []"
  "rm_calls started_manager = [RecoveryStart ''g'']"
  "map_of (rm_records exited_manager) ''g'' = Some exited_row" "map_of (rm_records requested_manager) ''g'' = Some requested_row"
  "map_of (rm_records started_manager) ''g'' = Some requested_row"
  "map_of (rm_records seen_manager) ''g'' = Some first_row"
  "rm_start_workers requested_manager = [example_worker]"
  by (simp_all add: stage_defs new_manager_def)

lemma moved_values: "rw_manager (moved w m) = m" "rw_since (moved w m) i = counted (rw_manager w) m (rw_since w i) i"
  by (simp_all add: moved_def)

lemma requested_values: "rw_manager requested_world = requested_manager" "rw_since requested_world ''g'' = 0"
  by (simp_all add: requested_world_def observed_def moved_values stages stage_values counted_def starts_of_def initial_recovery_record_def)

lemma recovered_state:
  "rw_since recovered_world ''g'' = 1"
  "rm_calls (rw_manager recovered_world) = [RecoveryStart ''g'']"
  "map_option rr_attempts (map_of (rm_records (rw_manager recovered_world)) ''g'') = Some 1"
  by (simp_all add: recovered_world_def moved_values requested_values stages stage_values counted_def starts_of_def)

lemma observed_step: "recovery_step three_tries (\<lambda>t. None) w (observed ob now w)"
  unfolding observed_def by (rule rs_reconcile)

lemma example_waits: "example_worker \<in> set (rm_start_workers (rw_manager requested_world))" "\<not> wk_started example_worker"
  by (simp_all add: requested_values stage_values example_worker_def)

lemma observed_reach: "reach new_world (recovery_step three_tries (\<lambda>t. None)) w \<Longrightarrow>
   reach new_world (recovery_step three_tries (\<lambda>t. None)) (observed ob now w)"
  by (erule reach_step) (rule observed_step)

lemma recovered_reach: "reach new_world (recovery_step three_tries (\<lambda>t. None)) recovered_world"
proof -
  have "reach new_world (recovery_step three_tries (\<lambda>t. None)) requested_world"
    unfolding requested_world_def by (intro observed_reach reach_init)
  then show ?thesis
    unfolding recovered_world_def by (rule reach_step) (intro rs_granted example_waits)
qed



text \<open>C39: A Relay that starts again knows of every game server's recovery what it knew before: whatever
  happened, reading the database puts back exactly the records memory held, so attempts are neither
  forgotten nor made up, and a stop that is due stays due.
\<close>

theorem recovery_survives_restart:
  assumes "reach new_world (recovery_step cfg parse) w"
  shows "rm_records (initialize_recovery (new_manager\<lparr>rm_stored := rm_stored (rw_manager w)\<rparr>)) = rm_records (rw_manager w)"
  using recovery_reached [OF assms] by (simp add: initialize_recovery_def)

theorem recovery_survives_restart_witness:
  "rm_records (initialize_recovery (new_manager\<lparr>rm_stored := rm_stored (rw_manager recovered_world)\<rparr>)) =
     rm_records (rw_manager recovered_world) \<and>
   map_option rr_attempts (map_of (rm_records (rw_manager recovered_world)) ''g'') = Some 1"
  using recovery_survives_restart [OF recovered_reach] recovered_state(3) by simp



end
