(* ===== verification/Spec2Isabelle.thy ===== *)
theory Spec2Isabelle
  imports Lane_Claims App_Keys Freezes Tar_Restores Plan_Claims Permission_Policy Resource_Power Transfer_Gate
    Browser_Outbox Nbt_Files Schedule_Claims Recovery_Claims
begin

text \<open>
  A verification development of Kiln, a panel (Hearth, \<open>apps/web\<close>) and its node agents (the Relay,
  \<open>apps/relay\<close>), which run game servers, Apps and databases in containers. It models the parts
  that decide: who may run when, who may do what, which state a resource is in, and how files and
  messages are read and written. Everything here is translated from the TypeScript under \<open>src/\<close>.

  \<^bold>\<open>The program's parts and their theories.\<close>

  \<^item> Operation lanes (\<open>packages/operations/src\<close>): every operation on a node takes locks on keys,
    shared or exclusive, and waits in one queue. \<open>Locks\<close> is \<open>locks.ts\<close> (modes, the normal form of
    a plan, the table of held locks), \<open>Grants\<close> is \<open>grants.ts\<close> (\<open>selectGrants\<close>, \<open>explainWait\<close>),
    \<open>Lanes\<close> is \<open>lanes.ts\<close>: an explicit store of waiters, one function per method, and
    \<open>lanes_step\<close>, whose steps are the methods and the resumption of the fibers between them.
    \<open>Lanes_Inv\<close> proves its invariant, \<open>Lanes_Life\<close> that no granted waiter is lost and none stalls,
    \<open>Lanes_Props\<close> exclusion, order and slots, \<open>Lane_Claims\<close> states the properties.
  \<^item> The Relay's use of them: \<open>Lane_Keys\<close> is \<open>operation-lanes.ts\<close> (keys, refusals), \<open>Plans\<close> is
    \<open>operation-plans.ts\<close> (the locks of every request; what it looks up is a parameter) with its
    properties in \<open>Plan_Claims\<close>, \<open>App_Keys\<close> is \<open>contracts/src/app-keys.ts\<close> (identifiers of
    Apps and Tailscale members).
  \<^item> Guards around the lanes: \<open>Freezes\<close> is \<open>resource-freezes.ts\<close> over the table of
    \<open>effect/state.ts\<close> it uses; \<open>Tar_Restores\<close> is \<open>backups/tar-restore-journal.ts\<close> and the swap steps of
    \<open>backups/tar-restore-steps.ts\<close>, over a file system of names; \<open>Transfer_Gate\<close> is \<open>transfers/gate.ts\<close>.
  \<^item> Power: \<open>Power_State\<close> is the Relay's \<open>power-state.ts\<close> (what a container's state and a power
    change under way make of a game server's state), \<open>Resource_Power\<close> is \<open>power-intents.ts\<close> and
    \<open>resource-power.ts\<close>, which run under the lanes. \<open>Runtime_Recovery\<close> is \<open>runtime-recovery.ts\<close>,
    which starts crashed game servers again, with its properties in \<open>Recovery_Claims\<close>.
  \<^item> Permissions (\<open>contracts/src/access-permissions.ts\<close>): \<open>Permissions\<close> holds the types and the
    scopes, \<open>Permission_Catalog\<close> the table of permissions with the facts evaluated from it,
    \<open>Permission_Validity\<close>, \<open>Permission_Grants\<close> and \<open>Permission_Expansion\<close> the check and the
    expansion of selections, \<open>Permission_Policy\<close> the presets and what a Relay client may do.
  \<^item> Files and messages: \<open>Js_Text\<close> (UTF-16 code units, UTF-8), \<open>Js_Numbers\<close> (bytes of integers,
    doubles and floats) and \<open>Js_Decimal\<close> (\<open>Number(text)\<close> and \<open>String(value)\<close> on doubles) model what
    the source uses of the language; \<open>Nbt\<close> and \<open>Nbt_Codec\<close> are \<open>nbt.ts\<close>; \<open>Snbt\<close>,
    \<open>Snbt_Codec\<close> and \<open>Snbt_Claims\<close> are \<open>contracts/src/snbt.ts\<close> (the text form: parser, formatter and
    that they fit together), and \<open>Nbt_Files\<close> is what \<open>files.ts\<close> makes of such a file when it is opened
    and saved; \<open>Browser_Outbox\<close> is \<open>browser-outbox.ts\<close>, the queue of messages to a browser.
  \<^item> Schedules: \<open>Schedules\<close> is \<open>contracts/src/schedules.ts\<close> (definitions, which step reaches which
    target, identifiers), \<open>Schedule_State\<close> is \<open>effect/schedule-state.ts\<close>, the Relay's tables, with
    their invariants in \<open>Schedule_Tables\<close>; \<open>Schedule_Runs\<close> is how \<open>schedules.ts\<close> runs one occurrence
    over its targets, \<open>Schedule_Manager\<close> how it claims and launches them, and \<open>Schedule_Claims\<close>
    their properties.

  \<open>Prelude\<close> holds what they share: insertion-ordered sets and maps, results that may be errors,
  reachability and the locales \<open>invariant_system\<close> and \<open>generation_counter\<close>, which the components
  interpret on their own step relations and counters.

  \<^bold>\<open>How the code is modelled.\<close> Objects are records, unions datatypes with the code's
  constructors, a \<open>Map\<close> an association list and a \<open>Set\<close> a distinct list, both in insertion order.
  Identifiers are HOL strings; text whose encoding matters is a list of UTF-16 code units. A method
  runs to its next suspension, so it is one function; the resumption of what it woke is a step
  of its own. Errors are values of a sum. What the sources call but do not define (decoding a
  journal with effect's \<open>Schema\<close>, \<open>Date.parse\<close>, the resolvers of a plan, the adapters of a power
  change, the cron parser, how the calls of a schedule's step end) is an argument. Recursion without a structural measure has \<open>termination\<close> proofs;
  where fuel stands for a bound of the code (nesting of at most 512 levels) or of its input (a loop
  that reads at least a byte each turn, a tick that claims a full batch of due schedules each turn), lemmas show that it never runs out.

  \<^bold>\<open>Not modelled.\<close> The web interface (\<open>apps/web/src/components\<close>, \<open>routes\<close>), the marketing site, the
  clients of Docker, Tailscale, Cloudflare, GitHub and S3, the SFTP server and the desktop, whose
  behaviour is that of services outside the repository; database migrations; and the large glue
  modules (\<open>lifecycle.ts\<close>, \<open>index.ts\<close>, \<open>backups.ts\<close>), which sequence such calls.
\<close>

end
